(* ===== verification/Mosito_Prelude.thy ===== *)
theory Mosito_Prelude
  imports Main "HOL-Library.Monad_Syntax" "HOL-Library.Multiset"
begin

text \<open>
  Shared base of the Mosito development.

  \<^item> Constants of \<^verbatim>\<open>src/src/common/m_configuration.h\<close>.
  \<^item> Undefined behaviour: an operation that dereferences raw memory returns an \<open>option\<close>;
    \<open>None\<close> is C++ undefined behaviour (an access outside an allocation, a null or
    uninitialised pointer), never a value the code returns. Leaving a value-returning function
    without a return statement is undefined too; where the caller discards the value the model
    takes a flag \<open>strict\<close> (\<open>no_return\<close>), and the theorems cover both readings.
  \<^item> Raw memory: a list of bytes (numbers below 256), with little-endian loads and stores
    of 4 and 8 byte values, and the round-trip and frame laws the components use.
\<close>

named_theorems bind_iff \<open>inversion of monadic results\<close>
named_theorems mem_simps \<open>loads and stores of raw memory\<close>

lemma bind_Some_iff [bind_iff]:
  "Option.bind m f = Some y \<longleftrightarrow> (\<exists>x. m = Some x \<and> f x = Some y)"
  by (cases m) auto

lemma bind_None_iff [bind_iff]:
  "Option.bind m f = None \<longleftrightarrow> m = None \<or> (\<exists>x. m = Some x \<and> f x = None)"
  by (cases m) auto

text \<open>
  The end of a function that is declared to return a value and has no return statement, in a state
  \<open>x\<close>. By the C++ standard this is undefined (\<open>strict\<close>); otherwise the caller, which in all modelled
  places discards the value, goes on with \<open>x\<close>.
\<close>

definition no_return :: "bool \<Rightarrow> 'a \<Rightarrow> 'a option" where
  "no_return strict x = (if strict then None else Some x)"

lemma no_return_simps [simp]: "no_return True x = None" "no_return False x = Some x"
  by (simp_all add: no_return_def)

section \<open>Configuration constants\<close>

text \<open>Defined by macros: \<open>BLOCK_SIZE\<close> is the textual \<open>64*1024\<close>.\<close>

definition BLOCK_SIZE :: nat where "BLOCK_SIZE = 65536"
definition INIT_FLEX_BLOCK_SIZE :: nat where "INIT_FLEX_BLOCK_SIZE = 64"
definition HEAP_SIZE :: nat where "HEAP_SIZE = 100"
definition HEAP_SORT_BUFFER_INIT_SIZE :: nat where "HEAP_SORT_BUFFER_INIT_SIZE = 1024"
definition COLUMN_CON :: nat where "COLUMN_CON = 20"
definition CPU_CORE :: nat where "CPU_CORE = 4"
definition DATAVOLUME :: nat where "DATAVOLUME = 50000000"
definition PORT_BASE :: nat where "PORT_BASE = 6689"
definition HIST_SIZE :: nat where "HIST_SIZE = 262144"

section \<open>Machine integers\<close>

abbreviation wrap32 :: "nat \<Rightarrow> nat" where
  "wrap32 n \<equiv> n mod 2 ^ 32"

abbreviation wrap64 :: "nat \<Rightarrow> nat" where
  "wrap64 n \<equiv> n mod 2 ^ 64"

definition ULONG_MAX :: nat where "ULONG_MAX = 2 ^ 64 - 1"
definition INT_MAX :: int where "INT_MAX = 2 ^ 31 - 1"

text \<open>The result of a signed \<open>int\<close> operation: overflow is undefined.\<close>

definition ck_int :: "int \<Rightarrow> int option" where
  "ck_int i = (if - INT_MAX - 1 \<le> i \<and> i \<le> INT_MAX then Some i else None)"

lemma ck_int_ok: "- INT_MAX - 1 \<le> i \<Longrightarrow> i \<le> INT_MAX \<Longrightarrow> ck_int i = Some i"
  by (simp add: ck_int_def)

text \<open>A 4-byte pattern read as a C \<open>int\<close> (two's complement).\<close>

definition int_of_u32 :: "nat \<Rightarrow> int" where
  "int_of_u32 n = (if n < 2 ^ 31 then int n else int n - 2 ^ 32)"

definition u32_of_int :: "int \<Rightarrow> nat" where
  "u32_of_int i = nat (i mod 2 ^ 32)"

lemma u32_int_roundtrip: "n < 2 ^ 32 \<Longrightarrow> u32_of_int (int_of_u32 n) = n"
  unfolding u32_of_int_def int_of_u32_def by (auto simp: mod_pos_pos_trivial)

lemma int_u32_roundtrip: "- (2 ^ 31) \<le> i \<Longrightarrow> i < 2 ^ 31 \<Longrightarrow> int_of_u32 (u32_of_int i) = i"
proof (cases "0 \<le> i")
  case True
  then show "i < 2 ^ 31 \<Longrightarrow> ?thesis" by (simp add: u32_of_int_def int_of_u32_def)
next
  case False
  assume "- (2 ^ 31) \<le> i"
  with False have "(i + 2 ^ 32) mod 2 ^ 32 = i + 2 ^ 32"
    by (intro mod_pos_pos_trivial) auto
  then have "i mod 2 ^ 32 = i + 2 ^ 32" by simp
  with False \<open>- (2 ^ 31) \<le> i\<close> show ?thesis
    by (simp add: u32_of_int_def int_of_u32_def)
qed

section \<open>Little-endian bytes\<close>

type_synonym bytes = "nat list"

fun le_bytes :: "nat \<Rightarrow> nat \<Rightarrow> bytes" where
  "le_bytes 0 v = []"
| "le_bytes (Suc n) v = v mod 256 # le_bytes n (v div 256)"

fun le_val :: "bytes \<Rightarrow> nat" where
  "le_val [] = 0"
| "le_val (b # bs) = b + 256 * le_val bs"

definition is_bytes :: "bytes \<Rightarrow> bool" where
  "is_bytes bs \<longleftrightarrow> list_all (\<lambda>b. b < 256) bs"

lemma length_le_bytes [simp]: "length (le_bytes n v) = n"
  by (induction n arbitrary: v) auto

lemma le_val_le_bytes [simp]: "le_val (le_bytes n v) = v mod 256 ^ n"
proof (induction n arbitrary: v)
  case (Suc n)
  show ?case using mod_mult2_eq [of v 256 "256 ^ n"] by (simp add: Suc)
qed simp

lemma le_bytes_le_val: "is_bytes bs \<Longrightarrow> le_bytes (length bs) (le_val bs) = bs"
  by (induction bs) (auto simp: is_bytes_def)

lemma le_val_bound: "is_bytes bs \<Longrightarrow> le_val bs < 256 ^ length bs"
  by (induction bs) (auto simp: is_bytes_def)

lemma le_val_zeros [simp]: "le_val (replicate n 0) = 0"
  by (induction n) auto

lemma is_bytes_le_bytes [simp]: "is_bytes (le_bytes n v)"
  by (induction n arbitrary: v) (auto simp: is_bytes_def)

lemma is_bytes_append [simp]: "is_bytes (xs @ ys) \<longleftrightarrow> is_bytes xs \<and> is_bytes ys"
  by (auto simp: is_bytes_def)

lemma is_bytes_take [simp]: "is_bytes xs \<Longrightarrow> is_bytes (take n xs)"
  by (auto simp: is_bytes_def list_all_iff dest: in_set_takeD)

lemma is_bytes_drop [simp]: "is_bytes xs \<Longrightarrow> is_bytes (drop n xs)"
  by (auto simp: is_bytes_def list_all_iff dest: in_set_dropD)

section \<open>Raw memory\<close>

definition rd_bytes :: "bytes \<Rightarrow> nat \<Rightarrow> nat \<Rightarrow> bytes option" where
  "rd_bytes m off n = (if off + n \<le> length m then Some (take n (drop off m)) else None)"

definition wr_bytes :: "bytes \<Rightarrow> nat \<Rightarrow> bytes \<Rightarrow> bytes option" where
  "wr_bytes m off bs =
     (if off + length bs \<le> length m then Some (take off m @ bs @ drop (off + length bs) m)
      else None)"

text \<open>Loads of an \<open>unsigned int\<close> and an \<open>unsigned long\<close>, and the store of an \<open>int\<close>.\<close>

definition rd_u32 :: "bytes \<Rightarrow> nat \<Rightarrow> nat option" where
  "rd_u32 m off = map_option le_val (rd_bytes m off 4)"

definition rd_u64 :: "bytes \<Rightarrow> nat \<Rightarrow> nat option" where
  "rd_u64 m off = map_option le_val (rd_bytes m off 8)"

definition wr_u32 :: "bytes \<Rightarrow> nat \<Rightarrow> nat \<Rightarrow> bytes option" where
  "wr_u32 m off v = wr_bytes m off (le_bytes 4 v)"

definition wr_u64 :: "bytes \<Rightarrow> nat \<Rightarrow> nat \<Rightarrow> bytes option" where
  "wr_u64 m off v = wr_bytes m off (le_bytes 8 v)"

lemma wr_bytes_length [mem_simps]: "wr_bytes m off bs = Some m' \<Longrightarrow> length m' = length m"
  by (auto simp: wr_bytes_def split: if_splits)

lemma wr_bytes_Some_iff: "(\<exists>m'. wr_bytes m off bs = Some m') \<longleftrightarrow> off + length bs \<le> length m"
  by (auto simp: wr_bytes_def)

lemma rd_wr_same:
  "wr_bytes m off bs = Some m' \<Longrightarrow> n = length bs \<Longrightarrow> rd_bytes m' off n = Some bs"
  by (auto simp: wr_bytes_def rd_bytes_def split: if_splits)

lemma rd_wr_before:
  assumes "wr_bytes m off bs = Some m'" and "k + n \<le> off"
  shows "rd_bytes m' k n = rd_bytes m k n"
  using assms by (auto simp: wr_bytes_def rd_bytes_def take_drop split: if_splits)

lemma rd_wr_after:
  assumes "wr_bytes m off bs = Some m'" and "off + length bs \<le> k"
  shows "rd_bytes m' k n = rd_bytes m k n"
  using assms by (auto simp: wr_bytes_def rd_bytes_def split: if_splits)

lemma is_bytes_wr:
  "wr_bytes m off bs = Some m' \<Longrightarrow> is_bytes m \<Longrightarrow> is_bytes bs \<Longrightarrow> is_bytes m'"
  by (auto simp: wr_bytes_def split: if_splits)

lemma wr_u32_eq: "wr_u32 m off v = Some m' \<longleftrightarrow> wr_bytes m off (le_bytes 4 v) = Some m'"
  by (simp add: wr_u32_def)

lemma rd_u32_wr_u32:
  "wr_u32 m off v = Some m' \<Longrightarrow> rd_u32 m' off = Some (v mod 2 ^ 32)"
  by (auto simp: wr_u32_def rd_u32_def dest: rd_wr_same [where n = 4])

lemma rd_u32_wr_bytes_before:
  "wr_bytes m off bs = Some m' \<Longrightarrow> k + 4 \<le> off \<Longrightarrow> rd_u32 m' k = rd_u32 m k"
  by (simp add: rd_u32_def rd_wr_before)

lemma rd_u32_wr_bytes_after:
  "wr_bytes m off bs = Some m' \<Longrightarrow> off + length bs \<le> k \<Longrightarrow> rd_u32 m' k = rd_u32 m k"
  by (simp add: rd_u32_def rd_wr_after)

section \<open>Lists\<close>

lemma list_update_swap_mset:
  "i < length xs \<Longrightarrow> j < length xs \<Longrightarrow> mset (xs[i := xs ! j, j := xs ! i]) = mset xs"
  by (rule mset_swap)

lemma those_iff: "those xs = Some ys \<longleftrightarrow> xs = map Some ys"
  by (induction xs arbitrary: ys) (auto split: option.splits)

lemma mset_concat_map: "mset (concat (map f xs)) = (\<Sum>x \<in># mset xs. mset (f x))"
  by (induction xs) auto

section \<open>Decimal output\<close>

text \<open>What \<open>ostream << n\<close> prints for an unsigned number.\<close>

definition digit :: "nat \<Rightarrow> char" where
  "digit d = char_of (48 + d)"

fun dec :: "nat \<Rightarrow> string" where
  "dec n = (if n < 10 then [digit n] else dec (n div 10) @ [digit (n mod 10)])"

declare dec.simps [simp del]

definition undigit :: "char \<Rightarrow> nat" where
  "undigit c = of_char c - 48"

fun undec :: "string \<Rightarrow> nat \<Rightarrow> nat" where
  "undec [] acc = acc"
| "undec (c # cs) acc = undec cs (10 * acc + undigit c)"

lemma undigit_digit: "d < 10 \<Longrightarrow> undigit (digit d) = d"
  by (simp add: undigit_def digit_def)

lemma undec_append: "undec (xs @ ys) acc = undec ys (undec xs acc)"
  by (induction xs arbitrary: acc) auto

lemma undec_dec: "undec (dec n) 0 = n"
proof (induction n rule: dec.induct)
  case (1 n)
  then show ?case
    by (subst dec.simps) (auto simp: undec_append undigit_digit)
qed

lemma dec_inj: "dec m = dec n \<longleftrightarrow> m = n"
  by (metis undec_dec)

definition show_int :: "int \<Rightarrow> string" where
  "show_int i = (if i < 0 then ''-'' @ dec (nat (- i)) else dec (nat i))"

end
