(* ===== verification/Mosito_Buffer.thy ===== *)
theory Mosito_Buffer
  imports Mosito_Prelude
begin

text \<open>
  Blocks and their iterators (\<^verbatim>\<open>common/m_buffer.h\<close>, \<^verbatim>\<open>common/m_buffer.cpp\<close>).

  A block is a raw allocation (\<open>blk_mem\<close>, its length is the allocated size), the distance
  \<open>free_ - start_\<close>, the logical size \<open>size_\<close> and the tuple size. A tuple pointer into a
  block is its offset; the null pointer is \<open>None\<close>. The last four bytes of the logical size
  are the tail: the tuple count that iterators trust.
\<close>

record block =
  blk_mem :: bytes
  blk_free :: nat
  blk_size :: nat
  blk_tuple_size :: nat

section \<open>Block\<close>

text \<open>
  \<open>Buffer(size)\<close> mallocs \<open>size\<close> bytes whose contents are indeterminate: they are the
  argument \<open>junk\<close>. \<open>Block(unsigned)\<close> leaves \<open>tuple_size_\<close> indeterminate as well.
\<close>

definition mk_Block :: "bytes \<Rightarrow> nat \<Rightarrow> block" where
  "mk_Block junk tuple_size =
     \<lparr>blk_mem = junk, blk_free = 0, blk_size = length junk, blk_tuple_size = tuple_size\<rparr>"

definition getActualSize :: "block \<Rightarrow> nat" where
  "getActualSize b = blk_tuple_size b"

definition allocateTuple :: "block \<Rightarrow> nat option" where
  "allocateTuple b =
     (if blk_free b + blk_tuple_size b \<le> blk_size b then Some (blk_free b) else None)"

definition storeTuple :: "block \<Rightarrow> nat \<Rightarrow> bytes \<Rightarrow> block option" where
  "storeTuple b desc src = do {
     bs \<leftarrow> rd_bytes src 0 (blk_tuple_size b);
     m \<leftarrow> wr_bytes (blk_mem b) desc bs;
     Some (b\<lparr>blk_mem := m, blk_free := blk_free b + blk_tuple_size b\<rparr>)
   }"

definition updateFree :: "block \<Rightarrow> block" where
  "updateFree b = b\<lparr>blk_free := blk_free b + blk_tuple_size b\<rparr>"

definition build :: "block \<Rightarrow> nat \<Rightarrow> nat \<Rightarrow> block option" where
  "build b sz number =
     (if sz < 4 then None
      else map_option (\<lambda>m. b\<lparr>blk_mem := m\<rparr>) (wr_u32 (blk_mem b) (sz - 4) number))"

definition blk_empty :: "block \<Rightarrow> bool" where
  "blk_empty b \<longleftrightarrow> blk_free b = 0"

definition tag :: "block \<Rightarrow> nat \<Rightarrow> nat \<Rightarrow> block option" where
  "tag b sz tg =
     (if sz < 8 then None
      else map_option (\<lambda>m. b\<lparr>blk_mem := m\<rparr>) (wr_u32 (blk_mem b) (sz - 8) tg))"

definition get_size :: "block \<Rightarrow> nat option" where
  "get_size b = (if blk_size b < 4 then None else rd_u32 (blk_mem b) (blk_size b - 4))"

definition storeBlock :: "block \<Rightarrow> bytes \<Rightarrow> nat \<Rightarrow> block option" where
  "storeBlock b src sz = do {
     bs \<leftarrow> rd_bytes src 0 sz;
     m \<leftarrow> wr_bytes (blk_mem b) 0 bs;
     Some (b\<lparr>blk_mem := m, blk_free := sz\<rparr>)
   }"

definition blk_reset :: "block \<Rightarrow> block" where
  "blk_reset b = b\<lparr>blk_free := 0\<rparr>"

definition assembling :: "block \<Rightarrow> nat \<Rightarrow> nat \<Rightarrow> block option" where
  "assembling b sz tuple_size =
     (if sz < 4 \<or> tuple_size = 0 then None
      else map_option (\<lambda>m. b\<lparr>blk_mem := m, blk_size := sz\<rparr>)
             (wr_u32 (blk_mem b) (sz - 4) ((sz - 4) div tuple_size)))"

text \<open>
  \<open>compare_start_end\<close>: the range of the first and last key. An \<open>int\<close> bound is converted to
  \<open>unsigned long\<close>; the result is uninitialised when no branch assigned it.
\<close>

definition u64_of_int :: "int \<Rightarrow> nat" where
  "u64_of_int i = nat (i mod 2 ^ 64)"

fun cse_loop :: "nat \<Rightarrow> nat \<Rightarrow> int list \<Rightarrow> nat \<Rightarrow> int option" where
  "cse_loop start en [] i = None"
| "cse_loop start en (b # bounds) i =
     (if start < u64_of_int b \<and> en < u64_of_int b then Some (int i)
      else if en > u64_of_int b then cse_loop start en bounds (Suc i)
      else if start > u64_of_int b \<and> en < u64_of_int b then Some (- 1)
      else cse_loop start en bounds (Suc i))"

definition blk_compare_start_end :: "block \<Rightarrow> int list \<Rightarrow> int option" where
  "blk_compare_start_end b bounds = do {
     start \<leftarrow> rd_u64 (blk_mem b) 8;
     n \<leftarrow> get_size b;
     en \<leftarrow> rd_u64 (blk_mem b) (wrap32 (blk_tuple_size b * wrap32 (n + 2 ^ 32 - 1)) + 8);
     cse_loop start en bounds 0
   }"

section \<open>FlexBlock\<close>

text \<open>
  \<open>double_buffer\<close> multiplies \<open>size_\<close> by the factor, 2 for every flex block the program
  makes, and reallocs. The conversion of the product to \<open>unsigned\<close> is undefined from
  \<open>2 ^ 32\<close> on. \<open>junk\<close> supplies the indeterminate bytes realloc appends.
\<close>

definition double_buffer :: "(nat \<Rightarrow> nat) \<Rightarrow> block \<Rightarrow> block option" where
  "double_buffer junk b =
     (let sz = blk_size b * 2 in
      if sz \<ge> 2 ^ 32 then None
      else Some (b\<lparr>blk_size := sz,
                   blk_mem := take sz (blk_mem b @ map junk [length (blk_mem b)..<sz])\<rparr>))"

text \<open>The loop of \<open>storeTupleOK\<close>: a zero-sized block doubles to zero forever.\<close>

function grow :: "(nat \<Rightarrow> nat) \<Rightarrow> block \<Rightarrow> (nat \<times> block) option" where
  "grow junk b =
     (case allocateTuple b of
        Some des \<Rightarrow> Some (des, b)
      | None \<Rightarrow>
          if blk_size b = 0 then None
          else (case double_buffer junk b of
                  None \<Rightarrow> None
                | Some b' \<Rightarrow> grow junk b'))"
  by pat_completeness auto
termination
  by (relation "measure (\<lambda>(junk, b). 2 ^ 32 - blk_size b)")
    (auto simp: double_buffer_def Let_def split: if_splits)

declare grow.simps [simp del]

text \<open>\<open>storeTupleOK\<close> is declared \<open>bool\<close> and has no return statement.\<close>

definition storeTupleOK :: "bool \<Rightarrow> (nat \<Rightarrow> nat) \<Rightarrow> block \<Rightarrow> bytes \<Rightarrow> block option" where
  "storeTupleOK strict junk b tuple = do {
     (des, b') \<leftarrow> grow junk b;
     b'' \<leftarrow> storeTuple b' des tuple;
     no_return strict b''
   }"

lemma storeTupleOK_strict [simp]: "storeTupleOK True junk b tuple = None"
  by (rule ccontr) (auto simp: storeTupleOK_def bind_iff)

definition flex_reset :: "block \<Rightarrow> block" where
  "flex_reset b = b\<lparr>blk_size := HEAP_SORT_BUFFER_INIT_SIZE, blk_free := 0\<rparr>"

text \<open>\<open>persist\<close> writes the bytes up to \<open>free_\<close>: the file contents.\<close>

definition persist :: "block \<Rightarrow> bytes option" where
  "persist b = rd_bytes (blk_mem b) 0 (blk_free b)"

section \<open>BufferIterator\<close>

record iter =
  it_current :: nat
  it_fake :: "nat option"

text \<open>The constructor leaves \<open>fake_count_\<close> uninitialised.\<close>

definition createIterator :: iter where
  "createIterator = \<lparr>it_current = 0, it_fake = None\<rparr>"

definition getNext :: "block \<Rightarrow> iter \<Rightarrow> (nat option \<times> iter) option" where
  "getNext b it = do {
     n \<leftarrow> get_size b;
     let ret = wrap32 (it_current it * blk_tuple_size b);
     if it_current it = n then Some (None, it\<lparr>it_fake := Some 0\<rparr>)
     else Some (Some ret, it\<lparr>it_fake := Some 0, it_current := wrap32 (it_current it + 1)\<rparr>)
   }"

definition getCurrent :: "block \<Rightarrow> iter \<Rightarrow> nat option option" where
  "getCurrent b it = do {
     n \<leftarrow> get_size b;
     if it_current it = n then Some None
     else Some (Some (wrap32 (it_current it * blk_tuple_size b)))
   }"

definition increaseCur :: "iter \<Rightarrow> iter" where
  "increaseCur it = it\<lparr>it_current := wrap32 (it_current it + 1)\<rparr>"

text \<open>\<open>getNextFake\<close> never returns the null pointer: there is no bound check.\<close>

definition getNextFake :: "block \<Rightarrow> iter \<Rightarrow> (nat \<times> iter) option" where
  "getNextFake b it = do {
     f \<leftarrow> it_fake it;
     let f' = wrap32 (f + 1);
     Some (wrap32 (wrap32 (it_current it + f') * blk_tuple_size b), it\<lparr>it_fake := Some f'\<rparr>)
   }"

definition it_reset :: "iter \<Rightarrow> iter" where
  "it_reset it = it\<lparr>it_current := 0\<rparr>"

text \<open>The loop \<open>while((tuple = bi->getNext()) != 0)\<close>: the tuple pointers in order.\<close>

fun drain :: "nat \<Rightarrow> block \<Rightarrow> iter \<Rightarrow> (nat list \<times> iter) option" where
  "drain 0 b it = None"
| "drain (Suc fuel) b it = do {
     (p, it') \<leftarrow> getNext b it;
     case p of
       None \<Rightarrow> Some ([], it')
     | Some off \<Rightarrow> do {
         (ps, it'') \<leftarrow> drain fuel b it';
         Some (off # ps, it'')
       }
   }"

text \<open>The tuples a client sees: a fresh iterator run to the end, every pointer read.\<close>

definition tuple_at :: "block \<Rightarrow> nat \<Rightarrow> bytes option" where
  "tuple_at b p = rd_bytes (blk_mem b) p (blk_tuple_size b)"

definition block_tuples :: "block \<Rightarrow> bytes list option" where
  "block_tuples b = do {
     n \<leftarrow> get_size b;
     (ps, _) \<leftarrow> drain (Suc n) b createIterator;
     those (map (tuple_at b) ps)
   }"

text \<open>
  The loop \<open>while((desc = block->allocateTuple()) != 0) storeTuple(desc, tuple)\<close> over a
  source of tuples, stopped when the source is empty: the block and the tuples left over.
\<close>

fun fill_block :: "block \<Rightarrow> bytes list \<Rightarrow> (block \<times> bytes list) option" where
  "fill_block b [] = Some (b, [])"
| "fill_block b (t # ts) =
     (case allocateTuple b of
        None \<Rightarrow> Some (b, t # ts)
      | Some desc \<Rightarrow> do { b' \<leftarrow> storeTuple b desc t; fill_block b' ts })"

section \<open>What a block holds\<close>

definition blk_ok :: "block \<Rightarrow> bool" where
  "blk_ok b \<longleftrightarrow> length (blk_mem b) = blk_size b \<and> blk_free b \<le> blk_size b \<and> blk_size b < 2 ^ 32"

text \<open>\<open>holds b ts\<close>: the bytes up to \<open>free_\<close> are exactly the tuples \<open>ts\<close>.\<close>

definition holds :: "block \<Rightarrow> bytes list \<Rightarrow> bool" where
  "holds b ts \<longleftrightarrow> take (blk_free b) (blk_mem b) = concat ts \<and>
     list_all (\<lambda>t. length t = blk_tuple_size b) ts \<and> blk_free b = length ts * blk_tuple_size b"

lemma length_concat_uniform:
  "list_all (\<lambda>t. length t = k) ts \<Longrightarrow> length (concat ts) = length ts * k"
  by (induction ts) auto

lemma nth_concat_uniform:
  assumes "list_all (\<lambda>t. length t = k) ts" and "i < length ts"
  shows "take k (drop (i * k) (concat ts @ rest)) = ts ! i"
  using assms
proof (induction ts arbitrary: i)
  case (Cons t ts)
  then show ?case by (cases i) auto
qed simp

lemma take_concat_uniform:
  assumes "list_all (\<lambda>t. length t = k) ts" and "n \<le> length ts"
  shows "take (n * k) (concat ts) = concat (take n ts)"
  using assms
proof (induction ts arbitrary: n)
  case (Cons t ts)
  then show ?case by (cases n) auto
qed simp

lemma those_map_Some:
  "(\<And>x. x \<in> set xs \<Longrightarrow> f x = Some (g x)) \<Longrightarrow> those (map f xs) = Some (map g xs)"
  by (induction xs) auto

lemma blk_ok_mk_Block [simp]: "length junk < 2 ^ 32 \<Longrightarrow> blk_ok (mk_Block junk k)"
  by (simp add: blk_ok_def mk_Block_def)

lemma holds_mk_Block [simp]: "holds (mk_Block junk k) []"
  by (simp add: holds_def mk_Block_def)

lemma mk_Block_simps [simp]:
  "blk_size (mk_Block junk k) = length junk" "blk_tuple_size (mk_Block junk k) = k"
  "blk_free (mk_Block junk k) = 0" "blk_mem (mk_Block junk k) = junk"
  by (simp_all add: mk_Block_def)

lemma blk_reset_simps [simp]:
  "blk_size (blk_reset b) = blk_size b" "blk_tuple_size (blk_reset b) = blk_tuple_size b"
  "blk_free (blk_reset b) = 0" "blk_mem (blk_reset b) = blk_mem b"
  "blk_ok b \<Longrightarrow> blk_ok (blk_reset b)" "holds (blk_reset b) []"
  by (simp_all add: blk_reset_def blk_ok_def holds_def)

subsection \<open>Iterating\<close>

lemma drain_spec:
  assumes "get_size b = Some n" and "n < 2 ^ 32" and "it_current it \<le> n"
    and "n - it_current it < fuel"
  shows "drain fuel b it = Some (map (\<lambda>i. wrap32 (i * blk_tuple_size b)) [it_current it..<n],
           it\<lparr>it_current := n, it_fake := Some 0\<rparr>)"
  using assms
proof (induction fuel arbitrary: it)
  case (Suc fuel)
  show ?case
  proof (cases "it_current it = n")
    case True
    then show ?thesis using Suc.prems by (simp add: getNext_def Let_def)
  next
    case False
    with Suc.prems have lt: "it_current it < n" by simp
    let ?it' = "it\<lparr>it_fake := Some 0, it_current := Suc (it_current it)\<rparr>"
    have "drain fuel b ?it' = Some (map (\<lambda>i. wrap32 (i * blk_tuple_size b))
        [Suc (it_current it)..<n], it\<lparr>it_current := n, it_fake := Some 0\<rparr>)"
      using Suc.IH [of ?it'] Suc.prems lt by simp
    moreover have "getNext b it = Some (Some (wrap32 (it_current it * blk_tuple_size b)), ?it')"
      using Suc.prems lt False by (simp add: getNext_def Let_def)
    ultimately show ?thesis using lt by (simp add: upt_conv_Cons)
  qed
qed simp

lemma block_tuples_spec:
  assumes n: "get_size b = Some (length ts)"
    and ts: "list_all (\<lambda>t. length t = blk_tuple_size b) ts"
    and pre: "take (length ts * blk_tuple_size b) (blk_mem b) = concat ts"
    and small: "length ts * blk_tuple_size b < 2 ^ 32" "length ts < 2 ^ 32"
    and len: "length ts * blk_tuple_size b \<le> length (blk_mem b)"
  shows "block_tuples b = Some ts"
proof -
  let ?k = "blk_tuple_size b"
  have slice: "tuple_at b (wrap32 (i * ?k)) = Some (ts ! i)" if i: "i < length ts" for i
  proof -
    have le: "Suc i * ?k \<le> length ts * ?k" using i by (intro mult_le_mono1) simp
    have "blk_mem b = concat ts @ drop (length ts * ?k) (blk_mem b)"
      by (metis pre append_take_drop_id)
    then have "take ?k (drop (i * ?k) (blk_mem b)) = ts ! i"
      using nth_concat_uniform [OF ts i] by metis
    moreover have "i * ?k < 2 ^ 32" using le small by (auto intro: le_less_trans)
    ultimately show ?thesis using le len by (simp add: tuple_at_def rd_bytes_def)
  qed
  have "those (map (tuple_at b) (map (\<lambda>i. wrap32 (i * ?k)) [0..<length ts]))
      = Some (map (\<lambda>i. ts ! i) [0..<length ts])"
    unfolding map_map by (rule those_map_Some) (use slice in simp)
  then show ?thesis
    using drain_spec [OF n, of createIterator "Suc (length ts)"] small
    by (simp add: block_tuples_def n createIterator_def map_nth del: drain.simps)
qed

subsection \<open>Filling\<close>

lemma storeTuple_spec:
  assumes "blk_ok b" and "holds b ts" and "length t = blk_tuple_size b"
    and "allocateTuple b = Some d"
  shows "\<exists>b'. storeTuple b d t = Some b' \<and> blk_ok b' \<and> holds b' (ts @ [t])
    \<and> blk_size b' = blk_size b \<and> blk_tuple_size b' = blk_tuple_size b"
  using assms
  by (auto simp: storeTuple_def allocateTuple_def blk_ok_def holds_def rd_bytes_def wr_bytes_def
      split: if_splits)

lemma fill_block_spec:
  assumes "blk_ok b" and "holds b us" and "list_all (\<lambda>t. length t = blk_tuple_size b) ts"
    and "0 < blk_tuple_size b"
    and k: "k = min (length ts) ((blk_size b - blk_free b) div blk_tuple_size b)"
  shows "\<exists>b'. fill_block b ts = Some (b', drop k ts) \<and> blk_ok b' \<and> holds b' (us @ take k ts)
    \<and> blk_size b' = blk_size b \<and> blk_tuple_size b' = blk_tuple_size b"
  using assms
proof (induction ts arbitrary: b us k)
  case (Cons t ts)
  show ?case
  proof (cases "allocateTuple b")
    case None
    then have "blk_size b - blk_free b < blk_tuple_size b"
      using Cons.prems(4) by (auto simp: allocateTuple_def split: if_splits)
    then have "(blk_size b - blk_free b) div blk_tuple_size b = 0" by simp
    with None Cons.prems show ?thesis by simp
  next
    case (Some d)
    from storeTuple_spec [OF Cons.prems(1,2) _ Some, of t] Cons.prems(3)
    obtain b1 where b1: "storeTuple b d t = Some b1" "blk_ok b1" "holds b1 (us @ [t])"
      "blk_size b1 = blk_size b" "blk_tuple_size b1 = blk_tuple_size b"
      by auto
    let ?k = "min (length ts) ((blk_size b1 - blk_free b1) div blk_tuple_size b1)"
    have free: "blk_free b1 = blk_free b + blk_tuple_size b"
      and fit: "blk_free b + blk_tuple_size b \<le> blk_size b"
      using b1(1) Some
      by (auto simp: storeTuple_def allocateTuple_def bind_iff split: if_splits)
    have "blk_size b - blk_free b = (blk_size b1 - blk_free b1) + blk_tuple_size b"
      using fit free b1(4) by simp
    then have "(blk_size b - blk_free b) div blk_tuple_size b
        = Suc ((blk_size b1 - blk_free b1) div blk_tuple_size b1)"
      using Cons.prems(4) b1(5) by (simp add: div_add_self2)
    then have k: "k = Suc ?k" using Cons.prems(5) by simp
    from Cons.IH [OF b1(2,3) _ _ refl] Cons.prems(3,4) b1(5)
    obtain b' where "fill_block b1 ts = Some (b', drop ?k ts)" "blk_ok b'"
      "holds b' ((us @ [t]) @ take ?k ts)" "blk_size b' = blk_size b1"
      "blk_tuple_size b' = blk_tuple_size b1"
      by auto
    then show ?thesis using b1 Some k by simp
  qed
qed (auto simp: holds_def)

subsection \<open>The tail\<close>

lemma get_size_build:
  assumes "build b (blk_size b) n = Some b'"
  shows "get_size b' = Some (wrap32 n)"
  using assms by (auto simp: build_def get_size_def split: if_splits dest: rd_u32_wr_u32)

lemma wr_u32_prefix:
  assumes "wr_u32 m off v = Some m'" and "k \<le> off"
  shows "take k m' = take k m"
  using assms by (auto simp: wr_u32_def wr_bytes_def split: if_splits)

text \<open>
  C32. A block is a faithful container when the tail is left free: storing tuples that end at
  least four bytes before the end of the block and writing their number with \<open>build\<close> makes an
  iterator return exactly those tuples, in order.
\<close>

theorem block_store_iterate:
  assumes "length junk < 2 ^ 32" and "0 < k" and "list_all (\<lambda>t. length t = k) ts"
    and "length ts * k + 4 \<le> length junk"
  shows "\<exists>b b'. fill_block (mk_Block junk k) ts = Some (b, [])
    \<and> build b (length junk) (length ts) = Some b' \<and> block_tuples b' = Some ts"
proof -
  let ?b = "mk_Block junk k"
  have "length ts \<le> length junk div k"
    using assms(2,4) by (metis add_leD1 div_le_mono nonzero_mult_div_cancel_right neq0_conv)
  then have min: "min (length ts) ((blk_size ?b - blk_free ?b) div blk_tuple_size ?b) = length ts"
    by simp
  from fill_block_spec [of ?b "[]" ts "length ts"] assms min
  obtain b where b: "fill_block ?b ts = Some (b, [])" "blk_ok b" "holds b ts"
    "blk_size b = length junk" "blk_tuple_size b = k"
    by auto
  obtain b' where b': "build b (length junk) (length ts) = Some b'"
    using b(2,4) assms(4) by (auto simp: build_def blk_ok_def wr_u32_def wr_bytes_def)
  have lt: "length ts < 2 ^ 32" "length ts * k < 2 ^ 32"
    using assms by (auto intro: le_less_trans [of _ "length ts * k"])
  have sz: "get_size b' = Some (length ts)"
    using get_size_build [of b "length ts" b'] b' b(4) lt by simp
  have same: "blk_size b' = length junk" "blk_tuple_size b' = k"
    "length (blk_mem b') = length junk"
    using b' b(2,4,5)
    by (auto simp: build_def blk_ok_def wr_u32_def split: if_splits dest: wr_bytes_length)
  have "take (length ts * k) (blk_mem b') = take (length ts * k) (blk_mem b)"
    using b' assms(4) by (auto simp: build_def split: if_splits intro: wr_u32_prefix)
  also have "\<dots> = concat ts" using b(3,5) by (auto simp: holds_def)
  finally have "block_tuples b' = Some ts"
    using block_tuples_spec [OF sz] same assms lt by simp
  then show ?thesis using b(1) b' by blast
qed

lemma uniform_cut:
  assumes "length m = n * k"
  shows "\<exists>us. concat us = m \<and> length us = n \<and> (\<forall>u \<in> set us. length u = k)"
  using assms
proof (induction n arbitrary: m)
  case (Suc n)
  then have "length (drop k m) = n * k" by simp
  from Suc.IH [OF this] obtain us where "concat us = drop k m" "length us = n" "\<forall>u \<in> set us. length u = k"
    by blast
  then show ?case using Suc.prems by (intro exI [of _ "take k m # us"]) auto
qed simp

text \<open>
  What a block shows after \<open>assembling\<close>: as many tuples as fit before the tail, first those it holds and
  then whatever its memory has behind them.
\<close>

lemma assembling_shows:
  assumes "blk_ok b" and "holds b ts" and "4 \<le> blk_size b" and "0 < blk_tuple_size b"
  defines "n \<equiv> (blk_size b - 4) div blk_tuple_size b"
  shows "\<exists>b' us. assembling b (blk_size b) (blk_tuple_size b) = Some b' \<and> blk_ok b'
    \<and> blk_tuple_size b' = blk_tuple_size b \<and> blk_size b' = blk_size b
    \<and> block_tuples b' = Some us \<and> length us = n \<and> take (length ts) us = take n ts"
proof -
  let ?k = "blk_tuple_size b"
  obtain m where m: "wr_u32 (blk_mem b) (blk_size b - 4) n = Some m"
    using assms(1,3) by (auto simp: blk_ok_def wr_u32_def wr_bytes_def)
  define b' where "b' = b\<lparr>blk_mem := m, blk_size := blk_size b\<rparr>"
  have asm: "assembling b (blk_size b) ?k = Some b'"
    using assms(3,4) m by (simp add: assembling_def b'_def n_def)
  have fit: "n * ?k + 4 \<le> blk_size b"
    using assms(3) div_times_less_eq_dividend [of "blk_size b - 4" ?k] unfolding n_def by linarith
  have "n \<le> blk_size b - 4" unfolding n_def by (rule div_le_dividend)
  then have small: "n * ?k < 2 ^ 32" "n < 2 ^ 32"
    using assms(1) fit unfolding blk_ok_def by linarith+
  have len: "length m = blk_size b"
    using m assms(1) by (auto simp: wr_u32_def blk_ok_def dest: wr_bytes_length)
  have sz: "get_size b' = Some n"
    using m assms(3) small by (auto simp: get_size_def b'_def dest: rd_u32_wr_u32)
  obtain us where us: "concat us = take (n * ?k) m" "length us = n" "\<forall>u \<in> set us. length u = ?k"
    using uniform_cut [of "take (n * ?k) m" n ?k] len fit by auto
  have bt: "block_tuples b' = Some us"
    using block_tuples_spec [of b' us] sz us small len fit by (simp add: b'_def list_all_iff)
  let ?j = "min (length ts) n"
  have tsk: "\<forall>t \<in> set ts. length t = ?k" "blk_free b = length ts * ?k" "take (blk_free b) (blk_mem b) = concat ts"
    using assms(2) by (auto simp: holds_def list_all_iff)
  have "concat (take ?j us) = take (?j * ?k) m"
    using take_concat_uniform [of ?k us ?j] us by (simp add: list_all_iff min_def mult_le_mono1)
  also have "\<dots> = take (?j * ?k) (take (n * ?k) m)" by simp
  also have "take (n * ?k) m = take (n * ?k) (blk_mem b)" using m fit by (auto intro: wr_u32_prefix)
  also have "take (?j * ?k) (take (n * ?k) (blk_mem b)) = take (?j * ?k) (take (blk_free b) (blk_mem b))"
    unfolding tsk(2) by (simp add: min_def)
  also have "\<dots> = concat (take ?j ts)" unfolding tsk(3) using take_concat_uniform [of ?k ts ?j] tsk(1) by (simp add: list_all_iff)
  finally have "concat (take ?j us) = concat (take ?j ts)" .
  moreover have "length x = length y" if "(x, y) \<in> set (zip (take ?j us) (take ?j ts))" for x y
    using in_set_takeD [OF set_zip_leftD [OF that]] in_set_takeD [OF set_zip_rightD [OF that]] us(3) tsk(1) by simp
  ultimately have "take ?j us = take ?j ts" using us(2) by (intro concat_injective) auto
  then have "take (length ts) us = take n ts" using us(2) by (simp add: min_def split: if_splits)
  then show ?thesis
    using asm len assms(1) bt us(2) by (auto simp: b'_def blk_ok_def)
qed

lemma assembling_spec:
  assumes "blk_ok b" and "holds b ts" and "4 \<le> blk_size b" and "0 < blk_tuple_size b"
    and full: "(blk_size b - 4) div blk_tuple_size b \<le> length ts"
  shows "\<exists>b'. assembling b (blk_size b) (blk_tuple_size b) = Some b' \<and> blk_ok b'
    \<and> blk_tuple_size b' = blk_tuple_size b \<and> blk_size b' = blk_size b
    \<and> block_tuples b' = Some (take ((blk_size b - 4) div blk_tuple_size b) ts)"
  using assembling_shows [OF assms(1-4)] full by auto

text \<open>
  C33. Filling a block until \<open>allocateTuple\<close> returns null and closing it with \<open>assembling\<close>, as
  \<open>Sort::execute\<close> and the shuffles do, takes \<open>size / k\<close> tuples from the source but the next
  reader sees only the first \<open>(size - 4) / k\<close>: \<open>allocateTuple\<close> does not reserve the tail.
\<close>

theorem fill_assembling_visible:
  assumes "length junk < 2 ^ 32" and "4 \<le> length junk" and "0 < k"
    and "list_all (\<lambda>t. length t = k) ts" and "length junk div k \<le> length ts"
  shows "\<exists>b b'. fill_block (mk_Block junk k) ts = Some (b, drop (length junk div k) ts)
    \<and> assembling b (length junk) k = Some b'
    \<and> block_tuples b' = Some (take ((length junk - 4) div k) ts)"
proof -
  let ?n = "length junk div k"
  from fill_block_spec [of "mk_Block junk k" "[]" ts ?n] assms
  obtain b where b: "fill_block (mk_Block junk k) ts = Some (b, drop ?n ts)" "blk_ok b"
    "holds b (take ?n ts)" "blk_size b = length junk" "blk_tuple_size b = k"
    by (auto simp: min_absorb2)
  have "(length junk - 4) div k \<le> ?n" by (intro div_le_mono) simp
  then have "(blk_size b - 4) div blk_tuple_size b \<le> length (take ?n ts)"
    using assms(5) b(4,5) by simp
  from assembling_spec [OF b(2,3) _ _ this] b(4,5) assms(2,3)
  obtain b' where "assembling b (length junk) k = Some b'"
    "block_tuples b' = Some (take ((length junk - 4) div k) (take ?n ts))"
    by auto
  moreover have "min ((length junk - 4) div k) ?n = (length junk - 4) div k"
    by (intro min_absorb1 div_le_mono) simp
  ultimately show ?thesis using b(1) by (auto simp: min.commute)
qed

theorem block_store_iterate_witness:
  "\<exists>b b'. fill_block (mk_Block (replicate 20 0) 8) [le_bytes 8 5, le_bytes 8 6] = Some (b, [])
    \<and> build b 20 2 = Some b' \<and> block_tuples b' = Some [le_bytes 8 5, le_bytes 8 6]"
proof -
  have two: "length [le_bytes 8 5, le_bytes 8 6] = 2" by simp
  show ?thesis
    using block_store_iterate [of "replicate 20 0" 8 "[le_bytes 8 5, le_bytes 8 6]"]
    unfolding two by (simp del: fill_block.simps)
qed

text \<open>
  With the block size and the 16-byte tuples of the program: 4097 tuples offered, one left
  over, 4095 visible; one tuple is lost.
\<close>

theorem fill_assembling_visible_witness:
  "\<exists>b b'. fill_block (mk_Block (replicate BLOCK_SIZE 0) 16) (replicate 4097 (replicate 16 7))
      = Some (b, [replicate 16 7])
    \<and> assembling b BLOCK_SIZE 16 = Some b'
    \<and> block_tuples b' = Some (replicate 4095 (replicate 16 7))"
proof -
  let ?ts = "replicate 4097 (replicate 16 7) :: bytes list"
  have "drop 4096 ?ts = replicate (4097 - 4096) (replicate 16 7)" by (rule drop_replicate)
  then have dr: "drop 4096 ?ts = [replicate 16 7]" by simp
  have tk: "take 4095 ?ts = replicate 4095 (replicate 16 7)" by (simp add: take_replicate)
  show ?thesis
    using fill_assembling_visible [of "replicate BLOCK_SIZE 0" 16 ?ts] dr tk
    by (simp add: BLOCK_SIZE_def list_all_length del: fill_block.simps)
qed

text \<open>A block image of 16-byte tuples, some padding and the tail.\<close>

definition kv_image :: "bytes \<Rightarrow> bytes list \<Rightarrow> block" where
  "kv_image pad ts = \<lparr>blk_mem = concat ts @ pad @ le_bytes 4 (length ts), blk_free = 0,
     blk_size = length (concat ts) + length pad + 4, blk_tuple_size = 16\<rparr>"

lemma block_tuples_image:
  assumes "\<forall>t \<in> set ts. length t = 16" and "length ts < 2 ^ 20"
  shows "block_tuples (kv_image pad ts) = Some ts"
proof (rule block_tuples_spec)
  have l: "length (concat ts) = length ts * 16"
    using assms(1) by (intro length_concat_uniform) (simp add: list_all_iff)
  have "rd_bytes (concat ts @ pad @ le_bytes 4 (length ts)) (length (concat ts) + length pad) 4
    = Some (le_bytes 4 (length ts))" by (simp add: rd_bytes_def)
  then show "get_size (kv_image pad ts) = Some (length ts)"
    using assms(2) by (simp add: get_size_def kv_image_def rd_u32_def)
  show "take (length ts * blk_tuple_size (kv_image pad ts)) (blk_mem (kv_image pad ts)) = concat ts"
    using l by (simp add: kv_image_def)
  show "length ts * blk_tuple_size (kv_image pad ts) \<le> length (blk_mem (kv_image pad ts))"
    using l by (simp add: kv_image_def)
qed (use assms in \<open>auto simp: kv_image_def list_all_iff\<close>)

end
