(* ===== verification/Mosito_Queue.thy ===== *)
theory Mosito_Queue
  imports Mosito_Buffer
begin

text \<open>
  The two queues of \<^verbatim>\<open>common/m_circle_queue.h\<close>.

  \<^item> \<open>CircleQueue\<close>: a ring of malloc'ed nodes with a head node, \<open>front_\<close> and \<open>rear_\<close> pointers;
    modelled on a heap of nodes, addresses numbered in the order of allocation.
  \<^item> \<open>BlockCircleQueue\<close>: a pool of blocks that moves between the lists \<open>emptys_\<close> and
    \<open>blocks_\<close>; \<open>push\<close> and \<open>pop\<close> copy block contents.

  Every public operation runs under the queue's mutex, so a concurrent execution is a sequence
  of the operations below. The interface both promise is the locale \<open>bounded_fifo\<close>; its
  clients' lemma, for any sequence of pushes and pops, is proved once and used for both.
\<close>

section \<open>The interface\<close>

datatype 'a qop = Push 'a | Pop

text \<open>
  What a call returns: \<open>push\<close> a truth value, \<open>pop\<close> an element or the null pointer (false for
  \<open>BlockCircleQueue\<close>). \<open>run_ops\<close> runs a sequence of calls and lists every result.
\<close>

datatype 'b qres = Pushed bool | Popped "'b option"

fun run_ops :: "('a \<Rightarrow> 'q \<Rightarrow> (bool \<times> 'q) option) \<Rightarrow> ('q \<Rightarrow> ('b option \<times> 'q) option) \<Rightarrow>
    'a qop list \<Rightarrow> 'q \<Rightarrow> ('b qres list \<times> 'q) option" where
  "run_ops psh pp [] q = Some ([], q)"
| "run_ops psh pp (Push x # ops) q = do {
     (ok, q') \<leftarrow> psh x q;
     (rs, q'') \<leftarrow> run_ops psh pp ops q';
     Some (Pushed ok # rs, q'')
   }"
| "run_ops psh pp (Pop # ops) q = do {
     (y, q') \<leftarrow> pp q;
     (rs, q'') \<leftarrow> run_ops psh pp ops q';
     Some (Popped y # rs, q'')
   }"

text \<open>
  The specification: a list of at most \<open>c\<close> elements. A push is accepted exactly when there is
  room and appends; a pop takes the head, and returns nothing exactly when the list is empty.
\<close>

fun fifo_spec :: "nat \<Rightarrow> ('a \<Rightarrow> 'b) \<Rightarrow> 'a qop list \<Rightarrow> 'b list \<Rightarrow> 'b qres list \<times> 'b list" where
  "fifo_spec c view [] xs = ([], xs)"
| "fifo_spec c view (Push x # ops) xs =
     (if length xs < c then apfst (Cons (Pushed True)) (fifo_spec c view ops (xs @ [view x]))
      else apfst (Cons (Pushed False)) (fifo_spec c view ops xs))"
| "fifo_spec c view (Pop # ops) xs =
     (case xs of
        [] \<Rightarrow> apfst (Cons (Popped None)) (fifo_spec c view ops [])
      | y # ys \<Rightarrow> apfst (Cons (Popped (Some y))) (fifo_spec c view ops ys))"

definition push_args :: "'a qop list \<Rightarrow> 'a set" where
  "push_args ops = {x. Push x \<in> set ops}"

lemma push_args_simps [simp]:
  "push_args [] = {}" "push_args (Push x # ops) = insert x (push_args ops)"
  "push_args (Pop # ops) = push_args ops"
  by (auto simp: push_args_def)

locale bounded_fifo =
  fixes psh :: "'a \<Rightarrow> 'q \<Rightarrow> (bool \<times> 'q) option"
    and pp :: "'q \<Rightarrow> ('b option \<times> 'q) option"
    and contents :: "'q \<Rightarrow> 'b list"
    and valid :: "'q \<Rightarrow> bool"
    and cap :: "'q \<Rightarrow> nat"
    and good :: "'a \<Rightarrow> bool"
    and view :: "'a \<Rightarrow> 'b"
  assumes push_room: "\<lbrakk>valid q; good x; length (contents q) < cap q\<rbrakk> \<Longrightarrow>
      \<exists>q'. psh x q = Some (True, q') \<and> valid q' \<and> contents q' = contents q @ [view x] \<and>
           cap q' = cap q"
    and push_full: "\<lbrakk>valid q; good x; length (contents q) = cap q\<rbrakk> \<Longrightarrow> psh x q = Some (False, q)"
    and pop_nonempty: "\<lbrakk>valid q; contents q = y # ys\<rbrakk> \<Longrightarrow>
      \<exists>q'. pp q = Some (Some y, q') \<and> valid q' \<and> contents q' = ys \<and> cap q' = cap q"
    and pop_empty: "\<lbrakk>valid q; contents q = []\<rbrakk> \<Longrightarrow> pp q = Some (None, q)"
    and bounded: "valid q \<Longrightarrow> length (contents q) \<le> cap q"
begin

lemma push_cases:
  assumes "valid q" and "good x"
  obtains (room) q' where "psh x q = Some (True, q')" "valid q'"
      "contents q' = contents q @ [view x]" "cap q' = cap q" "length (contents q) < cap q"
    | (full) "psh x q = Some (False, q)" "length (contents q) = cap q"
  using push_room [OF assms] push_full [OF assms] bounded [OF assms(1)] by force

lemma run_refines:
  assumes "valid q" and "\<forall>x \<in> push_args ops. good x"
    and "fifo_spec (cap q) view ops (contents q) = (rs, ys)"
  shows "\<exists>q'. run_ops psh pp ops q = Some (rs, q') \<and> valid q' \<and> cap q' = cap q \<and> contents q' = ys"
  using assms
proof (induction ops arbitrary: q rs)
  case (Cons op ops)
  show ?case
  proof (cases op)
    case (Push x)
    with Cons.prems have "good x" by auto
    with Cons.prems(1) show ?thesis
    proof (cases rule: push_cases)
      case (room q')
      with Cons.IH [of q'] Cons.prems Push show ?thesis
        by (cases "fifo_spec (cap q) view ops (contents q @ [view x])") fastforce
    next
      case full
      with Cons.IH [of q] Cons.prems Push show ?thesis
        by (cases "fifo_spec (cap q) view ops (contents q)") fastforce
    qed
  next
    case Pop
    show ?thesis
    proof (cases "contents q")
      case Nil
      with pop_empty [OF Cons.prems(1)] Cons.IH [of q] Cons.prems Pop show ?thesis
        by (cases "fifo_spec (cap q) view ops []") fastforce
    next
      case (Cons y ys)
      with pop_nonempty [OF Cons.prems(1) Cons] Cons.IH Cons.prems Pop show ?thesis
        by (cases "fifo_spec (cap q) view ops ys") fastforce
    qed
  qed
qed simp

end

section \<open>CircleQueue\<close>

record 'q cnode =
  cn_node :: "'q option"
  cn_next :: "nat option"

record 'q circle_queue =
  cq_capacity :: nat
  cq_head :: "nat option"
  cq_front :: "nat option"
  cq_rear :: "nat option"
  cq_heap :: "nat \<Rightarrow> 'q cnode option"

text \<open>
  The constructor: address 0 is the head node, address \<open>i + 1\<close> the node of round \<open>i\<close> of the
  loop. \<open>set_next\<close> is a store through a node pointer.
\<close>

definition set_next :: "(nat \<Rightarrow> 'q cnode option) \<Rightarrow> nat \<Rightarrow> nat option \<Rightarrow> (nat \<Rightarrow> 'q cnode option)" where
  "set_next h a p = (case h a of None \<Rightarrow> h | Some n \<Rightarrow> h(a \<mapsto> n\<lparr>cn_next := p\<rparr>))"

definition cq_round :: "nat \<Rightarrow> nat \<Rightarrow> 'q circle_queue \<times> nat \<Rightarrow> 'q circle_queue \<times> nat" where
  "cq_round capacity i st = (case st of (q, cur_tail) \<Rightarrow>
     let temp = Suc i;
         h = (cq_heap q)(temp \<mapsto> \<lparr>cn_node = None, cn_next = None\<rparr>) in
     if i = 0 then
       (q\<lparr>cq_front := Some temp, cq_rear := Some temp, cq_heap := set_next h cur_tail (Some temp)\<rparr>,
        temp)
     else if i = capacity then
       (q\<lparr>cq_heap := set_next (set_next h temp (Some 1)) cur_tail (Some temp)\<rparr>, temp)
     else (q\<lparr>cq_heap := set_next h cur_tail (Some temp)\<rparr>, temp))"

definition mk_CircleQueue :: "nat \<Rightarrow> 'q circle_queue" where
  "mk_CircleQueue capacity =
     fst (fold (cq_round capacity) [0..<capacity + 1]
       (\<lparr>cq_capacity = capacity, cq_head = Some 0, cq_front = None, cq_rear = None,
         cq_heap = [0 \<mapsto> \<lparr>cn_node = None, cn_next = None\<rparr>]\<rparr>, 0))"

definition cq_push :: "'q \<Rightarrow> 'q circle_queue \<Rightarrow> (bool \<times> 'q circle_queue) option" where
  "cq_push node q = do {
     r \<leftarrow> cq_rear q;
     n \<leftarrow> cq_heap q r;
     if cn_next n = cq_front q then Some (False, q)
     else Some (True, q\<lparr>cq_heap := (cq_heap q)(r \<mapsto> n\<lparr>cn_node := Some node\<rparr>),
                         cq_rear := cn_next n\<rparr>)
   }"

definition cq_pop :: "'q circle_queue \<Rightarrow> ('q option \<times> 'q circle_queue) option" where
  "cq_pop q =
     (if cq_rear q = cq_front q then Some (None, q)
      else do {
        f \<leftarrow> cq_front q;
        n \<leftarrow> cq_heap q f;
        Some (cn_node n, q\<lparr>cq_front := cn_next n\<rparr>)
      })"

definition cq_empty :: "'q circle_queue \<Rightarrow> bool" where
  "cq_empty q \<longleftrightarrow> cq_rear q = cq_front q"

text \<open>The destructor walks \<open>queue_capacity_ + 2\<close> nodes from the head and frees each.\<close>

fun cq_free_loop :: "nat \<Rightarrow> (nat \<Rightarrow> 'q cnode option) \<Rightarrow> nat option \<Rightarrow> (nat \<Rightarrow> 'q cnode option) option" where
  "cq_free_loop 0 h q = Some h"
| "cq_free_loop (Suc k) h q = do {
     p \<leftarrow> q;
     n \<leftarrow> h p;
     cq_free_loop k (h(p := None)) (cn_next n)
   }"

definition cq_destroy :: "'q circle_queue \<Rightarrow> (nat \<Rightarrow> 'q cnode option) option" where
  "cq_destroy q = cq_free_loop (cq_capacity q + 2) (cq_heap q) (cq_head q)"

subsection \<open>The ring invariant\<close>

definition ring_succ :: "nat \<Rightarrow> nat \<Rightarrow> nat" where
  "ring_succ c a = (if a = c + 1 then 1 else a + 1)"

definition ring_dist :: "nat \<Rightarrow> nat \<Rightarrow> nat \<Rightarrow> nat" where
  "ring_dist c f r = (if f \<le> r then r - f else r + (c + 1) - f)"

fun ring_walk :: "nat \<Rightarrow> nat \<Rightarrow> nat \<Rightarrow> nat list" where
  "ring_walk c 0 a = []"
| "ring_walk c (Suc k) a = a # ring_walk c k (ring_succ c a)"

definition cq_contents :: "'q circle_queue \<Rightarrow> 'q list" where
  "cq_contents q =
     (case (cq_front q, cq_rear q) of
        (Some f, Some r) \<Rightarrow>
          map (\<lambda>a. the (cn_node (the (cq_heap q a))))
            (ring_walk (cq_capacity q) (ring_dist (cq_capacity q) f r) f)
      | _ \<Rightarrow> [])"

definition cq_valid :: "'q circle_queue \<Rightarrow> bool" where
  "cq_valid q \<longleftrightarrow> 1 \<le> cq_capacity q \<and>
     (\<exists>f r. cq_front q = Some f \<and> cq_rear q = Some r \<and>
        1 \<le> f \<and> f \<le> cq_capacity q + 1 \<and> 1 \<le> r \<and> r \<le> cq_capacity q + 1 \<and>
        (\<forall>a. 1 \<le> a \<and> a \<le> cq_capacity q + 1 \<longrightarrow>
           (\<exists>n. cq_heap q a = Some n \<and> cn_next n = Some (ring_succ (cq_capacity q) a))) \<and>
        (\<forall>a \<in> set (ring_walk (cq_capacity q) (ring_dist (cq_capacity q) f r) f).
           \<exists>n. cq_heap q a = Some n \<and> cn_node n \<noteq> None))"

lemma length_ring_walk [simp]: "length (ring_walk c k a) = k"
  by (induction k arbitrary: a) auto

lemma ring_walk_snoc: "ring_walk c (Suc k) a = ring_walk c k a @ [(ring_succ c ^^ k) a]"
  by (induction k arbitrary: a) (auto simp: funpow_swap1)

lemma ring_succ_range: "1 \<le> a \<Longrightarrow> a \<le> c + 1 \<Longrightarrow> 1 \<le> ring_succ c a \<and> ring_succ c a \<le> c + 1"
  by (auto simp: ring_succ_def)

lemma ring_succ_funpow:
  assumes "1 \<le> a" and "a \<le> c + 1" and "k \<le> c + 1"
  shows "(ring_succ c ^^ k) a = (if a + k \<le> c + 1 then a + k else a + k - (c + 1))"
  using assms by (induction k) (auto simp: ring_succ_def)

lemma ring_dist_reach:
  assumes "1 \<le> f" "f \<le> c + 1" "1 \<le> r" "r \<le> c + 1"
  shows "(ring_succ c ^^ ring_dist c f r) f = r"
  using assms by (auto simp: ring_dist_def ring_succ_funpow)

lemma ring_dist_succ:
  assumes "1 \<le> f" "f \<le> c + 1" "1 \<le> r" "r \<le> c + 1" "ring_succ c r \<noteq> f"
  shows "ring_dist c f (ring_succ c r) = Suc (ring_dist c f r)"
  using assms by (auto simp: ring_dist_def ring_succ_def)

lemma ring_dist_bound:
  assumes "1 \<le> f" "f \<le> c + 1" "1 \<le> r" "r \<le> c + 1"
  shows "ring_dist c f r \<le> c \<and> (ring_dist c f r = c \<longleftrightarrow> ring_succ c r = f)"
  using assms by (auto simp: ring_dist_def ring_succ_def)

lemma ring_dist_pop:
  assumes "1 \<le> f" "f \<le> c + 1" "1 \<le> r" "r \<le> c + 1" "f \<noteq> r"
  shows "ring_dist c f r = Suc (ring_dist c (ring_succ c f) r)"
  using assms by (auto simp: ring_dist_def ring_succ_def)

lemma ring_walk_not_rear:
  assumes "1 \<le> f" "f \<le> c + 1" "1 \<le> r" "r \<le> c + 1"
  shows "r \<notin> set (ring_walk c (ring_dist c f r) f)"
  using assms
proof (induction "ring_dist c f r" arbitrary: f)
  case (Suc k)
  then have ne: "f \<noteq> r" by (auto simp: ring_dist_def)
  from ring_dist_pop [OF Suc.prems ne] Suc.hyps(2) have k: "k = ring_dist c (ring_succ c f) r"
    by simp
  have "1 \<le> ring_succ c f" "ring_succ c f \<le> c + 1"
    using ring_succ_range [OF Suc.prems(1,2)] by auto
  then have "r \<notin> set (ring_walk c k (ring_succ c f))"
    using Suc.hyps(1) [OF k] Suc.prems k by simp
  then show ?case using ne Suc.hyps(2) [symmetric] by simp
qed simp

lemma cq_validE:
  assumes "cq_valid q"
  obtains f r where "cq_front q = Some f" "cq_rear q = Some r" "1 \<le> cq_capacity q"
    "1 \<le> f" "f \<le> cq_capacity q + 1" "1 \<le> r" "r \<le> cq_capacity q + 1"
    "\<And>a. 1 \<le> a \<Longrightarrow> a \<le> cq_capacity q + 1 \<Longrightarrow>
       \<exists>n. cq_heap q a = Some n \<and> cn_next n = Some (ring_succ (cq_capacity q) a)"
    "\<And>a. a \<in> set (ring_walk (cq_capacity q) (ring_dist (cq_capacity q) f r) f) \<Longrightarrow>
       \<exists>n. cq_heap q a = Some n \<and> cn_node n \<noteq> None"
  using assms unfolding cq_valid_def by blast

lemma cq_push_room:
  assumes v: "cq_valid q" and room: "length (cq_contents q) < cq_capacity q"
  shows "\<exists>q'. cq_push x q = Some (True, q') \<and> cq_valid q' \<and>
    cq_contents q' = cq_contents q @ [x] \<and> cq_capacity q' = cq_capacity q"
proof -
  let ?c = "cq_capacity q"
  from v obtain f r where fr: "cq_front q = Some f" "cq_rear q = Some r" "1 \<le> ?c"
    "1 \<le> f" "f \<le> ?c + 1" "1 \<le> r" "r \<le> ?c + 1"
    and nodes: "\<And>a. 1 \<le> a \<Longrightarrow> a \<le> ?c + 1 \<Longrightarrow>
       \<exists>n. cq_heap q a = Some n \<and> cn_next n = Some (ring_succ ?c a)"
    and full: "\<And>a. a \<in> set (ring_walk ?c (ring_dist ?c f r) f) \<Longrightarrow>
       \<exists>n. cq_heap q a = Some n \<and> cn_node n \<noteq> None"
    by (rule cq_validE) blast
  from nodes [of r] fr obtain n where n: "cq_heap q r = Some n" "cn_next n = Some (ring_succ ?c r)"
    by auto
  have ne: "ring_succ ?c r \<noteq> f"
    using room ring_dist_bound [of f ?c r] fr by (auto simp: cq_contents_def)
  define q' where "q' = q\<lparr>cq_heap := (cq_heap q)(r \<mapsto> n\<lparr>cn_node := Some x\<rparr>),
    cq_rear := Some (ring_succ ?c r)\<rparr>"
  have psh: "cq_push x q = Some (True, q')"
    using n fr ne by (simp add: cq_push_def q'_def)
  have d: "ring_dist ?c f (ring_succ ?c r) = Suc (ring_dist ?c f r)"
    using ring_dist_succ fr ne by simp
  have walk: "ring_walk ?c (Suc (ring_dist ?c f r)) f = ring_walk ?c (ring_dist ?c f r) f @ [r]"
    using ring_walk_snoc ring_dist_reach fr by simp
  have notin: "r \<notin> set (ring_walk ?c (ring_dist ?c f r) f)"
    using ring_walk_not_rear fr by simp
  then have same: "map (\<lambda>a. the (cn_node (the (cq_heap q' a)))) (ring_walk ?c (ring_dist ?c f r) f)
      = map (\<lambda>a. the (cn_node (the (cq_heap q a)))) (ring_walk ?c (ring_dist ?c f r) f)"
    by (intro map_cong) (auto simp: q'_def)
  have "cq_contents q' = cq_contents q @ [x]"
    using fr d walk same by (simp add: cq_contents_def q'_def del: ring_walk.simps)
  moreover have "cq_valid q'"
    unfolding cq_valid_def using fr d walk nodes full notin n ring_succ_range [of r ?c]
    by (auto simp: q'_def simp del: ring_walk.simps)
  moreover have "cq_capacity q' = ?c" by (simp add: q'_def)
  ultimately show ?thesis using psh by blast
qed

lemma cq_push_full:
  assumes v: "cq_valid q" and full: "length (cq_contents q) = cq_capacity q"
  shows "cq_push x q = Some (False, q)"
proof -
  from v obtain f r where fr: "cq_front q = Some f" "cq_rear q = Some r"
    "1 \<le> f" "f \<le> cq_capacity q + 1" "1 \<le> r" "r \<le> cq_capacity q + 1"
    and nodes: "\<exists>n. cq_heap q r = Some n \<and> cn_next n = Some (ring_succ (cq_capacity q) r)"
    by (rule cq_validE) blast
  have "ring_succ (cq_capacity q) r = f"
    using full ring_dist_bound [of f "cq_capacity q" r] fr by (simp add: cq_contents_def)
  then show ?thesis using nodes fr by (auto simp: cq_push_def)
qed

lemma cq_pop_nonempty:
  assumes v: "cq_valid q" and ys: "cq_contents q = y # ys"
  shows "\<exists>q'. cq_pop q = Some (Some y, q') \<and> cq_valid q' \<and> cq_contents q' = ys \<and>
    cq_capacity q' = cq_capacity q"
proof -
  let ?c = "cq_capacity q"
  from v obtain f r where fr: "cq_front q = Some f" "cq_rear q = Some r" "1 \<le> ?c"
    "1 \<le> f" "f \<le> ?c + 1" "1 \<le> r" "r \<le> ?c + 1"
    and nodes: "\<And>a. 1 \<le> a \<Longrightarrow> a \<le> ?c + 1 \<Longrightarrow>
       \<exists>n. cq_heap q a = Some n \<and> cn_next n = Some (ring_succ ?c a)"
    and full: "\<And>a. a \<in> set (ring_walk ?c (ring_dist ?c f r) f) \<Longrightarrow>
       \<exists>n. cq_heap q a = Some n \<and> cn_node n \<noteq> None"
    by (rule cq_validE) blast
  have ne: "f \<noteq> r" using ys fr by (auto simp: cq_contents_def ring_dist_def)
  have d: "ring_dist ?c f r = Suc (ring_dist ?c (ring_succ ?c f) r)"
    using ring_dist_pop fr ne by simp
  from nodes [of f] fr obtain n where n: "cq_heap q f = Some n" "cn_next n = Some (ring_succ ?c f)"
    by auto
  have node: "cn_node n = Some y"
    using ys fr d n full [of f] by (auto simp: cq_contents_def)
  define q' where "q' = q\<lparr>cq_front := Some (ring_succ ?c f)\<rparr>"
  have "cq_pop q = Some (Some y, q')"
    using fr ne n node by (simp add: cq_pop_def q'_def)
  moreover have "cq_contents q' = ys"
    using ys fr d by (simp add: cq_contents_def q'_def)
  moreover have "cq_valid q'"
    unfolding cq_valid_def using fr nodes full ring_succ_range [of f ?c] d
    by (auto simp: q'_def)
  ultimately show ?thesis by (auto simp: q'_def)
qed

lemma cq_pop_empty:
  assumes "cq_valid q" and "cq_contents q = []"
  shows "cq_pop q = Some (None, q)"
proof -
  from assms(1) obtain f r where "cq_front q = Some f" "cq_rear q = Some r"
      "f \<le> cq_capacity q + 1" "1 \<le> r"
    by (rule cq_validE) blast
  moreover from this have "ring_dist (cq_capacity q) f r = 0"
    using arg_cong [OF assms(2), of length] by (simp add: cq_contents_def)
  ultimately show ?thesis by (auto simp: cq_pop_def ring_dist_def split: if_splits)
qed

lemma cq_bounded: "cq_valid q \<Longrightarrow> length (cq_contents q) \<le> cq_capacity q"
  by (erule cq_validE) (use ring_dist_bound in \<open>fastforce simp: cq_contents_def\<close>)

interpretation cq: bounded_fifo cq_push cq_pop cq_contents cq_valid cq_capacity "\<lambda>_. True" id
  by unfold_locales
    (auto simp: cq_push_room cq_push_full cq_pop_empty cq_bounded intro: cq_pop_nonempty)

lemma cq_empty_iff: "cq_valid q \<Longrightarrow> cq_empty q \<longleftrightarrow> cq_contents q = []"
  by (elim cq_validE)
    (auto simp: cq_empty_def cq_contents_def ring_dist_def dest: arg_cong [where f = length])

subsection \<open>Construction and destruction\<close>

text \<open>The heap after the first \<open>i\<close> rounds of the constructor's loop, \<open>1 \<le> i \<le> capacity\<close>.\<close>

definition partial_ring :: "nat \<Rightarrow> nat \<Rightarrow> 'q cnode option" where
  "partial_ring i a = (if a < i then Some \<lparr>cn_node = None, cn_next = Some (a + 1)\<rparr>
     else if a = i then Some \<lparr>cn_node = None, cn_next = None\<rparr> else None)"

lemma cq_rounds:
  assumes "1 \<le> i" and "i \<le> c"
  shows "fold (cq_round c) [0..<i]
       (\<lparr>cq_capacity = c, cq_head = Some 0, cq_front = None, cq_rear = None,
         cq_heap = [0 \<mapsto> \<lparr>cn_node = None, cn_next = None\<rparr>]\<rparr>, 0)
     = (\<lparr>cq_capacity = c, cq_head = Some 0, cq_front = Some 1, cq_rear = Some 1,
         cq_heap = partial_ring i\<rparr>, i)"
  using assms
proof (induction i rule: nat_induct_at_least)
  case base
  then show ?case
    by (auto simp: cq_round_def set_next_def partial_ring_def fun_eq_iff Let_def)
next
  case (Suc i)
  then show ?case
    by (auto simp: cq_round_def set_next_def partial_ring_def fun_eq_iff Let_def)
qed

lemma mk_CircleQueue_eq:
  assumes "1 \<le> c"
  shows "(mk_CircleQueue c :: 'q circle_queue) =
     \<lparr>cq_capacity = c, cq_head = Some 0, cq_front = Some 1, cq_rear = Some 1,
      cq_heap = (\<lambda>a. if a = 0 then Some \<lparr>cn_node = None, cn_next = Some 1\<rparr>
        else if a \<le> c + 1 then Some \<lparr>cn_node = None, cn_next = Some (ring_succ c a)\<rparr> else None)\<rparr>"
proof -
  have "(mk_CircleQueue c :: 'q circle_queue) = fst (cq_round c c (\<lparr>cq_capacity = c, cq_head = Some 0,
      cq_front = Some 1, cq_rear = Some 1, cq_heap = partial_ring c\<rparr>, c))"
    unfolding mk_CircleQueue_def using assms by (simp add: cq_rounds)
  moreover have "(partial_ring c :: nat \<Rightarrow> 'q cnode option)(Suc c \<mapsto> \<lparr>cn_node = None, cn_next = Some (Suc 0)\<rparr>,
      c \<mapsto> \<lparr>cn_node = None, cn_next = Some (Suc c)\<rparr>)
    = (\<lambda>a. if a = 0 then Some \<lparr>cn_node = None, cn_next = Some 1\<rparr>
        else if a \<le> c + 1 then Some \<lparr>cn_node = None, cn_next = Some (ring_succ c a)\<rparr> else None)"
    using assms by (auto simp: partial_ring_def ring_succ_def)
  ultimately show ?thesis
    using assms by (simp add: cq_round_def set_next_def partial_ring_def Let_def)
qed

lemma mk_CircleQueue_valid [simp]: "1 \<le> c \<Longrightarrow> cq_valid (mk_CircleQueue c)"
  and mk_CircleQueue_contents [simp]: "1 \<le> c \<Longrightarrow> cq_contents (mk_CircleQueue c) = []"
  and mk_CircleQueue_capacity [simp]: "1 \<le> c \<Longrightarrow> cq_capacity (mk_CircleQueue c) = c"
  by (simp_all add: mk_CircleQueue_eq cq_valid_def cq_contents_def ring_dist_def)

text \<open>
  C11. A \<open>CircleQueue\<close> of capacity \<open>c \<ge> 1\<close> is a bounded first-in first-out queue under any
  sequence of \<open>push\<close> and \<open>pop\<close> calls: no call touches memory outside the ring, and every call
  returns what a list of at most \<open>c\<close> elements gives: \<open>push\<close> succeeds exactly when fewer than
  \<open>c\<close> elements are queued, \<open>pop\<close> returns the oldest element and the null pointer exactly when
  there is none.
\<close>

theorem circle_queue_fifo:
  assumes "1 \<le> c" and "fifo_spec c id ops [] = (rs, ys)"
  shows "\<exists>q. run_ops cq_push cq_pop ops (mk_CircleQueue c) = Some (rs, q)
    \<and> cq_contents q = ys \<and> cq_valid q \<and> length ys \<le> c"
  using cq.run_refines [of "mk_CircleQueue c" ops rs ys] cq.bounded assms by fastforce

theorem circle_queue_fifo_witness:
  "\<exists>q. run_ops cq_push cq_pop [Push (1::nat), Push 2, Push 3, Pop, Push 4, Pop, Pop, Pop] (mk_CircleQueue 2)
      = Some ([Pushed True, Pushed True, Pushed False, Popped (Some 1), Pushed True,
               Popped (Some 2), Popped (Some 4), Popped None], q)
    \<and> cq_contents q = [] \<and> cq_valid q \<and> length ([] :: nat list) \<le> 2"
  by (rule circle_queue_fifo) simp_all

text \<open>
  \<open>push\<close> returns false exactly when the queue holds \<open>capacity\<close> elements, and then changes
  nothing; \<open>pop\<close> returns the null pointer exactly when the queue is empty.
\<close>

theorem circle_queue_full_empty:
  assumes "cq_valid q"
  shows "(cq_push x q = Some (False, q) \<longleftrightarrow> length (cq_contents q) = cq_capacity q)
    \<and> (cq_pop q = Some (None, q) \<longleftrightarrow> cq_contents q = [])
    \<and> (cq_empty q \<longleftrightarrow> cq_contents q = [])"
proof -
  have "cq_empty q \<longleftrightarrow> cq_contents q = []" using assms by (rule cq_empty_iff)
  moreover have "cq_pop q = Some (None, q) \<longleftrightarrow> cq_contents q = []"
    using cq.pop_empty [OF assms] cq.pop_nonempty [OF assms] by (cases "cq_contents q") auto
  moreover have "cq_push x q = Some (False, q) \<longleftrightarrow> length (cq_contents q) = cq_capacity q"
    using assms by (cases rule: cq.push_cases [of q x]) auto
  ultimately show ?thesis by blast
qed

theorem circle_queue_full_empty_witness:
  "cq_pop (mk_CircleQueue 3 :: nat circle_queue) = Some (None, mk_CircleQueue 3)"
proof -
  have v: "cq_valid (mk_CircleQueue 3 :: nat circle_queue)" by simp
  show ?thesis using circle_queue_full_empty [OF v] by simp
qed

lemma cq_free_ring:
  assumes "\<And>a. j \<le> a \<Longrightarrow> a \<le> c + 1 \<Longrightarrow>
      \<exists>n. h a = Some n \<and> cn_next n = Some (ring_succ c a)"
    and "1 \<le> j" "j + k = c + 2"
  shows "cq_free_loop k h (Some j) = Some (\<lambda>a. if j \<le> a \<and> a \<le> c + 1 then None else h a)"
  using assms
proof (induction k arbitrary: h j)
  case 0
  then show ?case by (auto simp: fun_eq_iff)
next
  case (Suc k)
  from Suc.prems obtain n where n: "h j = Some n" "cn_next n = Some (ring_succ c j)" by force
  show ?case
  proof (cases k)
    case 0
    then show ?thesis using n Suc.prems by (auto simp: fun_eq_iff)
  next
    case (Suc k')
    with Suc.prems have "ring_succ c j = Suc j" by (auto simp: ring_succ_def)
    moreover have "cq_free_loop k (h(j := None)) (Some (Suc j))
        = Some (\<lambda>a. if Suc j \<le> a \<and> a \<le> c + 1 then None else (h(j := None)) a)"
      using Suc.prems by (intro Suc.IH) auto
    moreover have "(\<lambda>a. if Suc j \<le> a \<and> a \<le> c + 1 then None else (h(j := None)) a)
        = (\<lambda>a. if j \<le> a \<and> a \<le> c + 1 then None else h a)"
      using Suc.prems by (auto simp: fun_eq_iff)
    ultimately show ?thesis using n by simp
  qed
qed

text \<open>
  The destructor frees the head and every ring node exactly once, in any state the queue
  can be in: the walk never follows a freed node and no node is left.
\<close>

theorem circle_queue_destroy:
  assumes "cq_valid q" and "cq_head q = Some 0"
    and "\<exists>n. cq_heap q 0 = Some n \<and> cn_next n = Some 1"
    and "\<forall>a > cq_capacity q + 1. cq_heap q a = None"
  shows "cq_destroy q = Some (\<lambda>_. None)"
proof -
  let ?c = "cq_capacity q"
  obtain n where n: "cq_heap q 0 = Some n" "cn_next n = Some 1" using assms(3) by blast
  have nodes: "\<And>a. 1 \<le> a \<Longrightarrow> a \<le> ?c + 1 \<Longrightarrow>
      \<exists>n. ((cq_heap q)(0 := None)) a = Some n \<and> cn_next n = Some (ring_succ ?c a)"
    using assms(1) by (auto elim!: cq_validE)
  have "cq_destroy q = cq_free_loop (?c + 1) ((cq_heap q)(0 := None)) (Some 1)"
    using assms(2) n by (simp add: cq_destroy_def)
  also have "\<dots> = Some (\<lambda>a. if 1 \<le> a \<and> a \<le> ?c + 1 then None else ((cq_heap q)(0 := None)) a)"
    using cq_free_ring [of 1 ?c "(cq_heap q)(0 := None)" "?c + 1"] nodes by simp
  also have "\<dots> = Some (\<lambda>_. None)" using assms(4) by (auto simp: fun_eq_iff not_le)
  finally show ?thesis .
qed

theorem circle_queue_destroy_witness:
  "cq_destroy (mk_CircleQueue 5 :: nat circle_queue) = Some (\<lambda>_. None)"
proof -
  have v: "cq_valid (mk_CircleQueue 5 :: nat circle_queue)" by simp
  show ?thesis by (rule circle_queue_destroy [OF v]) (simp_all add: mk_CircleQueue_eq)
qed

section \<open>BlockCircleQueue\<close>

record bcq =
  bcq_capacity :: nat
  bcq_emptys :: "block list"
  bcq_blocks :: "block list"

text \<open>\<open>junks\<close> are the contents of the \<open>capacity\<close> freshly malloc'ed blocks.\<close>

definition mk_BlockCircleQueue :: "bytes list \<Rightarrow> nat \<Rightarrow> bcq" where
  "mk_BlockCircleQueue junks capacity =
     \<lparr>bcq_capacity = capacity, bcq_emptys = map (\<lambda>j. mk_Block j 0) junks, bcq_blocks = []\<rparr>"

definition bcq_push :: "block \<Rightarrow> bcq \<Rightarrow> (bool \<times> bcq) option" where
  "bcq_push node q =
     (case bcq_emptys q of
        [] \<Rightarrow> Some (False, q)
      | bk # rest \<Rightarrow> do {
          bk' \<leftarrow> storeBlock bk (blk_mem node) BLOCK_SIZE;
          Some (True, q\<lparr>bcq_blocks := bcq_blocks q @ [bk'], bcq_emptys := rest\<rparr>)
        })"

definition bcq_pop :: "block \<Rightarrow> bcq \<Rightarrow> (bool \<times> block \<times> bcq) option" where
  "bcq_pop block q =
     (case bcq_blocks q of
        [] \<Rightarrow> Some (False, block, q)
      | bk # rest \<Rightarrow> do {
          block' \<leftarrow> storeBlock block (blk_mem bk) BLOCK_SIZE;
          Some (True, block', q\<lparr>bcq_emptys := bcq_emptys q @ [bk], bcq_blocks := rest\<rparr>)
        })"

definition bcq_valid :: "bcq \<Rightarrow> bool" where
  "bcq_valid q \<longleftrightarrow> length (bcq_emptys q) + length (bcq_blocks q) = bcq_capacity q \<and>
     list_all (\<lambda>b. length (blk_mem b) = BLOCK_SIZE) (bcq_emptys q @ bcq_blocks q)"

abbreviation blk_image :: "block \<Rightarrow> bytes" where
  "blk_image b \<equiv> take BLOCK_SIZE (blk_mem b)"

definition bcq_contents :: "bcq \<Rightarrow> bytes list" where
  "bcq_contents q = map blk_image (bcq_blocks q)"

text \<open>\<open>pop\<close> as the caller sees it: the image its own block receives.\<close>

definition blank_block :: block where
  "blank_block = mk_Block (replicate BLOCK_SIZE 0) 0"

definition bcq_pop_image :: "bcq \<Rightarrow> (bytes option \<times> bcq) option" where
  "bcq_pop_image q = do {
     (ok, block, q') \<leftarrow> bcq_pop blank_block q;
     Some (if ok then Some (blk_image block) else None, q')
   }"

definition big_block :: "block \<Rightarrow> bool" where
  "big_block b \<longleftrightarrow> BLOCK_SIZE \<le> length (blk_mem b)"

lemma storeBlock_image:
  assumes "big_block b" and "BLOCK_SIZE \<le> length src"
  shows "storeBlock b src BLOCK_SIZE =
    Some (b\<lparr>blk_mem := take BLOCK_SIZE src @ drop BLOCK_SIZE (blk_mem b), blk_free := BLOCK_SIZE\<rparr>)"
  using assms by (simp add: storeBlock_def rd_bytes_def wr_bytes_def big_block_def)

lemma mk_BlockCircleQueue_valid:
  assumes "length junks = c" and "list_all (\<lambda>j. length j = BLOCK_SIZE) junks"
  shows "bcq_valid (mk_BlockCircleQueue junks c)"
    and "bcq_contents (mk_BlockCircleQueue junks c) = []"
    and "bcq_capacity (mk_BlockCircleQueue junks c) = c"
  using assms by (auto simp: mk_BlockCircleQueue_def bcq_valid_def bcq_contents_def list_all_iff)

lemma bcq_push_room:
  assumes "bcq_valid q" and "big_block x" and "length (bcq_contents q) < bcq_capacity q"
  shows "\<exists>q'. bcq_push x q = Some (True, q') \<and> bcq_valid q' \<and>
    bcq_contents q' = bcq_contents q @ [blk_image x] \<and> bcq_capacity q' = bcq_capacity q"
proof -
  from assms obtain bk rest where bk: "bcq_emptys q = bk # rest" "length (blk_mem bk) = BLOCK_SIZE"
    by (cases "bcq_emptys q") (auto simp: bcq_valid_def bcq_contents_def)
  have st: "storeBlock bk (blk_mem x) BLOCK_SIZE
      = Some (bk\<lparr>blk_mem := blk_image x, blk_free := BLOCK_SIZE\<rparr>)"
    using storeBlock_image [of bk "blk_mem x"] bk(2) assms(2) by (simp add: big_block_def)
  show ?thesis
    using assms bk by (auto simp: bcq_push_def st bcq_valid_def bcq_contents_def big_block_def)
qed

lemma bcq_pop_nonempty:
  assumes "bcq_valid q" and "bcq_contents q = y # ys" and "big_block d"
  shows "\<exists>d' q'. bcq_pop d q = Some (True, d', q') \<and> blk_image d' = y \<and> bcq_valid q' \<and>
    bcq_contents q' = ys \<and> bcq_capacity q' = bcq_capacity q \<and> blk_free d' = BLOCK_SIZE
    \<and> length (blk_mem d') = length (blk_mem d) \<and> blk_size d' = blk_size d
    \<and> blk_tuple_size d' = blk_tuple_size d"
proof -
  from assms obtain bk rest where bk: "bcq_blocks q = bk # rest" "length (blk_mem bk) = BLOCK_SIZE"
    "y = blk_image bk" "ys = map blk_image rest"
    by (auto simp: bcq_valid_def bcq_contents_def)
  show ?thesis
    using assms bk storeBlock_image [of d "blk_mem bk"]
    by (auto simp: bcq_pop_def bcq_valid_def bcq_contents_def big_block_def)
qed

lemma big_blank [simp]: "big_block blank_block"
  by (simp add: big_block_def blank_block_def)

lemma bcq_pop_image_nonempty:
  assumes "bcq_valid q" and "bcq_contents q = y # ys"
  shows "\<exists>q'. bcq_pop_image q = Some (Some y, q') \<and> bcq_valid q' \<and> bcq_contents q' = ys
    \<and> bcq_capacity q' = bcq_capacity q"
  using bcq_pop_nonempty [OF assms big_blank] by (auto simp: bcq_pop_image_def)

interpretation bcq: bounded_fifo bcq_push bcq_pop_image bcq_contents bcq_valid bcq_capacity
  big_block blk_image
proof unfold_locales
  fix q x assume "bcq_valid q" "big_block x" "length (bcq_contents q) = bcq_capacity q"
  then show "bcq_push x q = Some (False, q)"
    by (cases "bcq_emptys q") (auto simp: bcq_push_def bcq_valid_def bcq_contents_def)
next
  fix q assume "bcq_contents q = []"
  then show "bcq_pop_image q = Some (None, q)"
    by (simp add: bcq_pop_image_def bcq_pop_def bcq_contents_def)
next
  fix q assume "bcq_valid q"
  then show "length (bcq_contents q) \<le> bcq_capacity q"
    by (auto simp: bcq_valid_def bcq_contents_def)
qed (rule bcq_push_room bcq_pop_image_nonempty; assumption)+

text \<open>
  C19. A \<open>BlockCircleQueue\<close> is a bounded first-in first-out queue of block images under any
  sequence of \<open>push\<close> and \<open>pop\<close> calls on blocks of at least \<open>BLOCK_SIZE\<close> bytes: \<open>push\<close> copies
  the block in exactly when one of the \<open>c\<close> blocks of the pool is empty, \<open>pop\<close> copies the oldest
  image out and fails exactly when there is none, and no block of the pool is ever lost: the
  numbers of empty and of filled blocks always add up to the capacity.
\<close>

theorem block_queue_fifo:
  assumes "length junks = c" and "list_all (\<lambda>j. length j = BLOCK_SIZE) junks"
    and "\<forall>x \<in> push_args ops. big_block x"
    and "fifo_spec c blk_image ops [] = (rs, ys)"
  shows "\<exists>q. run_ops bcq_push bcq_pop_image ops (mk_BlockCircleQueue junks c) = Some (rs, q)
    \<and> bcq_contents q = ys \<and> length (bcq_emptys q) + length ys = c"
proof -
  note v = mk_BlockCircleQueue_valid [OF assms(1,2)]
  from bcq.run_refines [OF v(1) assms(3)] assms(4) v(2,3) obtain q where
    "run_ops bcq_push bcq_pop_image ops (mk_BlockCircleQueue junks c) = Some (rs, q)"
    "bcq_valid q" "bcq_capacity q = c" "bcq_contents q = ys"
    by auto
  then show ?thesis by (auto simp: bcq_valid_def bcq_contents_def)
qed

theorem block_queue_fifo_witness:
  "\<exists>q. run_ops bcq_push bcq_pop_image [Push blank_block, Push blank_block, Pop, Pop]
      (mk_BlockCircleQueue [replicate BLOCK_SIZE 1] 1)
      = Some ([Pushed True, Pushed False, Popped (Some (replicate BLOCK_SIZE 0)), Popped None], q)
    \<and> bcq_contents q = [] \<and> length (bcq_emptys q) + length ([] :: bytes list) = 1"
  by (rule block_queue_fifo) (simp_all add: blank_block_def mk_Block_def big_block_def)

end
