(* ===== verification/Mosito_Schema.thy ===== *)
theory Mosito_Schema
  imports Mosito_Prelude
begin

text \<open>
  Data types, schemas, type casts and the tuple comparators.

  \<^item> \<^verbatim>\<open>common/m_data_type.h\<close>: the class hierarchy \<open>DataType\<close> is the datatype \<open>DataType\<close>;
    a \<open>void *\<close> argument is the memory from that address on (a byte list).
  \<^item> \<^verbatim>\<open>expressions/m_expression.h\<close> (\<open>NewSchema\<close>), \<^verbatim>\<open>common/m_schema.*\<close> (\<open>Schema\<close>).
  \<^item> \<^verbatim>\<open>expressions/m_type_cast.cpp\<close>.
  \<^item> \<^verbatim>\<open>common/m_trees.*\<close>: \<open>Comparator::compare\<close> and \<open>CompareTemp::compare\<close>; the loop over
    the sort columns is shown equal to a lexicographic order, which is total and transitive.
\<close>

section \<open>Data types\<close>

datatype data_type = t_int | t_double | t_long

datatype DataType = IntegerType (dt_tag: data_type) | UnLongType (dt_tag: data_type)

definition get_type :: "DataType \<Rightarrow> data_type" where
  "get_type d = dt_tag d"

text \<open>The value behind a pointer, read as the class's C type.\<close>

fun dt_load :: "DataType \<Rightarrow> bytes \<Rightarrow> int option" where
  "dt_load (IntegerType _) p = map_option int_of_u32 (rd_u32 p 0)"
| "dt_load (UnLongType _) p = map_option int (rd_u64 p 0)"

definition dt_gt :: "DataType \<Rightarrow> bytes \<Rightarrow> bytes \<Rightarrow> bool option" where
  "dt_gt d l r = do { a \<leftarrow> dt_load d l; b \<leftarrow> dt_load d r; Some (a > b) }"

definition dt_ge :: "DataType \<Rightarrow> bytes \<Rightarrow> bytes \<Rightarrow> bool option" where
  "dt_ge d l r = do { a \<leftarrow> dt_load d l; b \<leftarrow> dt_load d r; Some (a \<ge> b) }"

definition dt_eq :: "DataType \<Rightarrow> bytes \<Rightarrow> bytes \<Rightarrow> bool option" where
  "dt_eq d l r = do { a \<leftarrow> dt_load d l; b \<leftarrow> dt_load d r; Some (a = b) }"

definition dt_ls :: "DataType \<Rightarrow> bytes \<Rightarrow> bytes \<Rightarrow> bool option" where
  "dt_ls d l r = do { a \<leftarrow> dt_load d l; b \<leftarrow> dt_load d r; Some (a < b) }"

definition dt_le :: "DataType \<Rightarrow> bytes \<Rightarrow> bytes \<Rightarrow> bool option" where
  "dt_le d l r = do { a \<leftarrow> dt_load d l; b \<leftarrow> dt_load d r; Some (a \<le> b) }"

section \<open>NewSchema\<close>

record NewSchema =
  ns_totalsize :: nat
  ns_vd :: "DataType list"
  ns_accum :: "nat list"

fun NewSchema_loop :: "DataType list \<Rightarrow> nat \<Rightarrow> DataType list \<Rightarrow> nat list \<Rightarrow> NewSchema" where
  "NewSchema_loop [] offset vd acc = \<lparr>ns_totalsize = offset, ns_vd = vd, ns_accum = acc\<rparr>"
| "NewSchema_loop (d # ds) offset vd acc =
     (if get_type d = t_int
      then NewSchema_loop ds (offset + 4) (vd @ [IntegerType t_int]) (acc @ [offset])
      else if get_type d = t_long
      then NewSchema_loop ds (offset + 8) (vd @ [UnLongType t_long]) (acc @ [offset])
      else NewSchema_loop ds offset vd acc)"

definition mk_NewSchema :: "DataType list \<Rightarrow> NewSchema" where
  "mk_NewSchema vd = NewSchema_loop vd 0 [] []"

definition ns_get_bytes :: "NewSchema \<Rightarrow> nat" where
  "ns_get_bytes ns = ns_totalsize ns"

section \<open>Schema\<close>

text \<open>
  \<open>sch_offset\<close> is a \<open>new int[n]\<close>: an entry the constructor does not assign is uninitialised
  (\<open>None\<close>).
\<close>

record Schema =
  sch_v_d :: "DataType list"
  sch_offset :: "nat option list"
  sch_bytes :: nat

fun Schema_loop :: "data_type list \<Rightarrow> nat \<Rightarrow> DataType list \<Rightarrow> nat option list \<Rightarrow> Schema" where
  "Schema_loop [] offset vd off = \<lparr>sch_v_d = vd, sch_offset = off, sch_bytes = offset\<rparr>"
| "Schema_loop (t # ts) offset vd off =
     (if t = t_int
      then Schema_loop ts (offset + 4) (vd @ [IntegerType t_int]) (off @ [Some offset])
      else if t = t_long
      then Schema_loop ts (offset + 8) (vd @ [UnLongType t_long]) (off @ [Some offset])
      else Schema_loop ts offset vd (off @ [None]))"

text \<open>\<open>Schema(vector<Expression*>*)\<close>: only the \<open>return_type\<close> of each expression is read.\<close>

definition Schema_of_exprs :: "data_type list \<Rightarrow> Schema" where
  "Schema_of_exprs return_types = Schema_loop return_types 0 [] []"

text \<open>\<open>Schema(NewSchema *)\<close>: the same loop over \<open>ns->vd_[i]->get_type()\<close>.\<close>

definition Schema_of_NewSchema :: "NewSchema \<Rightarrow> Schema" where
  "Schema_of_NewSchema ns = Schema_loop (map get_type (ns_vd ns)) 0 [] []"

definition getDataType :: "Schema \<Rightarrow> nat \<Rightarrow> DataType option" where
  "getDataType s off = (if off < length (sch_v_d s) then Some (sch_v_d s ! off) else None)"

definition get_addr :: "Schema \<Rightarrow> nat \<Rightarrow> nat option" where
  "get_addr s seq = (if seq < length (sch_offset s) then sch_offset s ! seq else None)"

definition get_bytes :: "Schema \<Rightarrow> nat" where
  "get_bytes s = sch_bytes s"

definition get_columns :: "Schema \<Rightarrow> nat" where
  "get_columns s = length (sch_v_d s)"

section \<open>Sort orders and comparators\<close>

datatype direction = ascending | descending

record SortOrderRef =
  so_offset :: nat
  so_direction :: direction

text \<open>
  \<open>Comparator::compare\<close>. The data type is looked up by the loop index \<open>i\<close>, the address by
  the column of the sort order. The "compare error" branch keeps the \<open>flag\<close> of the previous
  round, which is uninitialised in the first round and 0 in any later one.
\<close>

fun compare_from :: "Schema \<Rightarrow> SortOrderRef list \<Rightarrow> nat \<Rightarrow> bytes \<Rightarrow> bytes \<Rightarrow> bool option" where
  "compare_from s [] i left right = Some True"
| "compare_from s (v # vs) i left right = do {
     o' \<leftarrow> get_addr s (so_offset v);
     d \<leftarrow> getDataType s i;
     let l = drop o' left;
     let r = drop o' right;
     e \<leftarrow> dt_eq d l r;
     if e then compare_from s vs (Suc i) left right
     else do {
       lt \<leftarrow> dt_ls d l r;
       if lt \<and> so_direction v = ascending then Some True
       else if lt \<and> so_direction v = descending then Some False
       else do {
         g \<leftarrow> dt_gt d l r;
         if g \<and> so_direction v = descending then Some True
         else if g \<and> so_direction v = ascending then Some False
         else if i = 0 then None
         else compare_from s vs (Suc i) left right
       }
     }
   }"

definition Comparator_compare :: "Schema \<Rightarrow> SortOrderRef list \<Rightarrow> bytes \<Rightarrow> bytes \<Rightarrow> bool option" where
  "Comparator_compare s vs left right = compare_from s vs 0 left right"

text \<open>The key every experimental operator uses: the \<open>unsigned long\<close> at byte 8 of a tuple.\<close>

definition tuple_key :: "bytes \<Rightarrow> nat option" where
  "tuple_key t = rd_u64 t 8"

definition CompareTemp_compare :: "bytes \<Rightarrow> bytes \<Rightarrow> bool option" where
  "CompareTemp_compare left right = do {
     l \<leftarrow> tuple_key left;
     r \<leftarrow> tuple_key right;
     if l > r then Some False else Some True
   }"

section \<open>Type casts\<close>

text \<open>
  The tables are \<open>[2][2]\<close> arrays indexed by the enumerators (\<open>t_int = 0\<close>, \<open>t_double = 1\<close>,
  \<open>t_long = 2\<close>): a \<open>t_long\<close> index is out of bounds, \<open>type_cast[t_double][t_int]\<close> is never
  assigned.
\<close>

fun TypePromotion :: "data_type \<Rightarrow> data_type \<Rightarrow> data_type option" where
  "TypePromotion t_int t_int = Some t_int"
| "TypePromotion t_int t_double = Some t_double"
| "TypePromotion t_double t_int = Some t_double"
| "TypePromotion t_double t_double = Some t_double"
| "TypePromotion _ _ = None"

text \<open>A cast is a function of the source memory and the destination memory to the destination.\<close>

definition int_to_int :: "bytes \<Rightarrow> bytes \<Rightarrow> bytes option" where
  "int_to_int src des = Some des"

definition int_to_double :: "bytes \<Rightarrow> bytes \<Rightarrow> bytes option" where
  "int_to_double src des = do { v \<leftarrow> rd_bytes src 0 8; wr_bytes des 0 v }"

definition double_to_double :: "bytes \<Rightarrow> bytes \<Rightarrow> bytes option" where
  "double_to_double src des = Some des"

fun type_cast :: "data_type \<Rightarrow> data_type \<Rightarrow> (bytes \<Rightarrow> bytes \<Rightarrow> bytes option) option" where
  "type_cast t_int t_int = Some int_to_int"
| "type_cast t_int t_double = Some int_to_double"
| "type_cast t_double t_double = Some double_to_double"
| "type_cast _ _ = None"

section \<open>Column layout\<close>

fun width :: "data_type \<Rightarrow> nat" where
  "width t_int = 4"
| "width t_long = 8"
| "width t_double = 0"

definition storable :: "DataType list \<Rightarrow> DataType list" where
  "storable ds = filter (\<lambda>d. get_type d \<noteq> t_double) ds"

fun prefix_sums :: "nat \<Rightarrow> nat list \<Rightarrow> nat list" where
  "prefix_sums o' [] = []"
| "prefix_sums o' (w # ws) = o' # prefix_sums (o' + w) ws"

lemma length_prefix_sums [simp]: "length (prefix_sums o' ws) = length ws"
  by (induction ws arbitrary: o') auto

lemma nth_prefix_sums:
  "i < length ws \<Longrightarrow> prefix_sums o' ws ! i = o' + sum_list (take i ws)"
  by (induction ws arbitrary: o' i) (auto simp: nth_Cons' take_Cons' less_Suc_eq_0_disj)

abbreviation widths :: "DataType list \<Rightarrow> nat list" where
  "widths ds \<equiv> map (\<lambda>d. width (get_type d)) ds"

lemma NewSchema_loop_eq:
  "NewSchema_loop ds off vd acc =
     \<lparr>ns_totalsize = off + sum_list (widths (storable ds)),
      ns_vd = vd @ map (\<lambda>d. if get_type d = t_int then IntegerType t_int else UnLongType t_long)
                   (storable ds),
      ns_accum = acc @ prefix_sums off (widths (storable ds))\<rparr>"
proof (induction ds off vd acc rule: NewSchema_loop.induct)
  case (2 d ds off vd acc)
  then show ?case by (cases "get_type d") (simp_all add: storable_def)
qed (simp add: storable_def)

definition storable_tags :: "data_type list \<Rightarrow> bool" where
  "storable_tags ts \<longleftrightarrow> list_all (\<lambda>t. t \<noteq> t_double) ts"

lemma Schema_loop_eq:
  "storable_tags ts \<Longrightarrow>
   Schema_loop ts off vd offs =
     \<lparr>sch_v_d = vd @ map (\<lambda>t. if t = t_int then IntegerType t_int else UnLongType t_long) ts,
      sch_offset = offs @ map Some (prefix_sums off (map width ts)),
      sch_bytes = off + sum_list (map width ts)\<rparr>"
proof (induction ts off vd offs rule: Schema_loop.induct)
  case (2 t ts off vd offs)
  then show ?case by (cases t) (simp_all add: storable_tags_def)
qed (simp add: storable_tags_def)

lemma storable_tags_NewSchema: "storable_tags (map get_type (ns_vd (mk_NewSchema ds)))"
  by (auto simp: storable_tags_def mk_NewSchema_def NewSchema_loop_eq list_all_iff get_type_def)

lemma width_tag_int_long:
  "get_type d \<noteq> t_double \<Longrightarrow>
   width (get_type (if get_type d = t_int then IntegerType t_int else UnLongType t_long))
     = width (get_type d)"
  by (cases "get_type d") (auto simp: get_type_def)

lemma widths_NewSchema: "widths (ns_vd (mk_NewSchema ds)) = widths (storable ds)"
  by (auto simp: mk_NewSchema_def NewSchema_loop_eq storable_def width_tag_int_long
      simp del: width.simps)

lemma schema_column_fits:
  assumes "i < length ws"
  shows "sum_list (take i ws) + ws ! i \<le> sum_list (ws :: nat list)"
proof -
  have "sum_list ws = sum_list (take i ws @ ws ! i # drop (Suc i) ws)"
    using assms by (simp add: id_take_nth_drop [symmetric])
  then show ?thesis by simp
qed

lemma Schema_of_mk_NewSchema:
  "Schema_of_NewSchema (mk_NewSchema ds) =
     \<lparr>sch_v_d = ns_vd (mk_NewSchema ds),
      sch_offset = map Some (prefix_sums 0 (widths (storable ds))),
      sch_bytes = sum_list (widths (storable ds))\<rparr>"
proof -
  have wd: "map width (map get_type (ns_vd (mk_NewSchema ds))) = widths (storable ds)"
    using widths_NewSchema [of ds] by (simp add: comp_def)
  have vd: "map (\<lambda>t. if t = t_int then IntegerType t_int else UnLongType t_long)
      (map get_type (ns_vd (mk_NewSchema ds))) = ns_vd (mk_NewSchema ds)"
    by (auto simp: mk_NewSchema_def NewSchema_loop_eq get_type_def)
  show ?thesis
    unfolding Schema_of_NewSchema_def Schema_loop_eq [OF storable_tags_NewSchema] wd vd by simp
qed

lemma mk_NewSchema_accum: "ns_accum (mk_NewSchema ds) = prefix_sums 0 (widths (storable ds))"
  and mk_NewSchema_totalsize: "ns_totalsize (mk_NewSchema ds) = sum_list (widths (storable ds))"
  and mk_NewSchema_columns: "length (ns_vd (mk_NewSchema ds)) = length (storable ds)"
  by (simp_all add: mk_NewSchema_def NewSchema_loop_eq)

lemmas schema_eqs = Schema_of_mk_NewSchema mk_NewSchema_accum mk_NewSchema_totalsize
  mk_NewSchema_columns get_bytes_def ns_get_bytes_def get_columns_def get_addr_def nth_prefix_sums

text \<open>
  C30. Laying a schema out. The \<open>Schema\<close> an operator builds from the serialised \<open>NewSchema\<close>
  has the same columns, the same offsets and the same tuple size; every column \<open>i\<close> has an
  initialised offset, the sum of the widths before it, lies inside the tuple, and the next
  column starts where it ends. Columns of type \<open>t_double\<close> are dropped.
\<close>

theorem schema_layout:
  "let ns = mk_NewSchema ds; s = Schema_of_NewSchema ns; ws = widths (storable ds)
   in sch_v_d s = ns_vd ns \<and> sch_offset s = map Some (ns_accum ns)
    \<and> get_bytes s = ns_get_bytes ns \<and> ns_get_bytes ns = sum_list ws
    \<and> get_columns s = length (storable ds)
    \<and> (\<forall>i < get_columns s. \<exists>a. get_addr s i = Some a \<and> a = sum_list (take i ws)
         \<and> a + ws ! i \<le> get_bytes s
         \<and> (Suc i < get_columns s \<longrightarrow> get_addr s (Suc i) = Some (a + ws ! i)))"
  using schema_column_fits [where ws = "widths (storable ds)"]
  by (auto simp: Let_def schema_eqs take_Suc_conv_app_nth)

section \<open>The comparator is a lexicographic order\<close>

fun lex_le :: "direction list \<Rightarrow> int list \<Rightarrow> int list \<Rightarrow> bool" where
  "lex_le (d # ds) (a # as) (b # bs) =
     (if a = b then lex_le ds as bs else (a < b) = (d = ascending))"
| "lex_le _ _ _ = True"

text \<open>The columns the comparator reads, in order, typed by the loop index.\<close>

fun sort_keys :: "Schema \<Rightarrow> SortOrderRef list \<Rightarrow> nat \<Rightarrow> bytes \<Rightarrow> int list option" where
  "sort_keys s [] i t = Some []"
| "sort_keys s (v # vs) i t = do {
     o' \<leftarrow> get_addr s (so_offset v);
     d \<leftarrow> getDataType s i;
     k \<leftarrow> dt_load d (drop o' t);
     ks \<leftarrow> sort_keys s vs (Suc i) t;
     Some (k # ks)
   }"

lemma compare_from_lex:
  assumes "sort_keys s vs i l = Some kl" and "sort_keys s vs i r = Some kr"
  shows "compare_from s vs i l r = Some (lex_le (map so_direction vs) kl kr)"
  using assms
proof (induction vs arbitrary: i kl kr)
  case (Cons v vs)
  from Cons.prems obtain o' d a as b bs where
    ad: "get_addr s (so_offset v) = Some o'" "getDataType s i = Some d"
      "dt_load d (drop o' l) = Some a" "dt_load d (drop o' r) = Some b"
    and rest: "sort_keys s vs (Suc i) l = Some as" "sort_keys s vs (Suc i) r = Some bs"
    and kl: "kl = a # as" and kr: "kr = b # bs"
    by (auto simp: bind_iff)
  from Cons.IH [OF rest] show ?case
    by (cases "so_direction v")
      (auto simp: ad kl kr dt_eq_def dt_ls_def dt_gt_def)
qed auto

lemma lex_le_total:
  "length as = length bs \<Longrightarrow> lex_le ds as bs \<or> lex_le ds bs as"
proof (induction ds as bs rule: lex_le.induct)
  case (1 d ds a as b bs)
  then show ?case by auto
qed auto

lemma lex_le_trans:
  "length as = length bs \<Longrightarrow> length bs = length cs \<Longrightarrow>
   lex_le ds as bs \<Longrightarrow> lex_le ds bs cs \<Longrightarrow> lex_le ds as cs"
proof (induction ds as bs arbitrary: cs rule: lex_le.induct)
  case (1 d ds a as b bs)
  then obtain c cs' where cs: "cs = c # cs'" by (cases cs) auto
  from 1 show ?case unfolding cs
    by (cases d) (auto split: if_splits simp: not_less)
qed auto

lemma length_sort_keys: "sort_keys s vs i t = Some ks \<Longrightarrow> length ks = length vs"
  by (induction vs arbitrary: i ks) (auto simp: bind_iff)

text \<open>
  C31. On tuples whose sort columns lie inside them, \<open>Comparator::compare\<close> never fails, is the
  lexicographic order of those columns under their directions, and is total and transitive:
  the order the heap relies on.
\<close>

theorem comparator_total_preorder:
  assumes "sort_keys s vs 0 a = Some ka" and "sort_keys s vs 0 b = Some kb"
    and "sort_keys s vs 0 c = Some kc"
  shows "Comparator_compare s vs a b = Some (lex_le (map so_direction vs) ka kb)
    \<and> (Comparator_compare s vs a b = Some True \<or> Comparator_compare s vs b a = Some True)
    \<and> (Comparator_compare s vs a b = Some True \<and> Comparator_compare s vs b c = Some True
       \<longrightarrow> Comparator_compare s vs a c = Some True)"
  using assms lex_le_total [of ka kb] lex_le_trans [of ka kb kc]
  by (auto simp: Comparator_compare_def compare_from_lex length_sort_keys)

definition two_longs :: Schema where
  "two_longs = Schema_of_NewSchema (mk_NewSchema [UnLongType t_long, UnLongType t_long])"

theorem schema_layout_witness:
  "get_bytes two_longs = 16 \<and> get_addr two_longs 1 = Some 8"
  using schema_layout [of "[UnLongType t_long, UnLongType t_long]"]
  by (auto simp: Let_def two_longs_def storable_def get_type_def get_columns_def)

theorem comparator_total_preorder_witness:
  "Comparator_compare two_longs [\<lparr>so_offset = 0, so_direction = descending\<rparr>]
     (le_bytes 8 7 @ le_bytes 8 1) (le_bytes 8 5 @ le_bytes 8 2) = Some True"
proof -
  let ?vs = "[\<lparr>so_offset = 0, so_direction = descending\<rparr>]"
  have a: "sort_keys two_longs ?vs 0 (le_bytes 8 7 @ le_bytes 8 1) = Some [7]"
    and b: "sort_keys two_longs ?vs 0 (le_bytes 8 5 @ le_bytes 8 2) = Some [5]"
    by code_simp+
  show ?thesis
    using comparator_total_preorder [OF a b b] by simp
qed

lemma CompareTemp_compare_eq:
  "tuple_key l = Some a \<Longrightarrow> tuple_key r = Some b \<Longrightarrow> CompareTemp_compare l r = Some (a \<le> b)"
  by (simp add: CompareTemp_compare_def)

text \<open>A tuple of two \<open>unsigned long\<close> columns, the second one the key.\<close>

definition kv_tuple :: "nat \<Rightarrow> nat \<Rightarrow> bytes" where
  "kv_tuple v k = le_bytes 8 v @ le_bytes 8 k"

lemma length_kv_tuple [simp]: "length (kv_tuple v k) = 16"
  by (simp add: kv_tuple_def)

lemma tuple_key_kv [simp]: "tuple_key (kv_tuple v k) = Some (k mod 2 ^ 64)"
  by (simp add: tuple_key_def rd_u64_def rd_bytes_def kv_tuple_def)

end
