(* ===== verification/Mosito_LoserTree.thy ===== *)
theory Mosito_LoserTree
  imports Mosito_Schema
begin

text \<open>
  \<open>LoserTree\<close> of \<^verbatim>\<open>common/m_trees.h\<close> and \<^verbatim>\<open>common/m_trees.cpp\<close>: the selection tree that
  merges the sorted columns of a \<open>PCBuffer\<close>.

  The leaves are the tuples \<open>L[1..n]\<close> (a leaf is the tuple its pointer refers to, \<open>None\<close> the
  null pointer); \<open>B[1..n-1]\<close> holds the leaf number of the loser of each match and \<open>B[0]\<close> the
  overall winner. \<open>B\<close> is a \<open>new int[n]\<close>: entries not yet written are \<open>None\<close>.

  In the proofs the internal nodes are \<open>1..n-1\<close>, the leaves the nodes \<open>n..2n-1\<close>, and the
  children of \<open>p\<close> are \<open>2p\<close> and \<open>2p+1\<close>.
\<close>

section \<open>The code\<close>

record loser_tree =
  lt_n :: nat
  lt_lowExt :: nat
  lt_offset :: nat
  lt_B :: "nat option list"
  lt_L :: "bytes option list"

definition lt_leaf :: "bytes option list \<Rightarrow> nat \<Rightarrow> bytes option" where
  "lt_leaf L i = (if i < length L then L ! i else None)"

definition lt_win :: "bytes option list \<Rightarrow> nat \<Rightarrow> nat \<Rightarrow> nat option" where
  "lt_win A left right = do {
     a \<leftarrow> lt_leaf A left;
     b \<leftarrow> lt_leaf A right;
     c \<leftarrow> CompareTemp_compare a b;
     Some (if c then left else right)
   }"

definition lt_lose :: "bytes option list \<Rightarrow> nat \<Rightarrow> nat \<Rightarrow> nat option" where
  "lt_lose A left right = do {
     a \<leftarrow> lt_leaf A left;
     b \<leftarrow> lt_leaf A right;
     c \<leftarrow> CompareTemp_compare a b;
     Some (if \<not> c then left else right)
   }"

definition rd_B :: "nat option list \<Rightarrow> nat \<Rightarrow> nat option" where
  "rd_B B i = (if i < length B then B ! i else None)"

definition wr_B :: "nat option list \<Rightarrow> nat \<Rightarrow> nat \<Rightarrow> nat option list option" where
  "wr_B B i v = (if i < length B then Some (B[i := Some v]) else None)"

text \<open>The \<open>while\<close> loop of \<open>play\<close> and the assignment after it.\<close>

fun play_up :: "bytes option list \<Rightarrow> nat \<Rightarrow> nat \<Rightarrow> nat option list \<Rightarrow> nat option list option" where
  "play_up L p temp1 B =
     (if p > 1 \<and> odd p then do {
        b \<leftarrow> rd_B B (p div 2);
        temp2 \<leftarrow> lt_win L temp1 b;
        l \<leftarrow> lt_lose L temp1 b;
        B' \<leftarrow> wr_B B (p div 2) l;
        play_up L (p div 2) temp2 B'
      }
      else wr_B B (p div 2) temp1)"

definition play :: "bytes option list \<Rightarrow> nat \<Rightarrow> nat \<Rightarrow> nat \<Rightarrow> nat option list \<Rightarrow> nat option list option" where
  "play L p left right B = do {
     l \<leftarrow> lt_lose L left right;
     B' \<leftarrow> wr_B B p l;
     temp1 \<leftarrow> lt_win L left right;
     play_up L p temp1 B'
   }"

text \<open>\<open>for(s=1;2*s<=n-1;s+=s);\<close>\<close>

function size_loop :: "nat \<Rightarrow> nat \<Rightarrow> nat" where
  "size_loop n s = (if 2 * s \<le> n - 1 \<and> 0 < s then size_loop n (s + s) else s)"
  by pat_completeness auto
termination
  by (relation "measure (\<lambda>(n, s). n - s)") auto

text \<open>The two \<open>for\<close> loops over the leaf pairs; \<open>f i\<close> is the parent of the pair \<open>i-1, i\<close>.\<close>

function play_pairs :: "bytes option list \<Rightarrow> (nat \<Rightarrow> nat) \<Rightarrow> nat \<Rightarrow> nat \<Rightarrow> nat option list \<Rightarrow>
    nat option list option" where
  "play_pairs L f i hi B =
     (if i \<le> hi then do {
        B' \<leftarrow> play L (f i) (i - 1) i B;
        play_pairs L f (i + 2) hi B'
      }
      else Some B)"
  by pat_completeness auto
termination
  by (relation "measure (\<lambda>(L, f, i, hi, B). Suc hi - i)") auto

declare size_loop.simps [simp del] play_up.simps [simp del] play_pairs.simps [simp del]

text \<open>With no leaf the first match would read \<open>L[-1]\<close>.\<close>

definition lt_initialize :: "bytes option list \<Rightarrow> nat \<Rightarrow> loser_tree option" where
  "lt_initialize A size' =
     (if size' = 0 then None
      else do {
        let n = size';
        let s = size_loop n 1;
        let lowExt = 2 * (n - s);
        let off = 2 * s - 1;
        let B0 = replicate n None;
        B1 \<leftarrow> play_pairs A (\<lambda>i. (i + off) div 2) 2 lowExt B0;
        (B2, i) \<leftarrow>
          (if odd n then do {
             b \<leftarrow> rd_B B1 ((n - 1) div 2);
             B' \<leftarrow> play A (n div 2) b (lowExt + 1) B1;
             Some (B', lowExt + 3)
           }
           else Some (B1, lowExt + 2));
        B3 \<leftarrow> play_pairs A (\<lambda>i. (i - lowExt + n - 1) div 2) i n B2;
        _ \<leftarrow> rd_B B3 0;
        Some \<lparr>lt_n = n, lt_lowExt = lowExt, lt_offset = off, lt_B = B3, lt_L = A\<rparr>
      })"

fun replay_up :: "bytes option list \<Rightarrow> nat \<Rightarrow> nat option list \<Rightarrow> nat option list option" where
  "replay_up L p B =
     (if 1 \<le> p div 2 then do {
        b \<leftarrow> rd_B B (p div 2);
        b0 \<leftarrow> rd_B B 0;
        temp \<leftarrow> lt_win L b b0;
        l \<leftarrow> lt_lose L b b0;
        B1 \<leftarrow> wr_B B (p div 2) l;
        B2 \<leftarrow> wr_B B1 0 temp;
        replay_up L (p div 2) B2
      }
      else Some B)"

declare replay_up.simps [simp del]

definition replay_parent :: "loser_tree \<Rightarrow> nat \<Rightarrow> nat" where
  "replay_parent t i = (if i \<le> lt_lowExt t then (i + lt_offset t) div 2
                        else (i - lt_lowExt t + lt_n t - 1) div 2)"

definition replay :: "loser_tree \<Rightarrow> nat \<Rightarrow> (nat \<times> loser_tree) option" where
  "replay t i = do {
     let p = replay_parent t i;
     b \<leftarrow> rd_B (lt_B t) p;
     w \<leftarrow> lt_win (lt_L t) i b;
     B1 \<leftarrow> wr_B (lt_B t) 0 w;
     b' \<leftarrow> rd_B B1 p;
     l \<leftarrow> lt_lose (lt_L t) i b';
     B2 \<leftarrow> wr_B B1 p l;
     B3 \<leftarrow> replay_up (lt_L t) p B2;
     b0 \<leftarrow> rd_B B3 0;
     Some (if lt_leaf (lt_L t) b0 = None then 1 else 0, t\<lparr>lt_B := B3\<rparr>)
   }"

definition Winner :: "loser_tree \<Rightarrow> nat option" where
  "Winner t = rd_B (lt_B t) 0"

definition Load :: "loser_tree \<Rightarrow> nat \<Rightarrow> bytes option \<Rightarrow> loser_tree option" where
  "Load t w newOne =
     (if w < length (lt_L t) then Some (t\<lparr>lt_L := (lt_L t)[w := newOne]\<rparr>) else None)"

definition Win :: "loser_tree \<Rightarrow> bytes option option" where
  "Win t = do { w \<leftarrow> Winner t; if w < length (lt_L t) then Some (lt_L t ! w) else None }"

section \<open>Matches and positions\<close>

text \<open>\<open>L[1..n]\<close> are tuples whose keys are given by \<open>key\<close>.\<close>

definition lt_keyed :: "bytes option list \<Rightarrow> nat \<Rightarrow> (nat \<Rightarrow> nat) \<Rightarrow> bool" where
  "lt_keyed L n key \<longleftrightarrow> length L = Suc n \<and>
     (\<forall>i. 1 \<le> i \<and> i \<le> n \<longrightarrow> (\<exists>t. L ! i = Some t \<and> tuple_key t = Some (key i)))"

lemma lt_keyed_leaf:
  "\<lbrakk>lt_keyed L n key; 1 \<le> i; i \<le> n\<rbrakk> \<Longrightarrow> \<exists>t. lt_leaf L i = Some t \<and> tuple_key t = Some (key i)"
  by (auto simp: lt_keyed_def lt_leaf_def)

lemma lt_win_keyed:
  assumes "lt_keyed L n key" "1 \<le> a" "a \<le> n" "1 \<le> b" "b \<le> n"
  shows "lt_win L a b = Some (if key a \<le> key b then a else b)"
    and "lt_lose L a b = Some (if key a \<le> key b then b else a)"
  using lt_keyed_leaf [OF assms(1,2,3)] lt_keyed_leaf [OF assms(1,4,5)]
  by (auto simp: lt_win_def lt_lose_def CompareTemp_compare_def)

lemma rd_B_simp [simp]: "\<lbrakk>i < length B; B ! i = Some v\<rbrakk> \<Longrightarrow> rd_B B i = Some v"
  and wr_B_simp [simp]: "i < length B \<Longrightarrow> wr_B B i v = Some (B[i := Some v])"
  by (simp_all add: rd_B_def wr_B_def)

lemma size_loop_pow:
  assumes "2 ^ k < n"
  shows "\<exists>m. size_loop n (2 ^ k) = 2 ^ m \<and> 2 ^ m < n \<and> n \<le> 2 * 2 ^ m"
  using assms
proof (induction "n - 2 ^ k" arbitrary: k rule: less_induct)
  case less
  show ?case
  proof (cases "2 * 2 ^ k \<le> n - 1")
    case True
    then have "size_loop n (2 ^ k) = size_loop n (2 ^ Suc k)"
      by (subst size_loop.simps) (simp add: mult_2)
    moreover have "2 ^ Suc k < n" using True less.prems by simp
    moreover have "n - 2 ^ Suc k < n - 2 ^ k"
      using True less.prems by (intro diff_less_mono2) simp_all
    ultimately show ?thesis using less.hyps [of "Suc k"] by simp
  next
    case False
    then show ?thesis using less.prems by (subst size_loop.simps) auto
  qed
qed

lemma size_loop_spec:
  assumes "2 \<le> n"
  obtains m where "size_loop n 1 = 2 ^ m" "2 ^ m < n" "n \<le> 2 * 2 ^ m"
  using size_loop_pow [of 0 n] assms by auto

text \<open>The leaf number of a leaf node, and the node of a leaf number.\<close>

definition leaf_of :: "nat \<Rightarrow> nat \<Rightarrow> nat \<Rightarrow> nat" where
  "leaf_of n s v = (if 2 * s \<le> v then v - (2 * s - 1) else v + 2 * (n - s) - (n - 1))"

definition leaf_pos :: "nat \<Rightarrow> nat \<Rightarrow> nat \<Rightarrow> nat" where
  "leaf_pos n s i = (if i \<le> 2 * (n - s) then i + (2 * s - 1) else i - 2 * (n - s) + (n - 1))"

lemma leaf_bijection:
  assumes "0 < s" "s < n" "n \<le> 2 * s"
  shows leaf_of_range: "n \<le> v \<Longrightarrow> v < 2 * n \<Longrightarrow> 1 \<le> leaf_of n s v \<and> leaf_of n s v \<le> n"
    and leaf_pos_range: "1 \<le> i \<Longrightarrow> i \<le> n \<Longrightarrow> n \<le> leaf_pos n s i \<and> leaf_pos n s i < 2 * n"
    and leaf_of_pos: "1 \<le> i \<Longrightarrow> i \<le> n \<Longrightarrow> leaf_of n s (leaf_pos n s i) = i"
    and leaf_pos_of: "n \<le> v \<Longrightarrow> v < 2 * n \<Longrightarrow> leaf_pos n s (leaf_of n s v) = v"
  using assms by (auto simp: leaf_pos_def leaf_of_def)

section \<open>The invariant\<close>

text \<open>The match at node \<open>q\<close>: the winners of its children meet, the loser is stored.\<close>

definition matched :: "(nat \<Rightarrow> nat) \<Rightarrow> nat option list \<Rightarrow> (nat \<Rightarrow> nat) \<Rightarrow> nat \<Rightarrow> bool" where
  "matched key B W q \<longleftrightarrow> (\<exists>b. B ! q = Some b
     \<and> (W q = W (2 * q) \<and> b = W (2 * q + 1) \<or> W q = W (2 * q + 1) \<and> b = W (2 * q))
     \<and> key (W q) \<le> key b)"

definition leaves_ok :: "nat \<Rightarrow> nat \<Rightarrow> (nat \<Rightarrow> nat) \<Rightarrow> bool" where
  "leaves_ok n s W \<longleftrightarrow> (\<forall>v. n \<le> v \<and> v < 2 * n \<longrightarrow> W v = leaf_of n s v)"

text \<open>All matches played for leaves with these keys.\<close>

definition lt_played :: "nat \<Rightarrow> nat \<Rightarrow> (nat \<Rightarrow> nat) \<Rightarrow> nat option list \<Rightarrow> (nat \<Rightarrow> nat) \<Rightarrow> bool" where
  "lt_played n s key B W \<longleftrightarrow> length B = n \<and> leaves_ok n s W
     \<and> (\<forall>q. 1 \<le> q \<and> q < n \<longrightarrow> matched key B W q) \<and> B ! 0 = Some (W 1)"

definition lt_ok :: "loser_tree \<Rightarrow> (nat \<Rightarrow> nat) \<Rightarrow> bool" where
  "lt_ok t key \<longleftrightarrow> (\<exists>s W. 0 < s \<and> s < lt_n t \<and> lt_n t \<le> 2 * s
     \<and> lt_lowExt t = 2 * (lt_n t - s) \<and> lt_offset t = 2 * s - 1
     \<and> lt_keyed (lt_L t) (lt_n t) key \<and> lt_played (lt_n t) s key (lt_B t) W)"

lemma matched_child:
  "matched key B W q \<Longrightarrow> c div 2 = q \<Longrightarrow> key (W q) \<le> key (W c)"
  by (cases "even c") (auto simp: matched_def elim!: evenE oddE)

lemma played_root_min:
  assumes "lt_played n s key B W" and "1 \<le> v" "v < 2 * n"
  shows "key (W 1) \<le> key (W v)"
  using assms(2,3)
proof (induction v rule: less_induct)
  case (less v)
  show ?case
  proof (cases "v = 1")
    case False
    then have "1 \<le> v div 2" "v div 2 < n" "v div 2 < v" using less.prems by auto
    moreover from this have "matched key B W (v div 2)"
      using assms(1) by (auto simp: lt_played_def)
    ultimately show ?thesis
      using less.IH [of "v div 2"] less.prems matched_child [of key B W "v div 2" v] by auto
  qed simp
qed

text \<open>The winner at a node is a leaf below it.\<close>

lemma played_below:
  assumes "lt_played n s key B W" and s: "0 < s" "s < n" "n \<le> 2 * s" and "1 \<le> v" "v < 2 * n"
  shows "1 \<le> W v \<and> W v \<le> n \<and> (\<exists>k. leaf_pos n s (W v) div 2 ^ k = v)"
  using assms(5,6)
proof (induction "2 * n - v" arbitrary: v rule: less_induct)
  case less
  show ?case
  proof (cases "n \<le> v")
    case True
    then have "W v = leaf_of n s v" using assms(1) less.prems
      by (auto simp: lt_played_def leaves_ok_def)
    then show ?thesis
      using leaf_pos_of [OF s True] leaf_of_range [OF s True] less.prems
      by (auto intro!: exI [of _ 0])
  next
    case False
    then have "matched key B W v" using assms(1) less.prems by (auto simp: lt_played_def)
    then obtain c where c: "c = 2 * v \<or> c = 2 * v + 1" "W v = W c" by (auto simp: matched_def)
    then have "1 \<le> W c \<and> W c \<le> n \<and> (\<exists>k. leaf_pos n s (W c) div 2 ^ k = c)"
      using less.hyps [of c] less.prems False by auto
    then obtain k where k: "1 \<le> W c" "W c \<le> n" "leaf_pos n s (W c) div 2 ^ k = c" by auto
    then have "leaf_pos n s (W c) div 2 ^ Suc k = v"
      using c(1) by (auto simp: power_Suc2 div_mult2_eq simp del: power_Suc)
    then show ?thesis using k c(2) by metis
  qed
qed

section \<open>Replaying\<close>

definition anc :: "nat \<Rightarrow> nat \<Rightarrow> bool" where
  "anc a v \<longleftrightarrow> (\<exists>k. v div 2 ^ k = a)"

definition sib :: "nat \<Rightarrow> nat" where
  "sib v = (if even v then v + 1 else v - 1)"

lemma anc_refl [simp]: "anc v v"
  by (auto simp: anc_def intro: exI [of _ 0])

lemma anc_half: "anc a (v div 2) \<Longrightarrow> anc a v"
  unfolding anc_def by (metis div_mult2_eq power_Suc)

lemma anc_cases: "anc a v \<longleftrightarrow> a = v \<or> anc a (v div 2)"
proof
  assume "anc a v"
  then obtain k where k: "v div 2 ^ k = a" by (auto simp: anc_def)
  show "a = v \<or> anc a (v div 2)"
  proof (cases k)
    case (Suc j)
    then have "v div 2 div 2 ^ j = a" using k by (simp add: div_mult2_eq)
    then show ?thesis by (auto simp: anc_def)
  qed (use k in simp)
qed (auto intro: anc_half)

lemma anc_le: "anc a v \<Longrightarrow> a \<le> v"
  by (auto simp: anc_def)

lemma anc_parent: "anc c v \<Longrightarrow> anc (c div 2) v"
  unfolding anc_def by (metis div_mult2_eq power_Suc2)

lemma sib_parent [simp]: "2 \<le> v \<Longrightarrow> sib v div 2 = v div 2"
  by (auto simp: sib_def elim!: evenE oddE)

lemma sib_range: "2 \<le> v \<Longrightarrow> v < 2 * n \<Longrightarrow> 1 \<le> sib v \<and> sib v < 2 * n"
  by (auto simp: sib_def elim!: evenE oddE)

lemma anc_sib:
  assumes "2 \<le> v" shows "\<not> (anc v u \<and> anc (sib v) u)"
proof
  assume "anc v u \<and> anc (sib v) u"
  then show False using assms
  proof (induction u rule: less_induct)
    case (less u)
    have ne: "sib v \<noteq> v" using less.prems by (auto simp: sib_def)
    have lt: "v div 2 < v" "sib v div 2 < sib v" "v div 2 < sib v"
      using less.prems by (auto simp: sib_def elim!: oddE)
    have "\<not> anc v (sib v div 2)" "\<not> anc (sib v) (v div 2)"
      using anc_le lt less.prems by (fastforce)+
    then have "u \<noteq> v" "u \<noteq> sib v" "0 < u"
      using less.prems ne anc_cases [of v u] anc_cases [of "sib v" u] anc_le [of v u] by auto
    then show False using less.IH [of "u div 2"] less.prems
      by (metis anc_cases bot_nat_0.not_eq_extremum div_less_dividend one_less_numeral_iff semiring_norm(76))
  qed
qed

text \<open>
  The state of \<open>replay\<close> when \<open>W p\<close> has been moved up to node \<open>p\<close> and is in \<open>B[0]\<close>: the matches
  at the proper ancestors of \<open>p\<close> are still to be replayed against the losers they hold.
\<close>

definition replaying :: "nat \<Rightarrow> nat \<Rightarrow> (nat \<Rightarrow> nat) \<Rightarrow> nat \<Rightarrow> nat option list \<Rightarrow> (nat \<Rightarrow> nat) \<Rightarrow> bool" where
  "replaying n s key p B W \<longleftrightarrow> length B = n \<and> leaves_ok n s W \<and> 1 \<le> p \<and> p < 2 * n
     \<and> (\<forall>v. 1 \<le> v \<and> v < 2 * n \<longrightarrow> 1 \<le> W v \<and> W v \<le> n)
     \<and> (\<forall>q. 1 \<le> q \<and> q < n \<and> \<not> anc q (p div 2) \<longrightarrow> matched key B W q)
     \<and> (\<forall>v. 2 \<le> v \<and> anc v p \<longrightarrow> B ! (v div 2) = Some (W (sib v)))
     \<and> B ! 0 = Some (W p)"

lemma replaying_step:
  assumes R: "replaying n s key p B W" and q: "1 \<le> p div 2"
    and wl: "w = W p \<and> l = W (sib p) \<or> w = W (sib p) \<and> l = W p" and "key w \<le> key l"
    and B': "B' = B[p div 2 := Some l, 0 := Some w]"
  shows "replaying n s key (p div 2) B' (W(p div 2 := w))"
proof -
  let ?q = "p div 2" and ?W = "W(p div 2 := w)"
  note r = R [unfolded replaying_def]
  have qn: "?q < n" "2 \<le> p" "p < 2 * n" using r q by auto
  have sp: "1 \<le> sib p" "sib p < 2 * n" "sib p \<noteq> ?q" "p \<noteq> ?q"
    using qn r by (auto simp: sib_def elim!: evenE oddE)
  have W: "1 \<le> w" "w \<le> n" using wl r qn sp by auto
  have m: "matched key B' ?W r" if "1 \<le> r" "r < n" "\<not> anc r (?q div 2)" for r
  proof (cases "r = ?q")
    case True
    then show ?thesis using wl assms(4) qn q r
      by (cases "even p") (auto simp: matched_def B' sib_def nth_list_update elim!: evenE oddE)
  next
    case False
    then have "\<not> anc r ?q" using that anc_cases by blast
    then have "matched key B W r" using r that by blast
    moreover have "2 * r \<noteq> ?q" "2 * r + 1 \<noteq> ?q"
      using that anc_refl by (metis nonzero_mult_div_cancel_left zero_neq_numeral,
        metis that(3) anc_refl even_two_times_div_two even_mult_iff even_numeral
          odd_two_times_div_two_succ add_right_cancel nonzero_mult_div_cancel_left zero_neq_numeral
          div_mult_self1_is_m div_mult_self2 Suc_eq_plus1 even_Suc_div_two)
    ultimately show ?thesis using False that q by (auto simp: matched_def B')
  qed
  have v: "B' ! (v div 2) = Some (?W (sib v))" if "2 \<le> v" "anc v ?q" for v
  proof -
    have "B ! (v div 2) = Some (W (sib v))" using r that anc_half by blast
    moreover have "v \<le> ?q" using that anc_le by blast
    moreover have "sib v \<noteq> ?q" using anc_sib [of v ?q] that by (metis anc_refl)
    ultimately show ?thesis using that by (auto simp: B')
  qed
  have lv: "leaves_ok n s ?W" using r qn by (auto simp: leaves_ok_def)
  show ?thesis unfolding replaying_def using r q qn W m v lv by (auto simp: B')
qed

lemma replay_up_spec:
  assumes "replaying n s key p B W" and "lt_keyed L n key"
  shows "\<exists>B' W'. replay_up L p B = Some B' \<and> lt_played n s key B' W'"
  using assms(1)
proof (induction p arbitrary: B W rule: less_induct)
  case (less p)
  note r = less.prems [unfolded replaying_def]
  show ?case
  proof (cases "1 \<le> p div 2")
    case True
    have b: "B ! (p div 2) = Some (W (sib p))" "B ! 0 = Some (W p)" "p div 2 < length B" "0 < length B"
      using r True by auto
    have "sib p < 2 * n" "1 \<le> sib p" using r True by (auto simp: sib_def elim!: evenE oddE)
    then have k: "1 \<le> W p" "W p \<le> n" "1 \<le> W (sib p)" "W (sib p) \<le> n" using r by auto
    let ?w = "if key (W (sib p)) \<le> key (W p) then W (sib p) else W p"
    let ?l = "if key (W (sib p)) \<le> key (W p) then W p else W (sib p)"
    let ?B = "B[p div 2 := Some ?l, 0 := Some ?w]"
    have "replaying n s key (p div 2) ?B (W(p div 2 := ?w))"
      using replaying_step [OF less.prems True, of ?w ?l ?B] by auto
    moreover have "replay_up L p B = replay_up L (p div 2) ?B"
      using True b lt_win_keyed [OF assms(2) k(3,4,1,2)]
      by (subst replay_up.simps) (simp del: One_nat_def)
    moreover have "p div 2 < p" using True by auto
    ultimately show ?thesis using less.IH by metis
  next
    case False
    then have "p = 1" using r by auto
    moreover have "\<not> anc q (1 div 2)" if "1 \<le> q" for q using anc_le [of q 0] that by auto
    ultimately have "lt_played n s key B W" using r by (auto simp: lt_played_def)
    then show ?thesis using False by (subst replay_up.simps) auto
  qed
qed

text \<open>The overall winner is the winner of every match on its path.\<close>

lemma played_path:
  assumes "lt_played n s key B W" and s: "0 < s" "s < n" "n \<le> 2 * s"
    and "1 \<le> a" "anc a (leaf_pos n s (W 1))" "a < 2 * n"
  shows "W a = W 1"
  using assms(5-7)
proof (induction a rule: less_induct)
  case (less a)
  show ?case
  proof (cases "a = 1")
    case False
    then have a: "2 \<le> a" "1 \<le> a div 2" "a div 2 < a" "a div 2 < n" using less.prems by auto
    then have "W (a div 2) = W 1" using less.IH [of "a div 2"] less.prems anc_parent by auto
    moreover have "matched key B W (a div 2)" using assms(1) a by (auto simp: lt_played_def)
    ultimately have "W 1 = W a \<or> W 1 = W (sib a)"
      using a(1) by (cases "even a") (auto simp: matched_def sib_def elim!: evenE oddE)
    moreover have "W 1 \<noteq> W (sib a)"
    proof
      assume eq: "W 1 = W (sib a)"
      have "1 \<le> sib a" "sib a < 2 * n" using a less.prems by (auto simp: sib_def elim!: evenE oddE)
      from played_below [OF assms(1) s this] have "anc (sib a) (leaf_pos n s (W (sib a)))"
        by (auto simp: anc_def)
      then show False using anc_sib a(1) less.prems eq by metis
    qed
    ultimately show ?thesis by simp
  qed simp
qed

lemma replaying_start:
  assumes P: "lt_played n s key B W" and s: "0 < s" "s < n" "n \<le> 2 * s"
    and same: "\<And>i. i \<noteq> W 1 \<Longrightarrow> key' i = key i"
  shows "replaying n s key' (leaf_pos n s (W 1)) B W"
proof -
  let ?p = "leaf_pos n s (W 1)"
  note p = P [unfolded lt_played_def]
  have w1: "1 \<le> W 1" "W 1 \<le> n" using played_below [OF P s, of 1] s by auto
  note pr = leaf_pos_range [OF s w1]
  have Wp: "W ?p = W 1" using pr p leaf_of_pos [OF s w1] by (auto simp: leaves_ok_def)
  have below: "anc v ?p" if "W v = W 1" "1 \<le> v" "v < 2 * n" for v
    using played_below [OF P s that(2,3)] that(1) by (auto simp: anc_def)
  have m: "matched key' B W q" if "1 \<le> q" "q < n" "\<not> anc q (?p div 2)" for q
  proof -
    have nq: "W c \<noteq> W 1" if "c = q \<or> c div 2 = q" for c
    proof
      assume "W c = W 1"
      then have "anc c ?p" using below [of c] that \<open>1 \<le> q\<close> \<open>q < n\<close> by auto
      then have "anc q ?p" using that anc_parent by auto
      then show False using \<open>\<not> anc q (?p div 2)\<close> anc_cases [of q ?p] pr \<open>q < n\<close> by auto
    qed
    have "matched key B W q" using p that by auto
    then show ?thesis using nq [of q] nq [of "2 * q"] nq [of "2 * q + 1"] same
      by (auto simp: matched_def)
  qed
  have b: "B ! (v div 2) = Some (W (sib v))" if v: "2 \<le> v" "anc v ?p" for v
  proof -
    have le: "v \<le> ?p" using anc_le v by blast
    then have "1 \<le> v div 2" "v div 2 < n" using v pr by linarith+
    then have "matched key B W (v div 2)" using p by blast
    moreover have "W v = W 1" "W (v div 2) = W 1"
      using played_path [OF P s, of v] played_path [OF P s, of "v div 2"] v le pr anc_parent by auto
    moreover have "W (sib v) \<noteq> W 1"
      using below [of "sib v"] anc_sib [OF v(1), of ?p] v le pr sib_range [of v n] by auto
    ultimately show ?thesis using v(1)
      by (cases "even v") (auto simp: matched_def sib_def elim!: evenE oddE)
  qed
  have "1 \<le> W v \<and> W v \<le> n" if "1 \<le> v" "v < 2 * n" for v using played_below [OF P s that] by auto
  then show ?thesis unfolding replaying_def using p pr s Wp m b by auto
qed

text \<open>Replaying after the winner's leaf was replaced restores the invariant.\<close>

lemma replay_ok:
  assumes "lt_ok t key" and "Winner t = Some w" and "tuple_key u = Some k"
  shows "\<exists>t1 t2. Load t w (Some u) = Some t1 \<and> replay t1 w = Some (0, t2) \<and> lt_n t2 = lt_n t
    \<and> lt_L t2 = (lt_L t)[w := Some u] \<and> lt_ok t2 (key(w := k))"
proof -
  let ?n = "lt_n t" and ?key = "key(w := k)" and ?L = "(lt_L t)[w := Some u]"
  from assms(1) obtain s W where s: "0 < s" "s < ?n" "?n \<le> 2 * s"
    and lo: "lt_lowExt t = 2 * (?n - s)" "lt_offset t = 2 * s - 1"
    and K: "lt_keyed (lt_L t) ?n key" and P: "lt_played ?n s key (lt_B t) W"
    by (auto simp: lt_ok_def)
  have w: "w = W 1" "1 \<le> w" "w \<le> ?n"
    using assms(2) P played_below [OF P s, of 1] s by (auto simp: Winner_def lt_played_def)
  define p where "p = leaf_pos ?n s w"
  have p: "?n \<le> p" "p < 2 * ?n" using leaf_pos_range [OF s w(2,3)] by (auto simp: p_def)
  have R: "replaying ?n s ?key p (lt_B t) W"
    using replaying_start [OF P s, of ?key] by (simp add: w(1) p_def)
  note r = R [unfolded replaying_def]
  have K': "lt_keyed ?L ?n ?key" using K w assms(3) by (auto simp: lt_keyed_def nth_list_update)
  have p2: "1 \<le> p div 2" "p div 2 < ?n" using p s by auto
  have b: "lt_B t ! (p div 2) = Some (W (sib p))" "length (lt_B t) = ?n" using r p2 by auto
  have Wp: "W p = w" using leaf_of_pos [OF s w(2,3)] r p by (auto simp: leaves_ok_def p_def)
  have ks: "1 \<le> W (sib p)" "W (sib p) \<le> ?n" using r sib_range [of p ?n] p p2 by auto
  let ?v = "if ?key w \<le> ?key (W (sib p)) then w else W (sib p)"
  let ?l = "if ?key w \<le> ?key (W (sib p)) then W (sib p) else w"
  let ?B = "(lt_B t)[p div 2 := Some ?l, 0 := Some ?v]"
  have "replaying ?n s ?key (p div 2) ?B (W(p div 2 := ?v))"
    using replaying_step [OF R p2(1), of ?v ?l ?B] by (auto simp: Wp)
  from replay_up_spec [OF this K'] obtain B3 W3
    where B3: "replay_up ?L (p div 2) ?B = Some B3" "lt_played ?n s ?key B3 W3" by blast
  have w3: "B3 ! 0 = Some (W3 1)" "length B3 = ?n" "1 \<le> W3 1" "W3 1 \<le> ?n"
    using B3(2) played_below [OF B3(2) s, of 1] s by (auto simp: lt_played_def)
  then obtain t3 where t3: "lt_leaf ?L (W3 1) = Some t3" using lt_keyed_leaf [OF K'] by blast
  let ?t1 = "t\<lparr>lt_L := ?L\<rparr>" and ?t2 = "t\<lparr>lt_L := ?L, lt_B := B3\<rparr>"
  have par: "replay_parent ?t1 w = p div 2" using s w
    by (auto simp: replay_parent_def lo p_def leaf_pos_def)
  have sw: "(lt_B t)[0 := Some x, p div 2 := y] = (lt_B t)[p div 2 := y, 0 := Some x]" for x y
    using p2 by (simp add: list_update_swap)
  have "Load t w (Some u) = Some ?t1" using K w by (auto simp: Load_def lt_keyed_def)
  moreover have "replay ?t1 w = Some (0, ?t2)"
    using p2 b s w3 t3 B3(1) lt_win_keyed [OF K' w(2,3) ks]
    by (simp add: replay_def par sw del: One_nat_def)
  moreover have "lt_ok ?t2 ?key" 
    unfolding lt_ok_def using s lo K' B3(2) by (intro exI [of _ s] exI [of _ W3]) simp
  ultimately show ?thesis by (intro exI [of _ ?t1] exI [of _ ?t2]) simp
qed

lemma lt_ok_winner:
  assumes "lt_ok t key"
  shows "\<exists>w u. Winner t = Some w \<and> 1 \<le> w \<and> w \<le> lt_n t \<and> Win t = Some (Some u)
    \<and> lt_L t ! w = Some u \<and> tuple_key u = Some (key w)
    \<and> (\<forall>i. 1 \<le> i \<and> i \<le> lt_n t \<longrightarrow> key w \<le> key i)"
proof -
  let ?n = "lt_n t"
  from assms obtain s W where s: "0 < s" "s < ?n" "?n \<le> 2 * s"
    and K: "lt_keyed (lt_L t) ?n key" and P: "lt_played ?n s key (lt_B t) W"
    by (auto simp: lt_ok_def)
  have w: "Winner t = Some (W 1)" "1 \<le> W 1" "W 1 \<le> ?n"
    using P played_below [OF P s, of 1] s by (auto simp: Winner_def lt_played_def)
  then obtain u where "lt_L t ! W 1 = Some u" "tuple_key u = Some (key (W 1))" "length (lt_L t) = Suc ?n"
    using K by (auto simp: lt_keyed_def)
  moreover have "key (W 1) \<le> key i" if i: "1 \<le> i" "i \<le> ?n" for i
  proof -
    note r = leaf_pos_range [OF s i]
    then have "W (leaf_pos ?n s i) = i" using P leaf_of_pos [OF s i]
      by (auto simp: lt_played_def leaves_ok_def)
    then show ?thesis using played_root_min [OF P, of "leaf_pos ?n s i"] r s by auto
  qed
  ultimately show ?thesis using w by (auto simp: Win_def)
qed

section \<open>Building the tree\<close>

text \<open>
  The matches are played from left to right. \<open>rm v\<close> is the rightmost node below \<open>v\<close> on the
  level of \<open>s\<close>; when that level has been handled up to (not including) node \<open>x\<close>, the matches
  played are those at the nodes \<open>v\<close> with \<open>rm v < x\<close>.
\<close>

function rm :: "nat \<Rightarrow> nat \<Rightarrow> nat" where
  "rm s v = (if s \<le> v then v else rm s (2 * v + 1))"
  by pat_completeness auto
termination
  by (relation "measure (\<lambda>(s, v). s - v)") auto

declare rm.simps [simp del]

lemma rm_right: "v < s \<Longrightarrow> rm s (2 * v + 1) = rm s v"
  by (simp add: rm.simps [of s v])

lemma rm_self [simp]: "s \<le> v \<Longrightarrow> rm s v = v"
  by (simp add: rm.simps)

lemma rm_level:
  assumes "j \<le> m" "2 ^ j \<le> v" "v < 2 * 2 ^ j"
  shows "rm (2 ^ m) v + 1 = (v + 1) * 2 ^ (m - j)"
  using assms
proof (induction "m - j" arbitrary: j v)
  case (Suc d)
  then have j: "j < m" by simp
  then have "2 * (2::nat) ^ j \<le> 2 ^ m" using power_increasing [of "Suc j" m "2::nat"] by simp
  then have "v < 2 ^ m" using Suc.prems by linarith
  then have "rm (2 ^ m) v = rm (2 ^ m) (2 * v + 1)" by (rule rm_right [symmetric])
  also have "\<dots> + 1 = (2 * v + 1 + 1) * 2 ^ (m - Suc j)"
    using Suc.hyps Suc.prems j by (intro Suc.hyps(1)) auto
  also have "\<dots> = (v + 1) * 2 ^ (m - j)" using j by (simp add: Suc_diff_Suc [symmetric])
  finally show ?case .
qed (auto simp: order_antisym)

lemma level_ex:
  assumes "1 \<le> v" "v < 2 * 2 ^ m"
  obtains j where "j \<le> m" "2 ^ j \<le> v" "v < 2 * (2::nat) ^ j"
  using assms
proof (induction m)
  case (Suc m)
  then show ?case by (cases "v < 2 ^ Suc m") (auto intro: le_SucI, fastforce)
qed auto

lemma rm_form:
  assumes "1 \<le> v" "v < 2 * 2 ^ m"
  obtains k where "rm (2 ^ m) v + 1 = (v + 1) * 2 ^ k" "2 ^ m \<le> v * 2 ^ k" "v * 2 ^ k < 2 * 2 ^ m"
proof -
  from level_ex [OF assms] obtain j where j: "j \<le> m" "2 ^ j \<le> v" "v < 2 * 2 ^ j" .
  have e: "(2::nat) ^ m = 2 ^ j * 2 ^ (m - j)" using j(1) by (simp add: power_add [symmetric])
  have "2 ^ j * 2 ^ (m - j) \<le> v * 2 ^ (m - j)" "v * 2 ^ (m - j) < 2 * 2 ^ j * 2 ^ (m - j)"
    using j by (auto intro: mult_le_mono1 mult_less_mono1)
  then show ?thesis using that [of "m - j"] rm_level [OF j] e by (simp add: mult.assoc)
qed

text \<open>Nodes with the same rightmost descendant lie on one right spine.\<close>

lemma rm_spine:
  assumes "1 \<le> w" "w < v" "v < 2 * 2 ^ m" "rm (2 ^ m) v = rm (2 ^ m) w"
  shows "odd v" and "2 * w + 1 \<le> v"
proof -
  from rm_form [of v m] assms obtain a where a: "rm (2 ^ m) v + 1 = (v + 1) * 2 ^ a" by auto
  from rm_form [of w m] assms obtain b where b: "rm (2 ^ m) w + 1 = (w + 1) * 2 ^ b" by auto
  have e: "(v + 1) * 2 ^ a = (w + 1) * 2 ^ b" using a b assms(4) by simp
  have "a < b"
  proof (rule ccontr)
    assume "\<not> a < b"
    then have "(2::nat) ^ b \<le> 2 ^ a" by (simp add: power_increasing)
    then have "(w + 1) * 2 ^ b < (v + 1) * 2 ^ a" using assms(2)
      by (intro mult_less_le_imp_less) auto
    then show False using e by simp
  qed
  then obtain d where d: "b = a + Suc d" using less_imp_Suc_add by auto
  then have "(v + 1) * 2 ^ a = ((w + 1) * 2 ^ Suc d) * 2 ^ a"
    using e by (simp only: power_add mult.assoc mult.commute [of "2 ^ a"])
  then have v: "v + 1 = (w + 1) * 2 ^ Suc d" by (simp only: mult_cancel2) simp
  then have "even (v + 1)" by (metis even_mult_iff even_power even_two_times_div_two
        dvd_triv_left power_Suc mult.left_commute)
  then show "odd v" by simp
  have "(w + 1) * 2 \<le> (w + 1) * 2 ^ Suc d" by (intro mult_le_mono2) simp
  then show "2 * w + 1 \<le> v" using v by simp
qed

lemma rm_sib:
  assumes "1 \<le> u" "2 * u + 1 < 2 * 2 ^ m"
  shows "rm (2 ^ m) (2 * u) < rm (2 ^ m) (2 * u + 1)"
proof -
  from level_ex [of "u" m] assms obtain j where j: "j \<le> m" "2 ^ j \<le> u" "u < 2 * 2 ^ j" by auto
  have "j < m"
  proof (rule ccontr)
    assume "\<not> j < m" then show False using j assms by auto
  qed
  then have "rm (2 ^ m) (2 * u) + 1 = (2 * u + 1) * 2 ^ (m - Suc j)"
    "rm (2 ^ m) (2 * u + 1) + 1 = (2 * u + 1 + 1) * 2 ^ (m - Suc j)"
    using rm_level [of "Suc j" m "2 * u"] rm_level [of "Suc j" m "2 * u + 1"] j by auto
  moreover have "(2 * u + 1 + 1) * 2 ^ (m - Suc j) = (2 * u + 1) * 2 ^ (m - Suc j) + 2 ^ (m - Suc j)"
    by (simp add: algebra_simps)
  moreover have "(0::nat) < 2 ^ (m - Suc j)" by simp
  ultimately show ?thesis by linarith
qed

lemma rm_range:
  assumes "1 \<le> v" "v < 2 * 2 ^ m"
  shows "2 ^ m \<le> rm (2 ^ m) v \<and> rm (2 ^ m) v < 2 * 2 ^ m"
proof -
  from level_ex [OF assms] obtain j where j: "j \<le> m" "2 ^ j \<le> v" "v < 2 * 2 ^ j" .
  have e: "(2::nat) ^ m = 2 ^ j * 2 ^ (m - j)" using j(1) by (simp add: power_add [symmetric])
  have "2 ^ j * 2 ^ (m - j) \<le> v * 2 ^ (m - j)" "(v + 1) * 2 ^ (m - j) \<le> 2 * 2 ^ j * 2 ^ (m - j)"
    using j by (auto intro: mult_le_mono1 simp del: mult_Suc mult_Suc_right)
  moreover have "(v + 1) * 2 ^ (m - j) = v * 2 ^ (m - j) + 2 ^ (m - j)" by simp
  moreover have "(1::nat) \<le> 2 ^ (m - j)" by simp
  ultimately show ?thesis using rm_level [OF j] e unfolding mult.assoc by linarith
qed

definition played_set :: "nat \<Rightarrow> nat \<Rightarrow> nat \<Rightarrow> nat set" where
  "played_set n s x = {v. 1 \<le> v \<and> v < n \<and> rm s v < x}"

text \<open>While the winner of \<open>p\<close> moves up, the nodes of the spine from \<open>p\<close> down are played too.\<close>

definition spine_set :: "nat \<Rightarrow> nat \<Rightarrow> nat \<Rightarrow> nat \<Rightarrow> nat set" where
  "spine_set n s x p = {v. 1 \<le> v \<and> v < n \<and> (rm s v < x \<or> rm s v = x \<and> p \<le> v)}"

definition building :: "nat \<Rightarrow> nat \<Rightarrow> (nat \<Rightarrow> nat) \<Rightarrow> nat set \<Rightarrow> nat option list \<Rightarrow> (nat \<Rightarrow> nat) \<Rightarrow> bool" where
  "building n s key D B W \<longleftrightarrow> length B = n \<and> leaves_ok n s W
     \<and> (\<forall>q \<in> D. 1 \<le> q \<and> q < n \<and> 1 \<le> W q \<and> W q \<le> n \<and> matched key B W q
          \<and> (2 * q < n \<longrightarrow> 2 * q \<in> D) \<and> (2 * q + 1 < n \<longrightarrow> 2 * q + 1 \<in> D))"

text \<open>The winner of a played node whose parent is not played yet is stored at the parent.\<close>

definition pending :: "nat set \<Rightarrow> nat \<Rightarrow> nat option list \<Rightarrow> (nat \<Rightarrow> nat) \<Rightarrow> bool" where
  "pending D p B W \<longleftrightarrow> (\<forall>v \<in> D. v \<noteq> p \<and> v div 2 \<notin> D \<longrightarrow> B ! (v div 2) = Some (W v))"

lemma building_insert:
  assumes "building n s key D B W" and "pending D c B W" and q: "q \<notin> D" "1 \<le> q" "q < n"
    and ch: "2 * q < n \<Longrightarrow> 2 * q \<in> D" "2 * q + 1 < n \<Longrightarrow> 2 * q + 1 \<in> D"
    and wl: "w = W (2 * q) \<and> l = W (2 * q + 1) \<or> w = W (2 * q + 1) \<and> l = W (2 * q)"
    and "key w \<le> key l" "1 \<le> w" "w \<le> n" and c: "c \<in> D \<Longrightarrow> c div 2 = q"
  shows "building n s key (insert q D) (B[q := Some l]) (W(q := w))
    \<and> pending (insert q D) q (B[q := Some l]) (W(q := w))"
proof -
  note b = assms(1) [unfolded building_def]
  have m: "matched key (B[q := Some l]) (W(q := w)) r" if "r \<in> D" for r
  proof -
    have "2 * r \<noteq> q" "2 * r + 1 \<noteq> q" "r \<noteq> q" using b that q by auto
    then show ?thesis using b that by (auto simp: matched_def)
  qed
  have mq: "matched key (B[q := Some l]) (W(q := w)) q"
    using b wl assms(9) q by (auto simp: matched_def)
  have lv: "leaves_ok n s (W(q := w))" using b q by (auto simp: leaves_ok_def)
  have "building n s key (insert q D) (B[q := Some l]) (W(q := w))"
    unfolding building_def using b m mq lv q ch assms(10,11) by (auto split: if_splits)
  moreover have "pending (insert q D) q (B[q := Some l]) (W(q := w))"
    using assms(2) q c by (auto simp: pending_def)
  ultimately show ?thesis by blast
qed

lemma play_up_spec:
  assumes "building n (2 ^ m) key (spine_set n (2 ^ m) x p) B W"
    and "pending (spine_set n (2 ^ m) x p) p B W"
    and "1 \<le> p" "p < n" "rm (2 ^ m) p = x" and n: "n \<le> 2 * 2 ^ m" and K: "lt_keyed L n key"
  shows "\<exists>B' W'. play_up L p (W p) B = Some B' \<and> building n (2 ^ m) key (played_set n (2 ^ m) (x + 1)) B' W'
    \<and> pending (played_set n (2 ^ m) (x + 1)) 0 B' W'"
  using assms(1-5)
proof (induction p arbitrary: B W rule: less_induct)
  case (less p)
  let ?D = "spine_set n (2 ^ m) x p" and ?q = "p div 2"
  note b = less.prems(1) [unfolded building_def]
  have pD: "p \<in> ?D" using less.prems by (auto simp: spine_set_def)
  show ?case
  proof (cases "1 < p \<and> odd p")
    case True
    then obtain u where u: "p = 2 * u + 1" "1 \<le> u" by (auto elim!: oddE)
    have us: "u < 2 ^ m" using less.prems n u by auto
    have x: "rm (2 ^ m) u = x" using rm_right [OF us] less.prems u by simp
    have "rm (2 ^ m) (2 * u) < x" using rm_sib [of u m] u less.prems n by auto
    then have D: "2 * u \<in> ?D" using u less.prems by (auto simp: spine_set_def)
    have uD: "u \<notin> ?D" using x u by (auto simp: spine_set_def)
    have ins: "spine_set n (2 ^ m) x u = insert u ?D"
    proof -
      have "2 * u + 1 \<le> v" if "rm (2 ^ m) v = x" "u < v" "v < n" for v
        using rm_spine(2) [of u v m] that u x n by auto
      then show ?thesis using u x less.prems by (force simp: spine_set_def)
    qed
    have bu: "B ! u = Some (W (2 * u))" using less.prems(2) D uD u by (force simp: pending_def)
    have k: "1 \<le> W p" "W p \<le> n" "1 \<le> W (2 * u)" "W (2 * u) \<le> n" using b pD D by auto
    define w where "w = (if key (W p) \<le> key (W (2 * u)) then W p else W (2 * u))"
    define l where "l = (if key (W p) \<le> key (W (2 * u)) then W (2 * u) else W p)"
    have "building n (2 ^ m) key (insert u ?D) (B[u := Some l]) (W(u := w))
      \<and> pending (insert u ?D) u (B[u := Some l]) (W(u := w))"
      using u pD D uD k less.prems
      by (intro building_insert [OF less.prems(1,2)]) (auto simp: w_def l_def)
    then have "\<exists>B' W'. play_up L u ((W(u := w)) u) (B[u := Some l]) = Some B'
      \<and> building n (2 ^ m) key (played_set n (2 ^ m) (x + 1)) B' W'
      \<and> pending (played_set n (2 ^ m) (x + 1)) 0 B' W'"
      using u x less.prems by (intro less.IH [where W = "W(u := w)"]) (simp_all add: ins fun_upd_def)
    moreover have "play_up L p (W p) B = play_up L u w (B[u := Some l])"
      using u bu b less.prems lt_win_keyed [OF K k]
      by (subst play_up.simps) (simp add: w_def l_def)
    ultimately show ?thesis by simp
  next
    case False
    have D: "?D = played_set n (2 ^ m) (x + 1)"
    proof -
      have "p \<le> v" if "rm (2 ^ m) v = x" "1 \<le> v" "v < n" for v
        using rm_spine(1) [of v p m] that less.prems n False by (cases "v < p") auto
      then show ?thesis by (force simp: spine_set_def played_set_def)
    qed
    have qD: "?q \<notin> ?D"
    proof
      assume q: "?q \<in> ?D"
      then have "1 < p" by (auto simp: spine_set_def)
      then have e: "even p" using False by simp
      from q have "?q < 2 ^ m" "1 \<le> ?q" using less.prems n by (auto simp: spine_set_def)
      then have "rm (2 ^ m) (2 * ?q) < rm (2 ^ m) ?q"
        using rm_sib [of ?q m] rm_right [of ?q "2 ^ m"] by auto
      then show False using q e less.prems by (auto simp: spine_set_def)
    qed
    have sp: "v = p" if "v \<in> ?D" "v div 2 = ?q" for v
    proof (rule ccontr)
      assume "v \<noteq> p"
      have v: "1 \<le> v" "v < n" "rm (2 ^ m) v \<le> x" using that by (auto simp: spine_set_def)
      have "v = p + 1 \<and> even p" using that False \<open>v \<noteq> p\<close> less.prems v by (cases "even p"; cases "even v") (auto elim!: evenE oddE)
      then show False using rm_sib [of "p div 2" m] v less.prems n by (auto elim!: evenE)
    qed
    have m: "matched key (B[?q := Some (W p)]) W r" if "r \<in> ?D" for r
    proof -
      have "r \<noteq> ?q" "matched key B W r" using b that qD by blast+
      then show ?thesis by (simp add: matched_def)
    qed
    have "building n (2 ^ m) key ?D (B[?q := Some (W p)]) W" unfolding building_def using b m by auto
    moreover have "pending ?D 0 (B[?q := Some (W p)]) W"
      unfolding pending_def
    proof (intro ballI impI)
      fix v assume v: "v \<in> ?D" "v \<noteq> 0 \<and> v div 2 \<notin> ?D"
      show "B[?q := Some (W p)] ! (v div 2) = Some (W v)"
      proof (cases "v div 2 = ?q")
        case True
        then have "v = p" "?q < length B" using sp v(1) b less.prems(4) by auto
        then show ?thesis by simp
      next
        case False
        then show ?thesis using less.prems(2) v by (auto simp: pending_def)
      qed
    qed
    moreover have "play_up L p (W p) B = Some (B[?q := Some (W p)])"
      using False b less.prems by (subst play_up.simps) auto
    ultimately show ?thesis using D by metis
  qed
qed

lemma play_spec:
  assumes "building n (2 ^ m) key (played_set n (2 ^ m) x) B W"
    and "pending (played_set n (2 ^ m) x) 0 B W"
    and p: "1 \<le> p" "p < n" "rm (2 ^ m) p = x" "n \<le> 2 * p + 1"
    and m: "2 ^ m < n" "n \<le> 2 * 2 ^ m" and K: "lt_keyed L n key"
  shows "\<exists>B' W'. play L p (W (2 * p)) (W (2 * p + 1)) B = Some B'
    \<and> building n (2 ^ m) key (played_set n (2 ^ m) (x + 1)) B' W'
    \<and> pending (played_set n (2 ^ m) (x + 1)) 0 B' W'"
proof -
  let ?D = "played_set n (2 ^ m) x"
  note b = assms(1) [unfolded building_def]
  have ch: "2 * p \<in> ?D" if "2 * p < n"
  proof -
    have "p < 2 ^ m" using that m by linarith
    then show ?thesis using rm_sib [of p m] rm_right [of p "2 ^ m"] p that by (auto simp: played_set_def)
  qed
  have k: "1 \<le> W (2 * p)" "W (2 * p) \<le> n" "1 \<le> W (2 * p + 1)" "W (2 * p + 1) \<le> n"
    using b ch p leaf_of_range [of "2 ^ m" n] m
    by (cases "2 * p < n"; auto simp: leaves_ok_def)+
  let ?c = "key (W (2 * p)) \<le> key (W (2 * p + 1))"
  define w where "w = (if ?c then W (2 * p) else W (2 * p + 1))"
  define l where "l = (if ?c then W (2 * p + 1) else W (2 * p))"
  have sp: "spine_set n (2 ^ m) x p = insert p ?D"
  proof -
    have "v = p" if "rm (2 ^ m) v = x" "p \<le> v" "v < n" for v
      using rm_spine(2) [of p v m] that p m by (cases "v = p") auto
    then show ?thesis using p by (auto simp: spine_set_def played_set_def)
  qed
  have "building n (2 ^ m) key (insert p ?D) (B[p := Some l]) (W(p := w))
    \<and> pending (insert p ?D) p (B[p := Some l]) (W(p := w))"
    using p ch k by (intro building_insert [OF assms(1,2)]) (auto simp: played_set_def w_def l_def)
  then have "\<exists>B' W'. play_up L p ((W(p := w)) p) (B[p := Some l]) = Some B'
    \<and> building n (2 ^ m) key (played_set n (2 ^ m) (x + 1)) B' W'
    \<and> pending (played_set n (2 ^ m) (x + 1)) 0 B' W'"
    using p m K by (intro play_up_spec [where W = "W(p := w)"]) (simp_all add: sp)
  moreover have "play L p (W (2 * p)) (W (2 * p + 1)) B = play_up L p w (B[p := Some l])"
    using b p lt_win_keyed [OF K k] by (simp add: play_def w_def l_def)
  ultimately show ?thesis by simp
qed

text \<open>The pairs of leaves of the lowest level, then the pairs of the level above.\<close>

lemma play_pairs_low:
  assumes m: "2 ^ m < n" "n \<le> 2 * 2 ^ m" and K: "lt_keyed L n key"
    and "building n (2 ^ m) key (played_set n (2 ^ m) x) B W"
    and "pending (played_set n (2 ^ m) x) 0 B W" and "2 ^ m \<le> x" "x \<le> n"
  shows "\<exists>B' W'. play_pairs L (\<lambda>i. (i + (2 * 2 ^ m - 1)) div 2) (2 * (x - 2 ^ m) + 2) (2 * (n - 2 ^ m)) B = Some B'
    \<and> building n (2 ^ m) key (played_set n (2 ^ m) n) B' W' \<and> pending (played_set n (2 ^ m) n) 0 B' W'"
  using assms(4-7)
proof (induction "n - x" arbitrary: x B W)
  case 0
  then show ?case by (subst play_pairs.simps) auto
next
  case (Suc d)
  define i where "i = 2 * (x - 2 ^ m) + 2"
  have x: "x < n" "2 ^ m \<le> x" using Suc by auto
  have W: "W (2 * x) = i - 1" "W (2 * x + 1) = i"
    using Suc.prems x m by (auto simp: building_def leaves_ok_def leaf_of_def i_def)
  have p: "(i + (2 * 2 ^ m - 1)) div 2 = x" using x by (auto simp: i_def)
  have "\<exists>B' W'. play L x (W (2 * x)) (W (2 * x + 1)) B = Some B'
    \<and> building n (2 ^ m) key (played_set n (2 ^ m) (x + 1)) B' W'
    \<and> pending (played_set n (2 ^ m) (x + 1)) 0 B' W'"
    using x m K one_le_power [of "2::nat" m] by (intro play_spec [OF Suc.prems(1,2)]) auto
  then obtain B' W' where B': "play L x (i - 1) i B = Some B'"
    and n': "building n (2 ^ m) key (played_set n (2 ^ m) (x + 1)) B' W'"
      "pending (played_set n (2 ^ m) (x + 1)) 0 B' W'" unfolding W by blast
  have i2: "2 * (x + 1 - 2 ^ m) + 2 = i + 2" "i \<le> 2 * (n - 2 ^ m)" using x by (auto simp: i_def)
  have "play_pairs L (\<lambda>i. (i + (2 * 2 ^ m - 1)) div 2) i (2 * (n - 2 ^ m)) B
    = play_pairs L (\<lambda>i. (i + (2 * 2 ^ m - 1)) div 2) (i + 2) (2 * (n - 2 ^ m)) B'"
    using i2(2) B' by (subst play_pairs.simps) (simp only: p if_True bind.bind_lunit)
  then show ?case
    using Suc.hyps(1) [OF _ n'] Suc.hyps(2) x unfolding i2(1) i_def [symmetric] by simp
qed

lemma played_set_even_leaf:
  assumes "even x" "n \<le> x" "x < 2 * 2 ^ m" "0 < x"
  shows "played_set n (2 ^ m) (x + 1) = played_set n (2 ^ m) x"
proof -
  have "rm (2 ^ m) v \<noteq> x" if "1 \<le> v" "v < n" for v
  proof
    assume r: "rm (2 ^ m) v = x"
    have "2 ^ m \<le> x" using rm_range [of v m] that assms r by auto
    then show False using rm_spine(1) [of v x m] that assms r by auto
  qed
  then show ?thesis by (force simp: played_set_def)
qed

lemma play_pairs_high:
  assumes m: "2 ^ m < n" "n \<le> 2 * 2 ^ m" and K: "lt_keyed L n key"
    and "building n (2 ^ m) key (played_set n (2 ^ m) x) B W"
    and "pending (played_set n (2 ^ m) x) 0 B W" and "n \<le> x" "x \<le> 2 * 2 ^ m" "even x"
  shows "\<exists>B' W'. play_pairs L (\<lambda>i. (i - 2 * (n - 2 ^ m) + n - 1) div 2)
      (x + 2 + 2 * (n - 2 ^ m) - n) n B = Some B'
    \<and> building n (2 ^ m) key (played_set n (2 ^ m) (2 * 2 ^ m)) B' W'
    \<and> pending (played_set n (2 ^ m) (2 * 2 ^ m)) 0 B' W'"
  using assms(4-8)
proof (induction "2 * 2 ^ m - x" arbitrary: x B W rule: less_induct)
  case less
  let ?i = "x + 2 + 2 * (n - 2 ^ m) - n"
  show ?case
  proof (cases "x = 2 * 2 ^ m")
    case True
    then have "\<not> ?i \<le> n" using m by auto
    then show ?thesis using less.prems True by (subst play_pairs.simps) auto
  next
    case False
    then have x: "x + 1 < 2 * 2 ^ m" "x + 2 \<le> 2 * 2 ^ m" "2 ^ m < x"
      using less.prems m by (auto elim!: evenE)
    let ?p = "x div 2"
    have p: "1 \<le> ?p" "?p < n" "n \<le> 2 * ?p + 1" "2 * ?p = x" "?p < 2 ^ m"
      using less.prems x m by auto
    have r: "rm (2 ^ m) ?p = x + 1" using rm_right [OF p(5)] p x by simp
    note e = played_set_even_leaf [OF less.prems(5,3), of m]
    have st: "building n (2 ^ m) key (played_set n (2 ^ m) (x + 1)) B W"
      "pending (played_set n (2 ^ m) (x + 1)) 0 B W" using e less.prems x by simp_all
    have W: "W (2 * ?p) = ?i - 1" "W (2 * ?p + 1) = ?i"
      using less.prems(1,3) x m p(4) by (auto simp: building_def leaves_ok_def leaf_of_def)
    have "\<exists>B' W'. play L ?p (W (2 * ?p)) (W (2 * ?p + 1)) B = Some B'
      \<and> building n (2 ^ m) key (played_set n (2 ^ m) (x + 1 + 1)) B' W'
      \<and> pending (played_set n (2 ^ m) (x + 1 + 1)) 0 B' W'"
      by (rule play_spec [OF st p(1,2) r p(3) m K])
    then obtain B' W' where B': "play L ?p (?i - 1) ?i B = Some B'"
      and n': "building n (2 ^ m) key (played_set n (2 ^ m) (x + 2)) B' W'"
        "pending (played_set n (2 ^ m) (x + 2)) 0 B' W'" unfolding W by auto
    have i: "?i \<le> n" "(?i - 2 * (n - 2 ^ m) + n - 1) div 2 = ?p"
      "x + 2 + 2 + 2 * (n - 2 ^ m) - n = ?i + 2" using less.prems x m by auto
    have "\<exists>B'' W''. play_pairs L (\<lambda>i. (i - 2 * (n - 2 ^ m) + n - 1) div 2) (?i + 2) n B' = Some B''
      \<and> building n (2 ^ m) key (played_set n (2 ^ m) (2 * 2 ^ m)) B'' W''
      \<and> pending (played_set n (2 ^ m) (2 * 2 ^ m)) 0 B'' W''"
      using less.hyps [OF _ n'] less.prems x i(3) by auto
    then show ?thesis using i B' by (subst play_pairs.simps) (simp del: One_nat_def)
  qed
qed

lemma lt_initialize_ok:
  assumes "2 \<le> n" and K: "lt_keyed A n key"
  shows "\<exists>t. lt_initialize A n = Some t \<and> lt_n t = n \<and> lt_L t = A \<and> lt_ok t key"
proof -
  from size_loop_spec [OF assms(1)] obtain m where s: "size_loop n 1 = 2 ^ m"
    and m: "2 ^ m < n" "n \<le> 2 * 2 ^ m" .
  let ?S = "\<lambda>x B W. building n (2 ^ m) key (played_set n (2 ^ m) x) B W
    \<and> pending (played_set n (2 ^ m) x) 0 B W"
  let ?hi = "\<lambda>i. (i - 2 * (n - 2 ^ m) + n - 1) div 2" and ?low = "2 * (n - 2 ^ m)"
  have e: "played_set n (2 ^ m) (2 ^ m) = {}"
    using rm_range [of _ m] m by (fastforce simp: played_set_def not_less [symmetric])
  have "?S (2 ^ m) (replicate n None) (leaf_of n (2 ^ m))"
    by (simp add: e building_def pending_def leaves_ok_def)
  from play_pairs_low [OF m K conjunct1 [OF this] conjunct2 [OF this] order_refl less_imp_le [OF m(1)],
      unfolded diff_self_eq_0 mult_0_right add_0]
  obtain B1 W1 where B1: "play_pairs A (\<lambda>i. (i + (2 * 2 ^ m - 1)) div 2) 2 ?low (replicate n None) = Some B1"
    and S1: "?S n B1 W1" by blast
  have "\<exists>B2 i W2 x. (if odd n then do {
             b \<leftarrow> rd_B B1 ((n - 1) div 2);
             B' \<leftarrow> play A (n div 2) b (?low + 1) B1;
             Some (B', ?low + 3)
           } else Some (B1, ?low + 2)) = Some (B2, i) \<and> ?S x B2 W2 \<and> n \<le> x \<and> x \<le> 2 * 2 ^ m \<and> even x
           \<and> i = x + 2 + ?low - n"
  proof (cases "odd n")
    case True
    let ?p = "n div 2"
    have "n \<noteq> 2 * 2 ^ m" using True by auto
    then have p: "1 \<le> ?p" "?p < n" "n \<le> 2 * ?p + 1" "2 * ?p = n - 1" "?p < 2 ^ m" "n < 2 * 2 ^ m"
      "(n - 1) div 2 = ?p" using True m assms(1) by (auto elim!: oddE)
    have r: "rm (2 ^ m) ?p = n" using rm_right [OF p(5)] m p(3,4) assms(1) by simp
    have D: "n - 1 \<in> played_set n (2 ^ m) n" "?p \<notin> played_set n (2 ^ m) n"
      using m assms(1) r by (auto simp: played_set_def)
    have b: "B1 ! ?p = Some (W1 (2 * ?p))" "length B1 = n"
      using S1 D p(4,7) assms(1) by (force simp: pending_def building_def)+
    have w: "W1 (2 * ?p + 1) = ?low + 1"
      using S1 p(4,6) m assms(1) by (auto simp: building_def leaves_ok_def leaf_of_def)
    from play_spec [OF conjunct1 [OF S1] conjunct2 [OF S1] p(1,2) r p(3) m K]
    obtain B2 W2 where "play A ?p (W1 (2 * ?p)) (?low + 1) B1 = Some B2" "?S (n + 1) B2 W2"
      unfolding w by blast
    then show ?thesis using True b p
      by (intro exI [of _ B2] exI [of _ "?low + 3"] exI [of _ W2] exI [of _ "n + 1"]) simp
  next
    case False
    then show ?thesis using S1 m
      by (intro exI [of _ B1] exI [of _ "?low + 2"] exI [of _ W1] exI [of _ n]) simp
  qed
  then obtain B2 W2 x where mid: "(if odd n then do {
             b \<leftarrow> rd_B B1 ((n - 1) div 2);
             B' \<leftarrow> play A (n div 2) b (?low + 1) B1;
             Some (B', ?low + 3)
           } else Some (B1, ?low + 2)) = Some (B2, x + 2 + ?low - n)"
    and S2: "?S x B2 W2" and x: "n \<le> x" "x \<le> 2 * 2 ^ m" "even x" by blast
  from play_pairs_high [OF m K conjunct1 [OF S2] conjunct2 [OF S2] x]
  obtain B3 W3 where B3: "play_pairs A ?hi (x + 2 + ?low - n) n B2 = Some B3"
    and S3: "?S (2 * 2 ^ m) B3 W3" by blast
  have all: "v \<in> played_set n (2 ^ m) (2 * 2 ^ m)" if "1 \<le> v" "v < n" for v
    using rm_range [of v m] that m by (auto simp: played_set_def)
  have "B3 ! 0 = Some (W3 1)" using S3 all [of 1] assms(1) by (auto simp: pending_def played_set_def)
  then have P: "lt_played n (2 ^ m) key B3 W3" using S3 all by (auto simp: lt_played_def building_def)
  have rd: "rd_B B3 0 = Some (W3 1)" and n0: "(n = 0) = False"
    using P assms(1) by (auto simp: lt_played_def)
  let ?t = "\<lparr>lt_n = n, lt_lowExt = ?low, lt_offset = 2 * 2 ^ m - 1, lt_B = B3, lt_L = A\<rparr>"
  have "lt_initialize A n = Some ?t"
    using rd n0
    by (simp only: lt_initialize_def Let_def s B1 mid B3 if_False bind.bind_lunit prod.case)
  moreover have "lt_ok ?t key" unfolding lt_ok_def using m K P
    by (intro exI [of _ "2 ^ m"] exI [of _ W3]) simp
  ultimately show ?thesis by (intro exI [of _ ?t]) simp
qed

section \<open>The selection interface\<close>

text \<open>
  What a merge relies on: a selector over \<open>n\<close> leaves holding tuples names a leaf with the
  least key, and replacing that leaf keeps the contract. \<open>vals t\<close> are the tuples of the leaves.
\<close>

locale selector =
  fixes winner :: "'t \<Rightarrow> nat option" and replace :: "'t \<Rightarrow> nat \<Rightarrow> 'a \<Rightarrow> 't option"
    and vals :: "'t \<Rightarrow> 'a list" and ok :: "'t \<Rightarrow> bool" and key :: "'a \<Rightarrow> nat option"
  assumes winner_least: "ok t \<Longrightarrow> \<exists>w k. winner t = Some w \<and> w < length (vals t)
      \<and> key (vals t ! w) = Some k \<and> (\<forall>v \<in> set (vals t). \<exists>k'. key v = Some k' \<and> k \<le> k')"
    and replace_winner: "\<lbrakk>ok t; winner t = Some w; key u = Some k\<rbrakk> \<Longrightarrow>
      \<exists>t'. replace t w u = Some t' \<and> ok t' \<and> vals t' = (vals t)[w := u]"
begin

text \<open>Taking the winner and refilling its leaf, for a sequence of refills.\<close>

fun selects :: "'t \<Rightarrow> 'a list \<Rightarrow> ('a list \<times> 't) option" where
  "selects t [] = Some ([], t)"
| "selects t (u # us) = do {
     w \<leftarrow> winner t;
     t' \<leftarrow> replace t w u;
     (vs, t'') \<leftarrow> selects t' us;
     Some (vals t ! w # vs, t'')
   }"

lemma selects_ok:
  assumes "ok t" and "\<forall>u \<in> set us. key u \<noteq> None"
  shows "\<exists>vs t'. selects t us = Some (vs, t') \<and> ok t' \<and> length vs = length us
    \<and> mset vs + mset (vals t') = mset (vals t) + mset us"
  using assms
proof (induction us arbitrary: t)
  case (Cons u us)
  from winner_least [OF Cons.prems(1)] obtain w where w: "winner t = Some w" "w < length (vals t)"
    by blast
  from Cons.prems(2) obtain k where "key u = Some k" by auto
  from replace_winner [OF Cons.prems(1) w(1) this] obtain t' where
    t': "replace t w u = Some t'" "ok t'" "vals t' = (vals t)[w := u]" by blast
  from Cons.IH [OF t'(2)] Cons.prems(2) obtain vs t'' where
    s: "selects t' us = Some (vs, t'')" "ok t''" "length vs = length us"
    "mset vs + mset (vals t'') = mset (vals t') + mset us" by auto
  have "mset (vals t') = add_mset u (mset (vals t) - {#vals t ! w#})"
    using w(2) by (simp add: t'(3) mset_update)
  then have "add_mset (vals t ! w) (mset vs) + mset (vals t'') = mset (vals t) + add_mset u (mset us)"
    using s(4) w(2) by simp
  then show ?case using w t'(1) s(1-3) by simp
qed simp

text \<open>If every refill is at least as large as the tuple it replaces, the output is sorted.\<close>

lemma selects_sorted:
  assumes "ok t" and "selects t us = Some (vs, t')"
    and "\<forall>v \<in> set (vals t). the (key v) \<ge> lo"
    and "\<forall>i < length us. \<exists>k. key (us ! i) = Some k \<and> the (key (vs ! i)) \<le> k"
  shows "sorted (map (\<lambda>v. the (key v)) vs) \<and> (\<forall>v \<in> set vs. lo \<le> the (key v))"
  using assms
proof (induction us arbitrary: t vs lo)
  case (Cons u us)
  from winner_least [OF Cons.prems(1)] obtain w k where w: "winner t = Some w" "w < length (vals t)"
    "key (vals t ! w) = Some k" "\<forall>v \<in> set (vals t). \<exists>k'. key v = Some k' \<and> k \<le> k'" by blast
  from Cons.prems(4) obtain ku where ku: "key u = Some ku" "the (key (vs ! 0)) \<le> ku" by auto
  from replace_winner [OF Cons.prems(1) w(1) ku(1)] obtain t1 where
    t1: "replace t w u = Some t1" "ok t1" "vals t1 = (vals t)[w := u]" by blast
  from Cons.prems(2) w(1) t1(1) obtain vs1 where s: "selects t1 us = Some (vs1, t')" "vs = vals t ! w # vs1"
    by (auto split: bind_splits)
  have "\<forall>v \<in> set (vals t1). k \<le> the (key v)"
    using w(3,4) ku s(2) set_update_subset_insert [of "vals t" w u] by (force simp: t1(3))
  moreover have "\<forall>i < length us. \<exists>k. key (us ! i) = Some k \<and> the (key (vs1 ! i)) \<le> k"
    using Cons.prems(4) s(2) by force
  ultimately have "sorted (map (\<lambda>v. the (key v)) vs1) \<and> (\<forall>v \<in> set vs1. k \<le> the (key v))"
    using Cons.IH [OF t1(2) s(1)] by blast
  moreover have "lo \<le> k" using Cons.prems(3) w(2,3) nth_mem by fastforce
  ultimately show ?case using w(3) s(2) by auto
qed auto

end

text \<open>The loser tree provides it; leaf \<open>i\<close> is the tuple number \<open>i - 1\<close>.\<close>

definition lt_vals :: "loser_tree \<Rightarrow> bytes list" where
  "lt_vals t = map (\<lambda>i. the (lt_L t ! Suc i)) [0..<lt_n t]"

definition lt_winner :: "loser_tree \<Rightarrow> nat option" where
  "lt_winner t = map_option (\<lambda>w. w - 1) (Winner t)"

definition lt_replace :: "loser_tree \<Rightarrow> nat \<Rightarrow> bytes \<Rightarrow> loser_tree option" where
  "lt_replace t w u = do {
     t1 \<leftarrow> Load t (Suc w) (Some u);
     (r, t2) \<leftarrow> replay t1 (Suc w);
     Some t2
   }"

definition lt_good :: "loser_tree \<Rightarrow> bool" where
  "lt_good t \<longleftrightarrow> (\<exists>key. lt_ok t key)"

lemma lt_ok_keyed: "lt_ok t key \<Longrightarrow> lt_keyed (lt_L t) (lt_n t) key"
  by (auto simp: lt_ok_def)

lemma lt_vals_update:
  assumes "1 \<le> w" "w \<le> lt_n t" "length (lt_L t) = Suc (lt_n t)" "lt_n t' = lt_n t"
    "lt_L t' = (lt_L t)[w := Some u]"
  shows "lt_vals t' = (lt_vals t)[w - 1 := u]"
  using assms by (intro nth_equalityI) (auto simp: lt_vals_def nth_list_update)

lemma lt_good_winner:
  assumes "lt_good t"
  shows "\<exists>w k. lt_winner t = Some w \<and> w < length (lt_vals t) \<and> tuple_key (lt_vals t ! w) = Some k
    \<and> (\<forall>v \<in> set (lt_vals t). \<exists>k'. tuple_key v = Some k' \<and> k \<le> k')"
proof -
  from assms obtain key where ok: "lt_ok t key" by (auto simp: lt_good_def)
  from lt_ok_winner [OF ok] obtain w u where w: "Winner t = Some w" "1 \<le> w" "w \<le> lt_n t"
    "lt_L t ! w = Some u" "tuple_key u = Some (key w)"
    "\<forall>i. 1 \<le> i \<and> i \<le> lt_n t \<longrightarrow> key w \<le> key i" by blast
  have k: "tuple_key (the (lt_L t ! Suc i)) = Some (key (Suc i))" if "i < lt_n t" for i
    using lt_ok_keyed [OF ok] that unfolding lt_keyed_def
    by (metis Suc_leI le_add1 option.sel plus_1_eq_Suc)
  have "lt_winner t = Some (w - 1)" using w(1) by (simp add: lt_winner_def)
  moreover have "w - 1 < length (lt_vals t)" using w(2,3) by (simp add: lt_vals_def)
  moreover have "tuple_key (lt_vals t ! (w - 1)) = Some (key w)"
    using w(2,3) k [of "w - 1"] by (cases w) (simp_all add: lt_vals_def)
  moreover have "\<exists>k'. tuple_key v = Some k' \<and> key w \<le> k'" if v: "v \<in> set (lt_vals t)" for v
  proof -
    from v obtain i where "i < lt_n t" "v = the (lt_L t ! Suc i)" by (auto simp: lt_vals_def)
    then show ?thesis using k [of i] w(6) by auto
  qed
  ultimately show ?thesis by blast
qed

interpretation lt: selector lt_winner lt_replace lt_vals lt_good tuple_key
proof
  fix t assume "lt_good t"
  then show "\<exists>w k. lt_winner t = Some w \<and> w < length (lt_vals t) \<and> tuple_key (lt_vals t ! w) = Some k
    \<and> (\<forall>v \<in> set (lt_vals t). \<exists>k'. tuple_key v = Some k' \<and> k \<le> k')"
    by (rule lt_good_winner)
next
  fix t w u k
  assume a: "lt_good t" "lt_winner t = Some w" "tuple_key u = Some k"
  then obtain key where ok: "lt_ok t key" by (auto simp: lt_good_def)
  from lt_ok_winner [OF ok] obtain w' where w: "Winner t = Some w'" "1 \<le> w'" "w' \<le> lt_n t" by blast
  then have w': "w' = Suc w" using a(2) by (simp add: lt_winner_def)
  from replay_ok [OF ok w(1) a(3)] obtain t1 t2 where
    t: "Load t w' (Some u) = Some t1" "replay t1 w' = Some (0, t2)" "lt_n t2 = lt_n t"
      "lt_L t2 = (lt_L t)[w' := Some u]" "lt_ok t2 (key(w' := k))" by blast
  have "lt_vals t2 = (lt_vals t)[w' - 1 := u]"
    using lt_ok_keyed [OF ok] w t(3,4) by (intro lt_vals_update) (auto simp: lt_keyed_def)
  then show "\<exists>t'. lt_replace t w u = Some t' \<and> lt_good t' \<and> lt_vals t' = (lt_vals t)[w := u]"
    using t w' by (auto simp: lt_replace_def lt_good_def)
qed

section \<open>Properties\<close>

text \<open>
  C23. For at least two leaves \<open>initialize\<close> reads no uninitialised entry of \<open>B\<close>, stays in bounds,
  and leaves a tree in which \<open>Winner()\<close> names a leaf holding the least key of all leaves.
\<close>

theorem loser_tree_initialize:
  assumes "2 \<le> n" and "lt_keyed A n key"
  shows "\<exists>t w. lt_initialize A n = Some t \<and> Winner t = Some w \<and> Win t = Some (A ! w)
    \<and> 1 \<le> w \<and> w \<le> n \<and> (\<forall>i. 1 \<le> i \<and> i \<le> n \<longrightarrow> key w \<le> key i) \<and> lt_ok t key"
proof -
  from lt_initialize_ok [OF assms] obtain t where t: "lt_initialize A n = Some t" "lt_n t = n"
    "lt_L t = A" "lt_ok t key" by blast
  from lt_ok_winner [OF t(4)] t(2,3) show ?thesis using t(1,4) by auto
qed

text \<open>
  C5. Loading a new tuple into the winner's leaf and replaying it keeps the tree correct: the
  result is 0 (no null leaf won), the new winner again holds the least key, and only that leaf
  changed. Together with the loser tree being correct at the start this is what makes the merge of sorted columns sorted.
\<close>

theorem loser_tree_replay:
  assumes "lt_ok t key" and "Winner t = Some w" and "tuple_key u = Some k"
  shows "\<exists>t1 t2 w'. Load t w (Some u) = Some t1 \<and> replay t1 w = Some (0, t2)
    \<and> lt_L t2 = (lt_L t)[w := Some u] \<and> lt_ok t2 (key(w := k)) \<and> Winner t2 = Some w'
    \<and> (\<forall>i. 1 \<le> i \<and> i \<le> lt_n t \<longrightarrow> (key(w := k)) w' \<le> (key(w := k)) i)"
proof -
  from replay_ok [OF assms] obtain t1 t2 where t: "Load t w (Some u) = Some t1"
    "replay t1 w = Some (0, t2)" "lt_n t2 = lt_n t" "lt_L t2 = (lt_L t)[w := Some u]"
    "lt_ok t2 (key(w := k))" by blast
  from lt_ok_winner [OF t(5)] obtain w' where "Winner t2 = Some w'"
    "\<forall>i. 1 \<le> i \<and> i \<le> lt_n t2 \<longrightarrow> (key(w := k)) w' \<le> (key(w := k)) i" by blast
  then show ?thesis using t by auto
qed

text \<open>
  A tree of one leaf is not supported: \<open>initialize\<close> with \<open>size = 1\<close> plays leaf 1 against
  \<open>B[0]\<close>, which has not been written.
\<close>

theorem loser_tree_single_uninitialised: "lt_initialize A 1 = None"
proof -
  have "size_loop 1 1 = 1" by (subst size_loop.simps) simp
  moreover have "play_pairs A f 2 0 B = Some B" for f B by (subst play_pairs.simps) simp
  ultimately show ?thesis by (simp add: lt_initialize_def Let_def rd_B_def del: One_nat_def)
qed

definition three_leaves :: "bytes option list" where
  "three_leaves = [None, Some (kv_tuple 0 7), Some (kv_tuple 0 3),
     Some (kv_tuple 0 5)]"

definition three_keys :: "nat \<Rightarrow> nat" where
  "three_keys i = (if i = 1 then 7 else if i = 2 then 3 else 5)"

lemma three_leaves_keyed: "lt_keyed three_leaves 3 three_keys"
proof -
  have "i = 1 \<or> i = 2 \<or> i = 3" if "1 \<le> i" "i \<le> 3" for i :: nat using that by arith
  then show ?thesis
    by (auto simp: lt_keyed_def three_leaves_def three_keys_def nth_Cons')
qed

theorem loser_tree_initialize_witness:
  "\<exists>t w. lt_initialize three_leaves 3 = Some t \<and> Winner t = Some w \<and> Win t = Some (three_leaves ! w)
    \<and> 1 \<le> w \<and> w \<le> 3 \<and> (\<forall>i. 1 \<le> i \<and> i \<le> 3 \<longrightarrow> three_keys w \<le> three_keys i) \<and> lt_ok t three_keys"
  by (rule loser_tree_initialize) (simp_all add: three_leaves_keyed)

theorem loser_tree_replay_witness:
  "\<exists>t t1 t2 w w'. lt_initialize three_leaves 3 = Some t
    \<and> Load t w (Some (kv_tuple 0 9)) = Some t1
    \<and> replay t1 w = Some (0, t2) \<and> Winner t2 = Some w'"
proof -
  from lt_initialize_ok [OF _ three_leaves_keyed] obtain t where
    t: "lt_initialize three_leaves 3 = Some t" "lt_ok t three_keys" by auto
  moreover from lt_ok_winner [OF t(2)] obtain w where "Winner t = Some w" by blast
  moreover have "tuple_key (kv_tuple 0 9) = Some 9" by simp
  ultimately show ?thesis using loser_tree_replay [of t three_keys w] by blast
qed

end
