(* ===== verification/Mosito_PCBuffer.thy ===== *)
theory Mosito_PCBuffer
  imports Mosito_Queue Mosito_LoserTree
begin

text \<open>
  \<open>PCBuffer\<close> of \<^verbatim>\<open>common/m_pc_buffer.h\<close> and \<^verbatim>\<open>common/m_pc_buffer.cpp\<close>: the
  producer-consumer buffer of a shuffle, one \<open>BlockCircleQueue\<close> per sending node.

  \<^item> \<open>put\<close> and \<open>get\<close> retry a push or pop at most eleven times; other threads work on the same
    queue between two attempts, which is the argument \<open>env\<close>.
  \<^item> \<open>get_sorted\<close> merges the columns with a \<open>LoserTree\<close>. Its pops wait until they succeed, so a
    column is the sequence of block images its pops will return (\<open>pm_feed\<close>); a column that
    never delivers again makes the loop spin forever, which is \<open>None\<close> like undefined behaviour.
\<close>

section \<open>put and get\<close>

record pc_buffer =
  pcb_data :: "bcq list"
  pcb_ns :: NewSchema

text \<open>\<open>junks i\<close> are the contents of the blocks malloc'ed for column \<open>i\<close>.\<close>

definition mk_PCBuffer :: "(nat \<Rightarrow> bytes list) \<Rightarrow> NewSchema \<Rightarrow> nat \<Rightarrow> pc_buffer" where
  "mk_PCBuffer junks ns row =
     \<lparr>pcb_data = map (\<lambda>i. mk_BlockCircleQueue (junks i) COLUMN_CON) [0..<row], pcb_ns = ns\<rparr>"

function put_loop :: "(nat \<Rightarrow> bcq \<Rightarrow> bcq) \<Rightarrow> block \<Rightarrow> nat \<Rightarrow> bcq \<Rightarrow> (bool \<times> bcq) option" where
  "put_loop env block seconds q = do {
     (ok, q') \<leftarrow> bcq_push block q;
     if ok then Some (True, q')
     else if 10 \<le> seconds then Some (False, q')
     else put_loop env block (Suc seconds) (env seconds q')
   }"
  by pat_completeness auto
termination
  by (relation "measure (\<lambda>(env, block, seconds, q). 10 - seconds)") auto

function get_loop :: "(nat \<Rightarrow> bcq \<Rightarrow> bcq) \<Rightarrow> block \<Rightarrow> nat \<Rightarrow> bcq \<Rightarrow> (bool \<times> block \<times> bcq) option" where
  "get_loop env block seconds q = do {
     (ok, block', q') \<leftarrow> bcq_pop block q;
     if ok then Some (True, block', q')
     else if 10 \<le> seconds then Some (False, block', q')
     else get_loop env block' (Suc seconds) (env seconds q')
   }"
  by pat_completeness auto
termination
  by (relation "measure (\<lambda>(env, block, seconds, q). 10 - seconds)") auto

declare put_loop.simps [simp del] get_loop.simps [simp del]

definition put :: "(nat \<Rightarrow> bcq \<Rightarrow> bcq) \<Rightarrow> block \<Rightarrow> nat \<Rightarrow> pc_buffer \<Rightarrow> (bool \<times> pc_buffer) option" where
  "put env block column pcb =
     (if column < length (pcb_data pcb) then do {
        (ok, q) \<leftarrow> put_loop env block 0 (pcb_data pcb ! column);
        Some (ok, pcb\<lparr>pcb_data := (pcb_data pcb)[column := q]\<rparr>)
      }
      else None)"

definition get :: "(nat \<Rightarrow> bcq \<Rightarrow> bcq) \<Rightarrow> block \<Rightarrow> nat \<Rightarrow> pc_buffer \<Rightarrow>
    (bool \<times> block \<times> pc_buffer) option" where
  "get env block column pcb =
     (if column < length (pcb_data pcb) then do {
        (ok, block', q) \<leftarrow> get_loop env block 0 (pcb_data pcb ! column);
        Some (ok, block', pcb\<lparr>pcb_data := (pcb_data pcb)[column := q]\<rparr>)
      }
      else None)"

definition getSchema :: "pc_buffer \<Rightarrow> NewSchema" where
  "getSchema pcb = pcb_ns pcb"

section \<open>get_sorted\<close>

record pc_merge =
  pm_ns :: NewSchema
  pm_row :: nat
  pm_feed :: "bytes list list"
  pm_merged :: "block list"
  pm_itrs :: "iter list"
  pm_lt :: "loser_tree option"
  pm_finished :: nat

text \<open>\<open>while(!data_[i]->pop(merged_blocks_[i]));\<close>\<close>

definition wait_pop :: "nat \<Rightarrow> pc_merge \<Rightarrow> pc_merge option" where
  "wait_pop i st =
     (if i < length (pm_feed st) \<and> i < length (pm_merged st) then
        (case pm_feed st ! i of
           [] \<Rightarrow> None
         | img # rest \<Rightarrow> do {
             b \<leftarrow> storeBlock (pm_merged st ! i) img BLOCK_SIZE;
             Some (st\<lparr>pm_merged := (pm_merged st)[i := b], pm_feed := (pm_feed st)[i := rest]\<rparr>)
           })
      else None)"

text \<open>\<open>itrs_[i]->getNext()\<close>: the tuple the pointer refers to, \<open>None\<close> the null pointer.\<close>

definition pm_next :: "nat \<Rightarrow> pc_merge \<Rightarrow> (bytes option \<times> pc_merge) option" where
  "pm_next i st =
     (if i < length (pm_itrs st) \<and> i < length (pm_merged st) then do {
        (p, it) \<leftarrow> getNext (pm_merged st ! i) (pm_itrs st ! i);
        let st' = st\<lparr>pm_itrs := (pm_itrs st)[i := it]\<rparr>;
        case p of
          None \<Rightarrow> Some (None, st')
        | Some off \<Rightarrow> do { t \<leftarrow> tuple_at (pm_merged st ! i) off; Some (Some t, st') }
      }
      else None)"

fun pm_fill :: "nat list \<Rightarrow> pc_merge \<Rightarrow> pc_merge option" where
  "pm_fill [] st = Some st"
| "pm_fill (i # is) st = do {
     st' \<leftarrow> wait_pop i st;
     pm_fill is (st'\<lparr>pm_itrs := (pm_itrs st')[i := createIterator]\<rparr>)
   }"

fun pm_firsts :: "nat list \<Rightarrow> pc_merge \<Rightarrow> (bytes option list \<times> pc_merge) option" where
  "pm_firsts [] st = Some ([], st)"
| "pm_firsts (i # is) st = do {
     (t, st') \<leftarrow> pm_next i st;
     (ts, st'') \<leftarrow> pm_firsts is st';
     Some (t # ts, st'')
   }"

text \<open>The part under \<open>if(!begin_)\<close>; \<open>array_[0]\<close> is never assigned.\<close>

definition pm_begin :: "pc_merge \<Rightarrow> pc_merge option" where
  "pm_begin st = do {
     st1 \<leftarrow> pm_fill [0..<pm_row st] st;
     (ts, st2) \<leftarrow> pm_firsts [0..<pm_row st] st1;
     lt \<leftarrow> lt_initialize (None # ts) (pm_row st);
     Some (st2\<lparr>pm_lt := Some lt\<rparr>)
   }"

text \<open>
  The tuple loaded for a finished column: \<open>ULONG_MAX\<close> is written at \<open>8*i\<close> for every \<open>t_long\<close>
  column \<open>i\<close> of a malloc'ed tuple.
\<close>

fun max_tuple :: "DataType list \<Rightarrow> nat \<Rightarrow> bytes \<Rightarrow> bytes option" where
  "max_tuple [] i m = Some m"
| "max_tuple (d # ds) i m =
     (if get_type d = t_long then do { m' \<leftarrow> wr_u64 m (8 * i) ULONG_MAX; max_tuple ds (Suc i) m' }
      else max_tuple ds (Suc i) m)"

datatype gs_out = GsReturn | GsBreak | GsContinue

text \<open>The refill of the winner's leaf: the tuple, or the end of the last column.\<close>

definition gs_refill :: "bytes \<Rightarrow> nat \<Rightarrow> pc_merge \<Rightarrow> (bool \<times> bytes option \<times> pc_merge) option" where
  "gs_refill junk i st = do {
     (t, st1) \<leftarrow> pm_next i st;
     case t of
       Some _ \<Rightarrow> Some (False, t, st1)
     | None \<Rightarrow> do {
         st2 \<leftarrow> wait_pop i (st1\<lparr>pm_merged := (pm_merged st1)[i := blk_reset (pm_merged st1 ! i)]\<rparr>);
         n \<leftarrow> get_size (pm_merged st2 ! i);
         if n = 0 then do {
           add \<leftarrow> max_tuple (ns_vd (pm_ns st2)) 0 junk;
           let fin = pm_finished st2 + 1;
           Some (fin = pm_row st2, Some add, st2\<lparr>pm_finished := fin\<rparr>)
         }
         else do {
           (t', st3) \<leftarrow> pm_next i (st2\<lparr>pm_itrs := (pm_itrs st2)[i := createIterator]\<rparr>);
           Some (False, t', st3)
         }
       }
   }"

definition gs_body :: "bytes \<Rightarrow> pc_merge \<Rightarrow> block \<Rightarrow> nat \<Rightarrow> (gs_out \<times> pc_merge \<times> block) option" where
  "gs_body junk st block desc = do {
     lt \<leftarrow> pm_lt st;
     winner \<leftarrow> Winner lt;
     temp \<leftarrow> Option.bind (Win lt) id;
     _ \<leftarrow> tuple_key temp;
     block1 \<leftarrow> storeTuple block desc temp;
     (ended, tuple, st1) \<leftarrow> gs_refill junk (winner - 1) st;
     if ended then do {
       block2 \<leftarrow> build block1 BLOCK_SIZE 0;
       Some (GsReturn, st1, block2)
     }
     else do {
       lt1 \<leftarrow> Load lt winner tuple;
       (r, lt2) \<leftarrow> replay lt1 winner;
       Some (if r \<noteq> 0 then GsBreak else GsContinue, st1\<lparr>pm_lt := Some lt2\<rparr>, block1)
     }
   }"

text \<open>
  The \<open>while\<close> loop. Every round moves \<open>free_\<close> by the tuple size, so \<open>BLOCK_SIZE + 1\<close> rounds
  suffice for a positive tuple size.
\<close>

fun gs_loop :: "nat \<Rightarrow> bytes \<Rightarrow> pc_merge \<Rightarrow> block \<Rightarrow> (gs_out \<times> pc_merge \<times> block) option" where
  "gs_loop 0 junk st block = None"
| "gs_loop (Suc fuel) junk st block =
     (case allocateTuple block of
        None \<Rightarrow> Some (GsBreak, st, block)
      | Some desc \<Rightarrow> do {
          (out, st', block') \<leftarrow> gs_body junk st block desc;
          case out of
            GsContinue \<Rightarrow> gs_loop fuel junk st' block'
          | _ \<Rightarrow> Some (out, st', block')
        })"

definition get_sorted :: "bytes \<Rightarrow> pc_merge \<Rightarrow> block \<Rightarrow> (bool \<times> pc_merge \<times> block) option" where
  "get_sorted junk st block = do {
     st1 \<leftarrow> (if pm_lt st = None then pm_begin st else Some st);
     (out, st2, b) \<leftarrow> gs_loop (Suc BLOCK_SIZE) junk st1 (blk_reset block);
     if out = GsReturn then Some (False, st2, b)
     else do {
       b' \<leftarrow> assembling b BLOCK_SIZE (ns_totalsize (pm_ns st2));
       Some (True, st2, b')
     }
   }"

section \<open>Properties of put and get\<close>

text \<open>The states a queue goes through while a call of \<open>put\<close> retries against \<open>env\<close>.\<close>

fun env_seq :: "(nat \<Rightarrow> bcq \<Rightarrow> bcq) \<Rightarrow> nat \<Rightarrow> bcq \<Rightarrow> bcq" where
  "env_seq env 0 q = q"
| "env_seq env (Suc k) q = env k (env_seq env k q)"

lemma env_seq_shift: "env_seq (\<lambda>k. env (Suc k)) j (env 0 q) = env_seq env (Suc j) q"
  by (induction j) auto

lemma put_loop_spec:
  assumes "seconds \<le> 10"
    and "\<And>k. bcq_valid (env_seq (\<lambda>j. env (seconds + j)) k q)" and "big_block x"
  shows "\<exists>ok q'. put_loop env x seconds q = Some (ok, q')
    \<and> (\<exists>k \<le> 10 - seconds. let p = env_seq (\<lambda>j. env (seconds + j)) k q in
         (ok \<longrightarrow> bcq_contents q' = bcq_contents p @ [blk_image x] \<and> bcq_valid q')
         \<and> (\<not> ok \<longrightarrow> q' = p \<and> k = 10 - seconds)
         \<and> (\<forall>j < k. length (bcq_contents (env_seq (\<lambda>j. env (seconds + j)) j q)) = bcq_capacity (env_seq (\<lambda>j. env (seconds + j)) j q))
         \<and> (ok \<longleftrightarrow> length (bcq_contents p) < bcq_capacity p))"
  using assms
proof (induction "10 - seconds" arbitrary: seconds q)
  case 0
  then have s: "seconds = 10" by simp
  have v: "bcq_valid q" using 0(3) [of 0] by simp
  show ?case
  proof (cases rule: bcq.push_cases [OF v \<open>big_block x\<close>, case_names room full])
    case (room q')
    then show ?thesis by (subst put_loop.simps) (auto simp: s intro!: exI [of _ 0])
  next
    case full
    then show ?thesis by (subst put_loop.simps) (auto simp: s intro!: exI [of _ 0])
  qed
next
  case (Suc d)
  have v: "bcq_valid q" using Suc(4) [of 0] by simp
  show ?case
  proof (cases rule: bcq.push_cases [OF v \<open>big_block x\<close>, case_names room full])
    case (room q')
    then show ?thesis by (subst put_loop.simps) (auto intro!: exI [of _ 0])
  next
    case full
    let ?e = "\<lambda>j. env (seconds + j)" and ?e' = "\<lambda>j. env (Suc seconds + j)"
    have sh: "env_seq ?e' k (env seconds q) = env_seq ?e (Suc k) q" for k
      using env_seq_shift [of ?e k q] by simp
    have "\<exists>ok q'. put_loop env x (Suc seconds) (env seconds q) = Some (ok, q')
      \<and> (\<exists>k \<le> 10 - Suc seconds. let p = env_seq ?e' k (env seconds q) in
         (ok \<longrightarrow> bcq_contents q' = bcq_contents p @ [blk_image x] \<and> bcq_valid q')
         \<and> (\<not> ok \<longrightarrow> q' = p \<and> k = 10 - Suc seconds)
         \<and> (\<forall>j < k. length (bcq_contents (env_seq ?e' j (env seconds q)))
               = bcq_capacity (env_seq ?e' j (env seconds q)))
         \<and> (ok \<longleftrightarrow> length (bcq_contents p) < bcq_capacity p))"
    proof (rule Suc(1))
      show "bcq_valid (env_seq ?e' k (env seconds q))" for k unfolding sh by (rule Suc(4))
    qed (use Suc(2,5) in simp_all)
    then obtain ok q' k where r: "put_loop env x (Suc seconds) (env seconds q) = Some (ok, q')"
      "k \<le> 10 - Suc seconds"
      "ok \<longrightarrow> bcq_contents q' = bcq_contents (env_seq ?e (Suc k) q) @ [blk_image x] \<and> bcq_valid q'"
      "\<not> ok \<longrightarrow> q' = env_seq ?e (Suc k) q \<and> k = 10 - Suc seconds"
      "\<forall>j < k. length (bcq_contents (env_seq ?e (Suc j) q)) = bcq_capacity (env_seq ?e (Suc j) q)"
      "ok \<longleftrightarrow> length (bcq_contents (env_seq ?e (Suc k) q)) < bcq_capacity (env_seq ?e (Suc k) q)"
      unfolding sh Let_def by blast
    have j: "length (bcq_contents (env_seq ?e j q)) = bcq_capacity (env_seq ?e j q)" if "j < Suc k" for j
      using that full r(5) by (cases j) auto
    have sec: "seconds < 10" using Suc(2) by simp
    have "put_loop env x seconds q = Some (ok, q')"
      using full(1) r(1) sec by (subst put_loop.simps) simp
    moreover have "Suc k \<le> 10 - seconds" "k = 10 - Suc seconds \<longrightarrow> Suc k = 10 - seconds"
      using r(2) Suc(2) by auto
    ultimately show ?thesis unfolding Let_def using r j by blast
  qed
qed


text \<open>
  C27. \<open>put\<close> under interference. Whatever other threads do to the column between its attempts
  (as long as the queue stays well-formed), \<open>put\<close> returns; it returns true exactly when some
  attempt found room, and then has appended its block once, after everything queued at that
  moment; it returns false only after eleven attempts that all found the column full, and then
  has changed nothing. Other columns are untouched.
\<close>

theorem put_under_interference:
  assumes "column < length (pcb_data pcb)" and "big_block x"
    and "\<And>k. bcq_valid (env_seq env k (pcb_data pcb ! column))"
  shows "\<exists>ok q'. put env x column pcb = Some (ok, pcb\<lparr>pcb_data := (pcb_data pcb)[column := q']\<rparr>)
    \<and> (\<exists>k \<le> 10. let p = env_seq env k (pcb_data pcb ! column) in
         (ok \<longrightarrow> bcq_contents q' = bcq_contents p @ [blk_image x] \<and> bcq_valid q')
         \<and> (\<not> ok \<longrightarrow> q' = p \<and> k = 10)
         \<and> (\<forall>j < k. length (bcq_contents (env_seq env j (pcb_data pcb ! column)))
               = bcq_capacity (env_seq env j (pcb_data pcb ! column)))
         \<and> (ok \<longleftrightarrow> length (bcq_contents p) < bcq_capacity p))"
  using put_loop_spec [of 0 env "pcb_data pcb ! column" x] assms
  by (fastforce simp: put_def)

text \<open>
  A block put into a column of a fresh \<open>PCBuffer\<close> comes out of the next \<open>get\<close> on that
  column byte for byte, when nobody interferes.
\<close>

theorem put_get_roundtrip:
  assumes "column < row" and "big_block x" and "big_block d"
    and "\<And>i. length (junks i) = COLUMN_CON \<and> list_all (\<lambda>j. length j = BLOCK_SIZE) (junks i)"
  shows "\<exists>pcb d' pcb'. put (\<lambda>_. id) x column (mk_PCBuffer junks ns row) = Some (True, pcb)
    \<and> get (\<lambda>_. id) d column pcb = Some (True, d', pcb') \<and> blk_image d' = blk_image x"
proof -
  let ?q = "mk_BlockCircleQueue (junks column) COLUMN_CON"
  have q: "bcq_valid ?q" "bcq_contents ?q = []" "bcq_capacity ?q = COLUMN_CON"
    using mk_BlockCircleQueue_valid [of "junks column" COLUMN_CON] assms(4) by auto
  then have "length (bcq_contents ?q) < bcq_capacity ?q" by (simp add: COLUMN_CON_def)
  from bcq_push_room [OF q(1) assms(2) this] q(2) obtain q1 where
    q1: "bcq_push x ?q = Some (True, q1)" "bcq_valid q1" "bcq_contents q1 = [blk_image x]" by auto
  from bcq_pop_nonempty [OF q1(2,3) assms(3)] obtain d' q2 where
    q2: "bcq_pop d q1 = Some (True, d', q2)" "blk_image d' = blk_image x" by auto
  have "put_loop (\<lambda>_. id) x 0 ?q = Some (True, q1)" "get_loop (\<lambda>_. id) d 0 q1 = Some (True, d', q2)"
    using q1(1) q2(1) by (subst put_loop.simps get_loop.simps, simp)+
  then show ?thesis using assms(1) q2(2) by (simp add: put_def get_def mk_PCBuffer_def)
qed

lemma block_tuples_none: "get_size b = Some 0 \<Longrightarrow> block_tuples b = Some []"
  by (simp add: block_tuples_def getNext_def createIterator_def)

text \<open>
  The last call of \<open>get_sorted\<close>. When the column refilled last turns out to be finished
  and it is the last one, the block handed to the caller is given the tuple count 0, so every
  tuple stored into it during that call, the winner just taken included, is invisible.
\<close>

theorem get_sorted_last_block_empty:
  assumes "get_sorted junk st block = Some (False, st', b)" and "blk_size block = BLOCK_SIZE"
  shows "block_tuples b = Some []"
proof -
  have sz: "blk_size (blk_reset block) = BLOCK_SIZE" using assms(2) by simp
  have loop: "get_size b = Some 0"
    if "gs_loop fuel junk s blk = Some (GsReturn, s', b)" "blk_size blk = BLOCK_SIZE" for fuel s s' blk
    using that
  proof (induction fuel arbitrary: s blk)
    case (Suc fuel)
    then obtain desc out s1 b1 where d: "allocateTuple blk = Some desc"
      "gs_body junk s blk desc = Some (out, s1, b1)"
      by (auto split: option.splits simp: bind_iff)
    have "blk_size b1 = BLOCK_SIZE \<and> (out = GsReturn \<longrightarrow> get_size b1 = Some 0)"
      using d(2) Suc.prems(2)
      by (auto simp: gs_body_def bind_iff storeTuple_def build_def get_size_def split: if_splits
          dest: rd_u32_wr_u32)
    then show ?case using Suc d by (auto split: gs_out.splits)
  qed simp
  from assms(1) obtain s1 where "gs_loop (Suc BLOCK_SIZE) junk s1 (blk_reset block) = Some (GsReturn, st', b)"
    by (auto simp: get_sorted_def bind_iff simp del: gs_loop.simps split: if_splits)
  then show ?thesis using loop [OF _ sz] by (intro block_tuples_none) blast
qed

definition zero_block :: block where
  "zero_block = mk_Block (replicate BLOCK_SIZE 0) 16"

lemma get_size_zero_mem: "blk_size b = BLOCK_SIZE \<Longrightarrow> blk_mem b = replicate BLOCK_SIZE 0 \<Longrightarrow> get_size b = Some 0"
  by (simp add: get_size_def rd_u32_def rd_bytes_def BLOCK_SIZE_def)

text \<open>Two columns, one finished, the other one with its last tuple in the tree.\<close>

definition last_state :: pc_merge where
  "last_state = \<lparr>pm_ns = \<lparr>ns_totalsize = 16, ns_vd = [], ns_accum = []\<rparr>, pm_row = 2,
     pm_feed = [[replicate BLOCK_SIZE 0], []], pm_merged = [zero_block, zero_block],
     pm_itrs = [createIterator, createIterator],
     pm_lt = Some \<lparr>lt_n = 2, lt_lowExt = 2, lt_offset = 1, lt_B = [Some 1, Some 2],
       lt_L = [None, Some (kv_tuple 0 5), Some (kv_tuple ULONG_MAX ULONG_MAX)]\<rparr>,
     pm_finished = 1\<rparr>"

theorem put_under_interference_witness:
  "\<exists>ok q'. put (\<lambda>_. id) blank_block 0 (mk_PCBuffer (\<lambda>_. replicate COLUMN_CON (replicate BLOCK_SIZE 0)) (mk_NewSchema []) 1)
    = Some (ok, (mk_PCBuffer (\<lambda>_. replicate COLUMN_CON (replicate BLOCK_SIZE 0)) (mk_NewSchema []) 1)\<lparr>pcb_data := [q']\<rparr>)"
proof -
  let ?pcb = "mk_PCBuffer (\<lambda>_. replicate COLUMN_CON (replicate BLOCK_SIZE 0)) (mk_NewSchema []) 1"
  have d: "pcb_data ?pcb = [mk_BlockCircleQueue (replicate COLUMN_CON (replicate BLOCK_SIZE 0)) COLUMN_CON]"
    by (simp add: mk_PCBuffer_def)
  have "env_seq (\<lambda>_. id) k q = q" for k q by (induction k) auto
  then show ?thesis
    using put_under_interference [of 0 ?pcb blank_block "\<lambda>_. id"] d
      mk_BlockCircleQueue_valid [of "replicate COLUMN_CON (replicate BLOCK_SIZE 0)" COLUMN_CON]
    by (force simp: list_all_iff)
qed

theorem put_get_roundtrip_witness:
  "\<exists>pcb d' pcb'. put (\<lambda>_. id) blank_block 1
      (mk_PCBuffer (\<lambda>_. replicate COLUMN_CON (replicate BLOCK_SIZE 7)) (mk_NewSchema []) 2) = Some (True, pcb)
    \<and> get (\<lambda>_. id) zero_block 1 pcb = Some (True, d', pcb') \<and> blk_image d' = blk_image blank_block"
  by (rule put_get_roundtrip) (simp_all add: zero_block_def big_block_def blank_block_def list_all_iff)

theorem get_sorted_last_block_empty_witness:
  "\<exists>st b. get_sorted (replicate 16 0) last_state zero_block = Some (False, st, b) \<and> block_tuples b = Some []"
proof -
  have z: "get_size zero_block = Some 0" by (simp add: get_size_zero_mem zero_block_def)
  have z2: "get_size (zero_block\<lparr>blk_free := x, blk_mem := replicate BLOCK_SIZE 0\<rparr>) = Some 0" for x
    by (simp add: get_size_zero_mem zero_block_def)
  have "wait_pop 0 (last_state\<lparr>pm_itrs := i, pm_merged := [blk_reset zero_block, zero_block]\<rparr>)
    = Some (last_state\<lparr>pm_itrs := i, pm_merged := [zero_block\<lparr>blk_free := BLOCK_SIZE,
        blk_mem := replicate BLOCK_SIZE 0\<rparr>, zero_block], pm_feed := [[], []]\<rparr>)" for i
    by (simp add: wait_pop_def last_state_def storeBlock_def rd_bytes_def wr_bytes_def zero_block_def blk_reset_def)
  moreover have "pm_next 0 last_state = Some (None, last_state\<lparr>pm_itrs := [\<lparr>it_current = 0, it_fake = Some 0\<rparr>, createIterator]\<rparr>)"
    using z by (simp add: pm_next_def last_state_def getNext_def createIterator_def)
  moreover have m: "pm_merged last_state = [zero_block, zero_block]" "ns_vd (pm_ns last_state) = []"
    "pm_row last_state = 2" "pm_finished last_state = 1" by (simp_all add: last_state_def)
  ultimately obtain st' where r: "gs_refill (replicate 16 0) 0 last_state = Some (True, Some (replicate 16 0), st')"
    using z2 by (simp add: gs_refill_def)
  obtain lt where lt: "pm_lt last_state = Some lt" "Winner lt = Some 1" "Win lt = Some (Some (kv_tuple 0 5))"
    by (simp add: last_state_def Winner_def Win_def rd_B_def)
  have al: "allocateTuple (blk_reset zero_block) = Some 0"
    by (simp add: allocateTuple_def zero_block_def BLOCK_SIZE_def)
  have "\<exists>b1 b2. storeTuple (blk_reset zero_block) 0 (kv_tuple 0 5) = Some b1 \<and> build b1 BLOCK_SIZE 0 = Some b2"
    by (simp add: storeTuple_def build_def rd_bytes_def wr_bytes_def wr_u32_def zero_block_def BLOCK_SIZE_def)
  then obtain b2 where "gs_body (replicate 16 0) last_state (blk_reset zero_block) 0 = Some (GsReturn, st', b2)"
    using lt r by (auto simp: gs_body_def)
  then have "get_sorted (replicate 16 0) last_state zero_block = Some (False, st', b2)"
    using al lt(1) by (simp add: get_sorted_def)
  moreover have "blk_size zero_block = BLOCK_SIZE" by (simp add: zero_block_def)
  ultimately show ?thesis using get_sorted_last_block_empty by blast
qed

end
