(* ===== verification/Mosito_Heap.thy ===== *)
theory Mosito_Heap
  imports Mosito_Schema Mosito_Buffer
begin

text \<open>
  \<open>Heap\<close> of \<^verbatim>\<open>common/m_trees.cpp\<close>: the binary heap of tuple pointers that forms sorted runs
  by replacement selection and persists each run to a file.

  An array entry is the tuple its pointer refers to (\<open>None\<close>: uninitialised). The comparator is
  the argument \<open>cmp\<close>; \<open>waterline_\<close> and \<open>file_off_\<close> are not set by the constructors
  (\<open>None\<close>). Persisted files are the list \<open>hp_files\<close> of names and contents.
\<close>

section \<open>The code\<close>

record heap =
  hp_waterline :: "nat option"
  hp_array :: "bytes option list"
  hp_flex :: block
  hp_init_flag :: bool
  hp_file_off :: "nat option"
  hp_files :: "(string \<times> bytes) list"

definition mk_Heap :: "bytes \<Rightarrow> nat \<Rightarrow> heap" where
  "mk_Heap junk tuple_size =
     \<lparr>hp_waterline = None, hp_array = replicate HEAP_SIZE None, hp_flex = mk_Block junk tuple_size,
      hp_init_flag = False, hp_file_off = None, hp_files = []\<rparr>"

definition arr_get :: "'a option list \<Rightarrow> nat \<Rightarrow> 'a option" where
  "arr_get a i = (if i < length a then a ! i else None)"

definition arr_set :: "'a option list \<Rightarrow> nat \<Rightarrow> 'a \<Rightarrow> 'a option list option" where
  "arr_set a i v = (if i < length a then Some (a[i := Some v]) else None)"

text \<open>The child that \<open>heap_again\<close> compares with its parent.\<close>

definition pick_child :: "('a \<Rightarrow> 'a \<Rightarrow> bool option) \<Rightarrow> nat \<Rightarrow> nat \<Rightarrow> 'a option list \<Rightarrow> nat option" where
  "pick_child cmp child len a =
     (if child + 1 < len then do {
        l \<leftarrow> arr_get a child;
        r \<leftarrow> arr_get a (child + 1);
        c \<leftarrow> cmp l r;
        Some (if \<not> c then child + 1 else child)
      }
      else Some child)"

lemma pick_child_bounds: "pick_child cmp c len a = Some k \<Longrightarrow> c < len \<Longrightarrow> c \<le> k \<and> k \<le> c + 1 \<and> k < len"
  by (auto simp: pick_child_def bind_iff split: if_splits)

function heap_again :: "('a \<Rightarrow> 'a \<Rightarrow> bool option) \<Rightarrow> nat \<Rightarrow> nat \<Rightarrow> 'a option list \<Rightarrow> 'a option list option" where
  "heap_again cmp i len a =
     (if 2 * i + 1 < len then
        (case pick_child cmp (2 * i + 1) len a of
           None \<Rightarrow> None
         | Some child \<Rightarrow> do {
             x \<leftarrow> arr_get a i;
             y \<leftarrow> arr_get a child;
             c \<leftarrow> cmp x y;
             if c then Some a
             else heap_again cmp child len (a[i := Some y, child := Some x])
           })
      else Some a)"
  by pat_completeness auto
termination
  by (relation "measure (\<lambda>(cmp, i, len, a). len - i)") (auto dest: pick_child_bounds)

declare heap_again.simps [simp del]

text \<open>\<open>for(int i=(waterline_-2)/2;i>=0;i--)\<close>: \<open>int\<close> division truncates, so 0 gives no round.\<close>

fun heap_sort_loop :: "('a \<Rightarrow> 'a \<Rightarrow> bool option) \<Rightarrow> nat \<Rightarrow> nat \<Rightarrow> 'a option list \<Rightarrow> 'a option list option" where
  "heap_sort_loop cmp 0 len a = Some a"
| "heap_sort_loop cmp (Suc i) len a = do {
     a' \<leftarrow> heap_again cmp i len a;
     heap_sort_loop cmp i len a'
   }"

definition hs_rounds :: "nat \<Rightarrow> nat" where
  "hs_rounds waterline = (if waterline = 0 then 0 else (waterline - 2) div 2 + 1)"

definition heap_sort :: "(bytes \<Rightarrow> bytes \<Rightarrow> bool option) \<Rightarrow> heap \<Rightarrow> heap option" where
  "heap_sort cmp h = do {
     w \<leftarrow> hp_waterline h;
     a \<leftarrow> heap_sort_loop cmp (hs_rounds w) w (hp_array h);
     Some (h\<lparr>hp_array := a\<rparr>)
   }"

definition heap_empty :: "heap \<Rightarrow> bool" where
  "heap_empty h = hp_init_flag h"

definition heap_get_top :: "heap \<Rightarrow> bytes option" where
  "heap_get_top h = arr_get (hp_array h) 0"

definition get_files :: "heap \<Rightarrow> string list" where
  "get_files h = map fst (hp_files h)"

text \<open>\<open>init_phase\<close>: \<open>bi.get_size()\<close> decides which of the two loops runs over the tuples \<open>bi\<close> yields.\<close>

fun init_all :: "bytes list \<Rightarrow> nat option \<Rightarrow> bytes option list \<Rightarrow> (nat option \<times> bytes option list) option" where
  "init_all [] w a = Some (w, a)"
| "init_all (t # ts) w a = do {
     i \<leftarrow> w;
     a' \<leftarrow> arr_set a i t;
     init_all ts (Some (i + 1)) a'
   }"

fun init_some :: "bytes list \<Rightarrow> nat option \<Rightarrow> bytes option list \<Rightarrow> (nat option \<times> bytes option list) option" where
  "init_some [] w a = Some (w, a)"
| "init_some (t # ts) w a = do {
     i \<leftarrow> w;
     if i < HEAP_SIZE then do {
       a' \<leftarrow> arr_set a i t;
       init_some ts (Some (i + 1)) a'
     }
     else Some (w, a)
   }"

definition init_phase :: "nat \<Rightarrow> bytes list \<Rightarrow> heap \<Rightarrow> (bool \<times> heap) option" where
  "init_phase bi_size tuples h =
     (if int_of_u32 bi_size \<le> int HEAP_SIZE then do {
        (w, a) \<leftarrow> init_all tuples (hp_waterline h) (hp_array h);
        Some (False, h\<lparr>hp_waterline := w, hp_array := a, hp_init_flag := True\<rparr>)
      }
      else do {
        (w, a) \<leftarrow> init_some tuples (hp_waterline h) (hp_array h);
        Some (True, h\<lparr>hp_waterline := w, hp_array := a, hp_init_flag := True\<rparr>)
      })"

definition sort_file :: "nat \<Rightarrow> string" where
  "sort_file n = ''sort_'' @ dec n"

text \<open>\<open>fname<<"sort_"<<file_off_++; files_.push_back(..); flex_buffer_->persist(..)\<close>\<close>

definition persist_run :: "heap \<Rightarrow> heap option" where
  "persist_run h = do {
     n \<leftarrow> hp_file_off h;
     bs \<leftarrow> persist (hp_flex h);
     Some (h\<lparr>hp_file_off := Some (wrap32 (n + 1)), hp_files := hp_files h @ [(sort_file n, bs)]\<rparr>)
   }"

definition heap_adjust :: "bool \<Rightarrow> (nat \<Rightarrow> nat) \<Rightarrow> (bytes \<Rightarrow> bytes \<Rightarrow> bool option) \<Rightarrow> bytes \<Rightarrow> heap \<Rightarrow> heap option" where
  "heap_adjust strict junk cmp tuple h = do {
     top \<leftarrow> heap_get_top h;
     fb \<leftarrow> storeTupleOK strict junk (hp_flex h) top;
     let h1 = h\<lparr>hp_flex := fb\<rparr>;
     w \<leftarrow> hp_waterline h1;
     c \<leftarrow> cmp tuple top;
     if \<not> c then do {
       a1 \<leftarrow> arr_set (hp_array h1) 0 tuple;
       a2 \<leftarrow> heap_again cmp 0 w a1;
       Some (h1\<lparr>hp_array := a2\<rparr>)
     }
     else if w = 0 then None
     else if w - 1 = 0 then do {
       a1 \<leftarrow> arr_set (hp_array h1) 0 tuple;
       h2 \<leftarrow> persist_run (h1\<lparr>hp_array := a1\<rparr>);
       Some (h2\<lparr>hp_flex := flex_reset (hp_flex h2), hp_waterline := Some HEAP_SIZE, hp_init_flag := False\<rparr>)
     }
     else do {
       l \<leftarrow> arr_get (hp_array h1) (w - 1);
       a1 \<leftarrow> arr_set (hp_array h1) 0 l;
       a2 \<leftarrow> arr_set a1 (w - 1) tuple;
       a3 \<leftarrow> heap_again cmp 0 (w - 1) a2;
       Some (h1\<lparr>hp_waterline := Some (w - 1), hp_array := a3\<rparr>)
     }
   }"

text \<open>
  The \<open>while(waterline_>=0)\<close> loop of \<open>cleanup\<close>: the round at waterline 0 still stores a tuple
  and then reads \<open>array_[-1]\<close>.
\<close>

fun cleanup_loop :: "bool \<Rightarrow> (nat \<Rightarrow> nat) \<Rightarrow> (bytes \<Rightarrow> bytes \<Rightarrow> bool option) \<Rightarrow> nat \<Rightarrow> bytes option list \<Rightarrow> block \<Rightarrow>
    (bytes option list \<times> block) option" where
  "cleanup_loop strict junk cmp w a fb = do {
     a1 \<leftarrow> heap_again cmp 0 w a;
     top \<leftarrow> arr_get a1 0;
     fb1 \<leftarrow> storeTupleOK strict junk fb top;
     case w of
       0 \<Rightarrow> None
     | Suc v \<Rightarrow> do {
         l \<leftarrow> arr_get a1 v;
         a2 \<leftarrow> arr_set a1 0 l;
         cleanup_loop strict junk cmp v a2 fb1
       }
   }"

declare cleanup_loop.simps [simp del]

definition cleanup :: "bool \<Rightarrow> (nat \<Rightarrow> nat) \<Rightarrow> (bytes \<Rightarrow> bytes \<Rightarrow> bool option) \<Rightarrow> heap \<Rightarrow> heap option" where
  "cleanup strict junk cmp h = do {
     h1 \<leftarrow> persist_run h;
     let h2 = h1\<lparr>hp_flex := flex_reset (hp_flex h1), hp_waterline := Some HEAP_SIZE\<rparr>;
     h3 \<leftarrow> heap_sort cmp h2;
     (a, fb) \<leftarrow> cleanup_loop strict junk cmp HEAP_SIZE (hp_array h3) (hp_flex h3);
     persist_run (h3\<lparr>hp_array := a, hp_flex := fb\<rparr>)
   }"

section \<open>The order interface\<close>

text \<open>What the heap relies on: on the tuples it holds, the comparator decides a total preorder.\<close>

locale sort_order =
  fixes cmp :: "'a \<Rightarrow> 'a \<Rightarrow> bool option" and good :: "'a \<Rightarrow> bool"
  assumes cmp_defined: "\<lbrakk>good x; good y\<rbrakk> \<Longrightarrow> cmp x y \<noteq> None"
    and cmp_total: "\<lbrakk>good x; good y; cmp x y = Some False\<rbrakk> \<Longrightarrow> cmp y x = Some True"
    and cmp_trans: "\<lbrakk>good x; good y; good z; cmp x y = Some True; cmp y z = Some True\<rbrakk> \<Longrightarrow> cmp x z = Some True"
begin

definition le :: "'a \<Rightarrow> 'a \<Rightarrow> bool" where
  "le x y \<longleftrightarrow> cmp x y = Some True"

lemma cmp_le: "\<lbrakk>good x; good y\<rbrakk> \<Longrightarrow> cmp x y = Some (le x y)"
  using cmp_defined by (fastforce simp: le_def)

lemma le_total: "\<lbrakk>good x; good y; \<not> le x y\<rbrakk> \<Longrightarrow> le y x"
  using cmp_total cmp_le by (metis le_def)

lemma le_refl: "good x \<Longrightarrow> le x x"
  using le_total by blast

lemma le_trans: "\<lbrakk>good x; good y; good z; le x y; le y z\<rbrakk> \<Longrightarrow> le x z"
  unfolding le_def by (rule cmp_trans)

text \<open>The first \<open>len\<close> entries are tuples.\<close>

definition filled :: "nat \<Rightarrow> 'a option list \<Rightarrow> bool" where
  "filled len a \<longleftrightarrow> len \<le> length a \<and> (\<forall>j < len. \<exists>x. a ! j = Some x \<and> good x)"

definition at :: "'a option list \<Rightarrow> nat \<Rightarrow> 'a" where
  "at a j = the (a ! j)"

lemma filled_get: "\<lbrakk>filled len a; j < len\<rbrakk> \<Longrightarrow> arr_get a j = Some (at a j) \<and> good (at a j) \<and> a ! j = Some (at a j)"
  by (fastforce simp: filled_def arr_get_def at_def)

text \<open>Parents are below their children for all parents from \<open>i\<close> on.\<close>

definition heap_from :: "nat \<Rightarrow> nat \<Rightarrow> 'a option list \<Rightarrow> bool" where
  "heap_from i len a \<longleftrightarrow> (\<forall>j. 0 < j \<and> j < len \<and> i \<le> (j - 1) div 2 \<longrightarrow> le (at a ((j - 1) div 2)) (at a j))"

text \<open>The same with a hole at \<open>k\<close>, whose children are still above the parent of \<open>k\<close>.\<close>

definition heap_hole :: "nat \<Rightarrow> nat \<Rightarrow> nat \<Rightarrow> 'a option list \<Rightarrow> bool" where
  "heap_hole i k len a \<longleftrightarrow> i \<le> k
     \<and> (\<forall>j. 0 < j \<and> j < len \<and> i \<le> (j - 1) div 2 \<and> (j - 1) div 2 \<noteq> k \<longrightarrow> le (at a ((j - 1) div 2)) (at a j))
     \<and> (\<forall>j. 0 < j \<and> j < len \<and> (j - 1) div 2 = k \<and> 0 < k \<and> i \<le> (k - 1) div 2 \<longrightarrow> le (at a ((k - 1) div 2)) (at a j))"

lemma at_swap:
  assumes "i < length a" "k < length a" "i \<noteq> k"
  shows "at (a[i := Some y, k := Some x]) j = (if j = k then x else if j = i then y else at a j)"
  using assms by (auto simp: at_def)

lemma heap_hole_step:
  assumes f: "filled len a" and h: "heap_hole i k len a"
    and c: "c < len" "(c - 1) div 2 = k" "0 < c" "k < c"
    and min: "\<And>j. 0 < j \<Longrightarrow> j < len \<Longrightarrow> (j - 1) div 2 = k \<Longrightarrow> le (at a c) (at a j)"
    and gt: "\<not> le (at a k) (at a c)"
  shows "heap_hole i c len (a[k := Some (at a c), c := Some (at a k)])"
proof -
  let ?a = "a[k := Some (at a c), c := Some (at a k)]"
  have len: "k < length a" "c < length a" "k \<noteq> c" using f c by (auto simp: filled_def)
  have g: "good (at a j)" if "j < len" for j using filled_get [OF f that] by blast
  have ck: "le (at a c) (at a k)" using le_total [OF _ _ gt] g c by simp
  note sw = at_swap [OF len]
  have hh: "i \<le> k" "\<And>j. \<lbrakk>0 < j; j < len; i \<le> (j - 1) div 2; (j - 1) div 2 \<noteq> k\<rbrakk> \<Longrightarrow> le (at a ((j - 1) div 2)) (at a j)"
    "\<And>j. \<lbrakk>0 < j; j < len; (j - 1) div 2 = k; 0 < k; i \<le> (k - 1) div 2\<rbrakk> \<Longrightarrow> le (at a ((k - 1) div 2)) (at a j)"
    using h by (auto simp: heap_hole_def)
  have par: "le (at ?a ((j - 1) div 2)) (at ?a j)"
    if j: "0 < j" "j < len" "i \<le> (j - 1) div 2" "(j - 1) div 2 \<noteq> c" for j
  proof (cases "(j - 1) div 2 = k")
    case True
    then have "j \<noteq> k" using j by auto
    then show ?thesis using True min [OF j(1,2) True] ck len by (auto simp: sw)
  next
    case False
    then have jc: "j \<noteq> c" using c by auto
    show ?thesis
    proof (cases "j = k")
      case True
      then show ?thesis using hh(3) [of c] c j False len by (auto simp: sw)
    next
      case nk: False
      then show ?thesis using hh(2) [OF j(1-3) False] j False jc by (auto simp: sw)
    qed
  qed
  have ch: "le (at ?a ((c - 1) div 2)) (at ?a j)"
    if j: "0 < j" "j < len" "(j - 1) div 2 = c" for j
  proof -
    have "j \<noteq> c" "j \<noteq> k" using j c by auto
    then show ?thesis using hh(2) [OF j(1,2)] j c hh(1) by (auto simp: sw)
  qed
  show ?thesis unfolding heap_hole_def using hh(1) c par ch by auto
qed

lemma heap_again_hole:
  assumes "filled len a" and "heap_hole i k len a" and "k < len"
  shows "\<exists>a'. heap_again cmp k len a = Some a' \<and> filled len a' \<and> heap_from i len a' \<and> length a' = length a
    \<and> mset (take len a') = mset (take len a) \<and> drop len a' = drop len a \<and> (\<forall>j < k. a' ! j = a ! j)"
  using assms
proof (induction "len - k" arbitrary: k a rule: less_induct)
  case less
  note f = less.prems(1)
  show ?case
  proof (cases "2 * k + 1 < len")
    case True
    let ?l = "2 * k + 1"
    define c where "c = (if ?l + 1 < len \<and> \<not> le (at a ?l) (at a (?l + 1)) then ?l + 1 else ?l)"
    have pc: "pick_child cmp ?l len a = Some c"
      using filled_get [OF f, of ?l] filled_get [OF f, of "?l + 1"] True
      by (auto simp: pick_child_def c_def cmp_le)
    have c: "c < len" "(c - 1) div 2 = k" "0 < c" "k < c" using True by (auto simp: c_def)
    have g: "good (at a j)" if "j < len" for j using filled_get [OF f that] by blast
    have min: "le (at a c) (at a j)" if "0 < j" "j < len" "(j - 1) div 2 = k" for j
    proof -
      have "j = ?l \<or> j = ?l + 1" using that by auto
      then show ?thesis using that g le_refl le_total [of "at a ?l" "at a (?l + 1)"] True
        by (auto simp: c_def)
    qed
    have ac: "arr_get a k = Some (at a k)" "arr_get a c = Some (at a c)" "cmp (at a k) (at a c) = Some (le (at a k) (at a c))"
      using filled_get [OF f, of k] filled_get [OF f, of c] less.prems(3) c cmp_le by auto
    show ?thesis
    proof (cases "le (at a k) (at a c)")
      case True
      have "heap_from i len a"
        unfolding heap_from_def
      proof (intro allI impI)
        fix j assume j: "0 < j \<and> j < len \<and> i \<le> (j - 1) div 2"
        show "le (at a ((j - 1) div 2)) (at a j)"
        proof (cases "(j - 1) div 2 = k")
          case eq: True
          then show ?thesis
            using le_trans [OF _ _ _ True min [of j]] g j c less.prems(3) by auto
        next
          case False
          then show ?thesis using less.prems(2) j by (auto simp: heap_hole_def)
        qed
      qed
      moreover have "heap_again cmp k len a = Some a"
        using pc ac True \<open>2 * k + 1 < len\<close> by (subst heap_again.simps) simp
      ultimately show ?thesis using f by auto
    next
      case False
      let ?a = "a[k := Some (at a c), c := Some (at a k)]"
      have len: "len \<le> length a" using f by (simp add: filled_def)
      have kc: "a ! k = Some (at a k)" "a ! c = Some (at a c)"
        using filled_get [OF f] c less.prems(3) by auto
      have f': "filled len ?a" using f g c less.prems(3)
        by (auto simp: filled_def nth_list_update)
      have tk: "take len ?a = (take len a)[k := take len a ! c, c := take len a ! k]"
        using kc c less.prems(3) by (simp add: take_update_swap)
      have ms: "mset (take len ?a) = mset (take len a)"
        unfolding tk using c less.prems(3) len by (intro mset_swap) auto
      have "\<exists>a'. heap_again cmp c len ?a = Some a' \<and> filled len a' \<and> heap_from i len a' \<and> length a' = length ?a
        \<and> mset (take len a') = mset (take len ?a) \<and> drop len a' = drop len ?a \<and> (\<forall>j < c. a' ! j = ?a ! j)"
        using less.hyps [OF _ f' heap_hole_step [OF f less.prems(2) c min False] c(1)] c less.prems(3) by auto
      then obtain a' where a': "heap_again cmp c len ?a = Some a'" "filled len a'" "heap_from i len a'"
        "length a' = length a" "mset (take len a') = mset (take len a)" "drop len a' = drop len a"
        "\<forall>j < k. a' ! j = a ! j"
        using ms c less.prems(3) by (auto simp: drop_update_cancel)
      have "heap_again cmp k len a = Some a'"
        using pc ac False \<open>2 * k + 1 < len\<close> a'(1) by (subst heap_again.simps) simp
      then show ?thesis using a' by blast
    qed
  next
    case False
    have "heap_from i len a"
      unfolding heap_from_def
    proof (intro allI impI)
      fix j assume j: "0 < j \<and> j < len \<and> i \<le> (j - 1) div 2"
      then have "(j - 1) div 2 \<noteq> k" using False by auto
      then show "le (at a ((j - 1) div 2)) (at a j)" using less.prems(2) j by (auto simp: heap_hole_def)
    qed
    then show ?thesis using False f by (subst heap_again.simps) auto
  qed
qed

lemma heap_sort_loop_ok:
  assumes "filled len a" and "heap_from k len a" and "k \<le> len"
  shows "\<exists>a'. heap_sort_loop cmp k len a = Some a' \<and> filled len a' \<and> heap_from 0 len a' \<and> length a' = length a
    \<and> mset (take len a') = mset (take len a) \<and> drop len a' = drop len a"
  using assms
proof (induction k arbitrary: a)
  case (Suc k)
  have "heap_hole k k len a"
    using Suc.prems(2) by (auto simp: heap_hole_def heap_from_def)
  from heap_again_hole [OF Suc.prems(1) this] Suc.prems(3) obtain a' where
    a': "heap_again cmp k len a = Some a'" "filled len a'" "heap_from k len a'" "length a' = length a"
    "mset (take len a') = mset (take len a)" "drop len a' = drop len a" by auto
  from Suc.IH [OF a'(2,3)] Suc.prems(3) a' show ?case by auto
qed auto

lemma heap_root_least:
  assumes "filled len a" and "heap_from 0 len a" and "j < len"
  shows "le (at a 0) (at a j)"
  using assms(3)
proof (induction j rule: less_induct)
  case (less j)
  have g: "good (at a i)" if "i < len" for i using filled_get [OF assms(1) that] by blast
  show ?case
  proof (cases "j = 0")
    case True
    then show ?thesis using le_refl g less.prems by simp
  next
    case False
    let ?p = "(j - 1) div 2"
    have p: "?p < j" "?p < len" using False less.prems by auto
    have "le (at a ?p) (at a j)" using assms(2) False less.prems by (auto simp: heap_from_def)
    then show ?thesis using le_trans [OF _ _ _ less.IH [OF p]] g p less.prems by auto
  qed
qed

lemma heap_from_rounds: "heap_from (hs_rounds w) w a"
  by (auto simp: heap_from_def hs_rounds_def)

lemma heap_from_sub: "heap_from 0 w a \<Longrightarrow> v \<le> w \<Longrightarrow> heap_from 0 v a"
  by (auto simp: heap_from_def)

text \<open>Putting a tuple on the root of a heap leaves a hole there.\<close>

lemma heap_hole_root:
  assumes "heap_from 0 w a" and "v \<le> w" and "\<And>j. 0 < j \<Longrightarrow> j < v \<Longrightarrow> b ! j = a ! j"
  shows "heap_hole 0 0 v b"
  using assms by (auto simp: heap_hole_def heap_from_def at_def)

end

text \<open>The tuples whose sort columns can be read, and those whose key can.\<close>

definition sortable :: "Schema \<Rightarrow> SortOrderRef list \<Rightarrow> bytes \<Rightarrow> bool" where
  "sortable s vs t \<longleftrightarrow> sort_keys s vs 0 t \<noteq> None"

definition has_key :: "bytes \<Rightarrow> bool" where
  "has_key t \<longleftrightarrow> tuple_key t \<noteq> None"

interpretation cmpr: sort_order "Comparator_compare s vs" "sortable s vs" for s vs
proof
  fix x y assume "sortable s vs x" "sortable s vs y"
  then show "Comparator_compare s vs x y \<noteq> None"
    by (auto simp: sortable_def Comparator_compare_def compare_from_lex)
next
  fix x y assume "sortable s vs x" "sortable s vs y"
    "Comparator_compare s vs x y = Some False"
  then show "Comparator_compare s vs y x = Some True"
    using lex_le_total [of "the (sort_keys s vs 0 x)" "the (sort_keys s vs 0 y)" "map so_direction vs"]
    by (auto simp: sortable_def Comparator_compare_def compare_from_lex length_sort_keys)
next
  fix x y z assume g: "sortable s vs x" "sortable s vs y" "sortable s vs z"
    and le: "Comparator_compare s vs x y = Some True" "Comparator_compare s vs y z = Some True"
  from g obtain kx ky kz where k: "sort_keys s vs 0 x = Some kx" "sort_keys s vs 0 y = Some ky"
    "sort_keys s vs 0 z = Some kz" by (auto simp: sortable_def)
  show "Comparator_compare s vs x z = Some True"
    using le lex_le_trans [of kx ky kz] k
    by (auto simp: Comparator_compare_def compare_from_lex length_sort_keys)
qed

interpretation ct: sort_order CompareTemp_compare has_key
  by unfold_locales (auto simp: CompareTemp_compare_def has_key_def split: if_splits)

section \<open>The flex buffer\<close>

definition flex_ok :: "block \<Rightarrow> bool" where
  "flex_ok b \<longleftrightarrow> blk_free b \<le> blk_size b \<and> blk_size b \<le> length (blk_mem b) \<and> 0 < blk_size b"

lemma grow_spec:
  assumes "flex_ok b" and "holds b us" and "blk_free b + blk_tuple_size b < 2 ^ 31"
  shows "\<exists>d b'. grow junk b = Some (d, b') \<and> flex_ok b' \<and> holds b' us \<and> allocateTuple b' = Some d
    \<and> blk_tuple_size b' = blk_tuple_size b"
  using assms
proof (induction "2 ^ 32 - blk_size b" arbitrary: b rule: less_induct)
  case less
  show ?case
  proof (cases "allocateTuple b")
    case (Some d)
    then show ?thesis using less.prems by (subst grow.simps) auto
  next
    case None
    then have sz: "blk_size b < blk_free b + blk_tuple_size b" "0 < blk_size b"
      using less.prems(1) by (auto simp: allocateTuple_def flex_ok_def split: if_splits)
    let ?b = "b\<lparr>blk_size := blk_size b * 2,
      blk_mem := take (blk_size b * 2) (blk_mem b @ map junk [length (blk_mem b)..<blk_size b * 2])\<rparr>"
    have db: "double_buffer junk b = Some ?b"
      using sz less.prems(3) by (simp add: double_buffer_def Let_def)
    have "flex_ok ?b" "holds ?b us"
      using less.prems(1,2) by (auto simp: flex_ok_def holds_def)
    moreover have "2 ^ 32 - blk_size ?b < 2 ^ 32 - blk_size b" using sz less.prems(3) by simp
    ultimately have "\<exists>d b'. grow junk ?b = Some (d, b') \<and> flex_ok b' \<and> holds b' us \<and> allocateTuple b' = Some d
      \<and> blk_tuple_size b' = blk_tuple_size ?b"
      using less.hyps [of ?b] less.prems(3) by simp
    then show ?thesis using None sz db by (subst grow.simps) simp
  qed
qed

lemma storeTupleOK_spec:
  assumes "flex_ok b" and "holds b us" and "blk_free b + blk_tuple_size b < 2 ^ 31"
    and "length t = blk_tuple_size b"
  shows "\<exists>b'. storeTupleOK False junk b t = Some b' \<and> flex_ok b' \<and> holds b' (us @ [t])
    \<and> blk_tuple_size b' = blk_tuple_size b"
proof -
  from grow_spec [OF assms(1-3)] obtain d b' where b': "grow junk b = Some (d, b')" "flex_ok b'"
    "holds b' us" "allocateTuple b' = Some d" "blk_tuple_size b' = blk_tuple_size b" by blast
  then show ?thesis using assms(4)
    by (auto simp: storeTupleOK_def storeTuple_def allocateTuple_def flex_ok_def holds_def rd_bytes_def
        wr_bytes_def split: if_splits)
qed

lemma persist_holds:
  assumes "flex_ok b" and "holds b us"
  shows "persist b = Some (concat us)"
  using assms by (auto simp: persist_def rd_bytes_def flex_ok_def holds_def)

section \<open>Replacement selection\<close>

text \<open>
  A run in progress: the heap holds \<open>w\<close> tuples of the current run, \<open>us\<close> have been written out
  in order, and nothing in the heap is below any of them.
\<close>

definition running :: "Schema \<Rightarrow> SortOrderRef list \<Rightarrow> heap \<Rightarrow> nat \<Rightarrow> bytes list \<Rightarrow> bool" where
  "running s vs h w us \<longleftrightarrow> hp_waterline h = Some w \<and> 1 \<le> w
     \<and> cmpr.filled s vs w (hp_array h) \<and> cmpr.heap_from s vs 0 w (hp_array h)
     \<and> flex_ok (hp_flex h) \<and> holds (hp_flex h) us
     \<and> (\<forall>j < w. length (cmpr.at (hp_array h) j) = blk_tuple_size (hp_flex h))
     \<and> (\<forall>u \<in> set us. sortable s vs u)
     \<and> sorted_wrt (cmpr.le s vs) us \<and> (\<forall>u \<in> set us. \<forall>j < w. cmpr.le s vs u (cmpr.at (hp_array h) j))"

lemma take_mset_at:
  assumes "mset (take w a) = mset (take w b)" and "w \<le> length a" and "j < w"
  shows "\<exists>i < w. the (a ! j) = the (b ! i)"
proof -
  have "a ! j = take w a ! j" "j < length (take w a)" using assms by auto
  then have "a ! j \<in> set (take w a)" by (metis nth_mem)
  then have "a ! j \<in> set (take w b)" using assms(1) by (metis set_mset_mset)
  then obtain i where "i < w" "a ! j = b ! i" by (auto simp: in_set_conv_nth)
  then show ?thesis by auto
qed

text \<open>Sifting a new root down keeps every property that holds of all entries.\<close>

lemma sift_root:
  assumes "cmpr.filled s vs w a" and "cmpr.heap_from s vs 0 w a" and "0 < v" "v \<le> w"
    and "length b = length a" and "b ! 0 = Some t" and "sortable s vs t"
    and "\<And>j. 0 < j \<Longrightarrow> j < v \<Longrightarrow> b ! j = a ! j"
    and P: "P t" "\<And>j. j < w \<Longrightarrow> P (cmpr.at a j)"
  shows "\<exists>c. heap_again (Comparator_compare s vs) 0 v b = Some c \<and> cmpr.filled s vs v c
    \<and> cmpr.heap_from s vs 0 v c \<and> length c = length a \<and> mset (take v c) = mset (take v b)
    \<and> drop v c = drop v b \<and> (\<forall>j < v. P (cmpr.at c j))"
proof -
  have b: "\<exists>x. b ! j = Some x \<and> sortable s vs x \<and> P x" if "j < v" for j
  proof (cases "j = 0")
    case False
    then have "b ! j = a ! j" "j < w" using assms(4,8) that by auto
    then show ?thesis using cmpr.filled_get [OF assms(1) \<open>j < w\<close>] P(2) [of j] by auto
  qed (use assms(6,7) P in auto)
  then have f: "cmpr.filled s vs v b" using assms(1,4,5) by (auto simp: cmpr.filled_def)
  from cmpr.heap_again_hole [OF f cmpr.heap_hole_root [OF assms(2,4,8)] assms(3)]
  obtain c where c: "heap_again (Comparator_compare s vs) 0 v b = Some c" "cmpr.filled s vs v c"
    "cmpr.heap_from s vs 0 v c" "length c = length b" "mset (take v c) = mset (take v b)" "drop v c = drop v b"
    by blast
  have "P (cmpr.at c j)" if j: "j < v" for j
  proof -
    from take_mset_at [OF c(5) _ j] obtain i where "i < v" "the (c ! j) = the (b ! i)"
      using c(2) by (auto simp: cmpr.filled_def)
    then show ?thesis using b [of i] by (auto simp: cmpr.at_def)
  qed
  then show ?thesis using c assms(5) by auto
qed

lemma running_store:
  assumes R: "running s vs h w us" and "blk_free (hp_flex h) + blk_tuple_size (hp_flex h) < 2 ^ 31"
  defines "tp \<equiv> cmpr.at (hp_array h) 0"
  shows "\<exists>fb. storeTupleOK False junk (hp_flex h) tp = Some fb \<and> flex_ok fb \<and> holds fb (us @ [tp])
      \<and> blk_tuple_size fb = blk_tuple_size (hp_flex h)"
    and "heap_get_top h = Some tp" and "sortable s vs tp" and "sorted_wrt (cmpr.le s vs) (us @ [tp])"
    and "\<And>j. j < w \<Longrightarrow> \<forall>u \<in> set (us @ [tp]). cmpr.le s vs u (cmpr.at (hp_array h) j)"
proof -
  note r = R [unfolded running_def]
  have w: "0 < w" using r by auto
  show "\<exists>fb. storeTupleOK False junk (hp_flex h) tp = Some fb \<and> flex_ok fb \<and> holds fb (us @ [tp])
      \<and> blk_tuple_size fb = blk_tuple_size (hp_flex h)"
    using r w assms(2) by (intro storeTupleOK_spec) (auto simp: tp_def)
  show "heap_get_top h = Some tp" "sortable s vs tp"
    using cmpr.filled_get [of s vs w "hp_array h" 0] r w by (auto simp: heap_get_top_def tp_def)
  show "sorted_wrt (cmpr.le s vs) (us @ [tp])" using r w by (auto simp: sorted_wrt_append tp_def)
  show "\<forall>u \<in> set (us @ [tp]). cmpr.le s vs u (cmpr.at (hp_array h) j)" if "j < w" for j
    using r that cmpr.heap_root_least [of s vs w "hp_array h" j] by (auto simp: tp_def)
qed

text \<open>The two ways \<open>heap_adjust\<close> continues a run: with a new root, or with a smaller heap.\<close>

lemma running_sift:
  assumes R: "running s vs h w us" and b: "0 < v" "v \<le> w" "length b = length (hp_array h)" "b ! 0 = Some x"
      "\<And>j. 0 < j \<Longrightarrow> j < v \<Longrightarrow> b ! j = hp_array h ! j"
    and x: "sortable s vs x" "length x = blk_tuple_size (hp_flex h)"
      "\<forall>u \<in> set (us @ [cmpr.at (hp_array h) 0]). cmpr.le s vs u x"
    and fb: "flex_ok fb" "holds fb (us @ [cmpr.at (hp_array h) 0])" "blk_tuple_size fb = blk_tuple_size (hp_flex h)"
    and small: "blk_free (hp_flex h) + blk_tuple_size (hp_flex h) < 2 ^ 31"
  shows "\<exists>c. heap_again (Comparator_compare s vs) 0 v b = Some c \<and> drop v c = drop v b \<and> mset c = mset b
    \<and> running s vs (h\<lparr>hp_flex := fb, hp_waterline := Some v, hp_array := c\<rparr>) v (us @ [cmpr.at (hp_array h) 0])"
proof -
  note r = R [unfolded running_def] and st = running_store [OF R small]
  let ?P = "\<lambda>y. length y = blk_tuple_size (hp_flex h) \<and> (\<forall>u \<in> set (us @ [cmpr.at (hp_array h) 0]). cmpr.le s vs u y)"
  have "\<exists>c. heap_again (Comparator_compare s vs) 0 v b = Some c \<and> cmpr.filled s vs v c
    \<and> cmpr.heap_from s vs 0 v c \<and> length c = length (hp_array h) \<and> mset (take v c) = mset (take v b)
    \<and> drop v c = drop v b \<and> (\<forall>j < v. ?P (cmpr.at c j))"
  proof (rule sift_root [where w = w and t = x])
    show "?P (cmpr.at (hp_array h) j)" if "j < w" for j using r st(5) [OF that] that by auto
  qed (use r b x in auto)
  then obtain c where c: "heap_again (Comparator_compare s vs) 0 v b = Some c" "cmpr.filled s vs v c"
    "cmpr.heap_from s vs 0 v c" "mset (take v c) = mset (take v b)" "drop v c = drop v b" "\<forall>j < v. ?P (cmpr.at c j)" by blast
  have "mset c = mset b" using c(4,5) by (metis append_take_drop_id mset_append)
  moreover have "running s vs (h\<lparr>hp_flex := fb, hp_waterline := Some v, hp_array := c\<rparr>) v (us @ [cmpr.at (hp_array h) 0])"
    using c r st(3,4) fb b(1) by (auto simp: running_def)
  ultimately show ?thesis using c(1,5) by blast
qed

text \<open>Replacing the root, or the root by the last entry and that by \<open>t\<close>, exchanges the root for \<open>t\<close>.\<close>

lemma mset_exchange:
  assumes "j < length a" "a ! 0 = Some x"
  shows "add_mset (Some x) (mset (a[0 := Some t])) = add_mset (Some t) (mset a)"
    and "0 < j \<Longrightarrow> add_mset (Some x) (mset (a[0 := a ! j, j := Some t])) = add_mset (Some t) (mset a)"
proof -
  have l: "0 < length a" using assms(1) by linarith
  then have x: "Some x \<in># mset a" using assms(2) nth_mem by fastforce
  then show "add_mset (Some x) (mset (a[0 := Some t])) = add_mset (Some t) (mset a)"
    using l assms(2) by (simp add: mset_update)
  assume "0 < j"
  then show "add_mset (Some x) (mset (a[0 := a ! j, j := Some t])) = add_mset (Some t) (mset a)"
    using l x assms by (simp add: mset_update)
qed

section \<open>Properties\<close>

text \<open>
  C9. \<open>heap_sort\<close> builds a minimum heap: with \<open>waterline_\<close> tuples in \<open>array_\<close> it only permutes
  them, puts every parent before its children in the comparator's order, and so leaves a least
  tuple on top.
\<close>

theorem heap_sort_correct:
  assumes "hp_waterline h = Some w" and "w \<le> length (hp_array h)"
    and "\<And>j. j < w \<Longrightarrow> \<exists>t. hp_array h ! j = Some t \<and> sortable s vs t"
  shows "\<exists>h'. heap_sort (Comparator_compare s vs) h = Some h'
    \<and> mset (take w (hp_array h')) = mset (take w (hp_array h)) \<and> drop w (hp_array h') = drop w (hp_array h)
    \<and> (\<forall>j. 0 < j \<and> j < w \<longrightarrow> Comparator_compare s vs (the (hp_array h' ! ((j - 1) div 2))) (the (hp_array h' ! j)) = Some True)
    \<and> (\<forall>j < w. Comparator_compare s vs (the (hp_array h' ! 0)) (the (hp_array h' ! j)) = Some True)"
proof -
  have f: "cmpr.filled s vs w (hp_array h)" using assms by (auto simp: cmpr.filled_def)
  have "hs_rounds w \<le> w" by (auto simp: hs_rounds_def)
  from cmpr.heap_sort_loop_ok [OF f cmpr.heap_from_rounds this] obtain a where
    a: "heap_sort_loop (Comparator_compare s vs) (hs_rounds w) w (hp_array h) = Some a"
    "cmpr.filled s vs w a" "cmpr.heap_from s vs 0 w a"
    "mset (take w a) = mset (take w (hp_array h))" "drop w a = drop w (hp_array h)" by blast
  then show ?thesis
    using assms(1) cmpr.heap_root_least [OF a(2,3)]
    by (simp add: heap_sort_def cmpr.heap_from_def cmpr.le_def cmpr.at_def)
qed


text \<open>
  \<open>cleanup\<close> has no defined execution: its loop runs once more with \<open>waterline_ = 0\<close>, and
  that round reads \<open>array_[-1]\<close>.
\<close>

theorem cleanup_undefined: "cleanup strict junk cmp h = None"
proof -
  have "cleanup_loop strict junk cmp w a fb = None" for w a fb
    by (induction w arbitrary: a fb; subst cleanup_loop.simps) (auto simp: bind_iff)
  then show ?thesis by (auto simp: cleanup_def bind_iff Let_def)
qed

text \<open>A heap of two tuples in a run that has written nothing yet.\<close>

definition two_heap :: heap where
  "two_heap = \<lparr>hp_waterline = Some 2, hp_array = [Some (kv_tuple 1 5), Some (kv_tuple 2 9)],
     hp_flex = mk_Block (replicate 64 0) 16, hp_init_flag = True, hp_file_off = Some 0, hp_files = []\<rparr>"

definition by_key :: "SortOrderRef list" where
  "by_key = [\<lparr>so_offset = 0, so_direction = ascending\<rparr>]"

lemma sort_keys_kv: "sort_keys two_longs by_key 0 (kv_tuple v k) = Some [int (v mod 2 ^ 64)]"
proof -
  have s: "two_longs = \<lparr>sch_v_d = [UnLongType t_long, UnLongType t_long], sch_offset = [Some 0, Some 8], sch_bytes = 16\<rparr>"
    by code_simp
  show ?thesis
    by (simp add: s by_key_def get_addr_def getDataType_def kv_tuple_def rd_u64_def rd_bytes_def)
qed

lemma two_sortable: "sortable two_longs by_key (kv_tuple v k)"
  by (simp add: sortable_def sort_keys_kv)

lemma two_le: "cmpr.le two_longs by_key (kv_tuple v k) (kv_tuple v' k') \<longleftrightarrow> v mod 2 ^ 64 \<le> v' mod 2 ^ 64"
  using compare_from_lex [OF sort_keys_kv sort_keys_kv, of v k v' k']
  by (auto simp: cmpr.le_def Comparator_compare_def by_key_def)

lemma two_running: "running two_longs by_key two_heap 2 []"
proof -
  have j: "j = 0 \<or> j = 1" if "j < 2" for j :: nat using that by auto
  then have at: "cmpr.at (hp_array two_heap) j = (if j = 0 then kv_tuple 1 5 else kv_tuple 2 9)" if "j < 2" for j
    using that by (auto simp: two_heap_def cmpr.at_def)
  have "cmpr.heap_from two_longs by_key 0 2 (hp_array two_heap)"
    using at by (auto simp: cmpr.heap_from_def two_le)
  moreover have "cmpr.filled two_longs by_key 2 (hp_array two_heap)"
    using j two_sortable by (auto simp: cmpr.filled_def two_heap_def nth_Cons')
  ultimately show ?thesis using at by (simp add: running_def flex_ok_def) (simp add: two_heap_def)
qed

theorem heap_sort_correct_witness:
  "\<exists>h'. heap_sort (Comparator_compare two_longs by_key) two_heap = Some h'
    \<and> mset (take 2 (hp_array h')) = mset (take 2 (hp_array two_heap))"
proof -
  have "\<exists>t. hp_array two_heap ! j = Some t \<and> sortable two_longs by_key t" if "j < 2" for j
    using that two_sortable by (auto simp: two_heap_def less_2_cases_iff)
  then show ?thesis
    using heap_sort_correct [of two_heap 2 two_longs by_key] by (auto simp: two_heap_def)
qed


end
