(* ===== verification/Mosito_SqlNodes.thy ===== *)
theory Mosito_SqlNodes
  imports Mosito_Prelude
begin

text \<open>
  The syntax-tree nodes of \<^verbatim>\<open>sql/sql_node_struct.h\<close>: one record per C struct that the
  parser allocates, and the node type that a \<open>Node *\<close> is cast to after reading its \<open>type\<close>.

  A \<open>Node *\<close> is an address or the null pointer (\<open>ptr\<close>), a \<open>char *\<close> a string or the null
  pointer (\<open>cstr\<close>); a \<open>double\<close> is kept as its 64 bits.
\<close>

type_synonym ptr = "nat option"
type_synonym cstr = "string option"

datatype (plugins only:) nodetype =
    t_none | t_name | t_uservar | t_name_name | t_stringval | t_intnum
  | t_approxnum | t_bool | t_dateval | t_timeval | t_datatimeval | t_table
  | t_column | t_join | t_subquery | t_condition | t_query_stmt | t_stmt
  | t_do_stmt | t_truncate_stmt | t_select_list | t_select_opts | t_select_expr | t_expr_list_header
  | t_expr | t_expr_list | t_expr_cal | t_expr_func | t_expr_relation | t_from_list
  | t_from_expr | t_from_table | t_where_list | t_groupby_list | t_groupby_expr | t_having_list
  | t_orderby_list | t_orderby_expr | t_limit_list | t_limit_expr | t_insert_stmt | t_insert_val_list
  | t_insert_vals | t_insert_assign | t_create_database_stmt | t_create_table_stmt | t_create_col_list | t_create_def
  | t_create_projection_stmt | t_alter_database_stmt | t_alter_table_stmt | t_alter_def | t_create_select_stmt | t_column_atts
  | t_opt_csc | t_datatype | t_length | t_enum_list | t_create_index_stmt | t_index_col_list
  | t_drop_index | t_drop_database_stmt | t_drop_table_stmt | t_table_list | t_load_table_stmt | t_show_stmt

record Stmt =
  Stmt_type :: nodetype
  Stmt_data :: ptr
  Stmt_next :: ptr
  Stmt_last :: ptr

record Expr =
  Expr_type :: nodetype
  Expr_data :: cstr

record Expr_list_header =
  Expr_list_header_type :: nodetype
  Expr_list_header_header :: ptr
  Expr_list_header_tail :: ptr

record Expr_list =
  Expr_list_type :: nodetype
  Expr_list_data :: ptr
  Expr_list_next :: ptr

record Columns =
  Columns_type :: nodetype
  Columns_parameter1 :: cstr
  Columns_parameter2 :: cstr
  Columns_next :: ptr

record Expr_cal =
  Expr_cal_type :: nodetype
  Expr_cal_str :: cstr
  Expr_cal_sign :: cstr
  Expr_cal_parameter :: cstr
  Expr_cal_cmp :: int
  Expr_cal_lnext :: ptr
  Expr_cal_rnext :: ptr

record Expr_func =
  Expr_func_type :: nodetype
  Expr_func_str :: cstr
  Expr_func_funname :: cstr
  Expr_func_args :: ptr
  Expr_func_parameter1 :: ptr
  Expr_func_parameter2 :: ptr
  Expr_func_next :: ptr

record Table =
  Table_type :: nodetype
  Table_dbname :: cstr
  Table_tablename :: cstr
  Table_astablename :: cstr
  Table_issubquery :: int
  Table_subquery :: ptr
  Table_whcdn :: ptr

record Join =
  Join_type :: nodetype
  Join_jointype :: int
  Join_lnext :: ptr
  Join_rnext :: ptr
  Join_condition :: ptr

record Condition =
  Condition_type :: nodetype
  Condition_conditiontype :: int
  Condition_args :: ptr

record Subquery =
  Subquery_type :: nodetype
  Subquery_querystring :: cstr
  Subquery_next :: ptr

record Query_stmt =
  Query_stmt_type :: nodetype
  Query_stmt_querystring :: cstr
  Query_stmt_select_opts :: int
  Query_stmt_select_list :: ptr
  Query_stmt_from_list :: ptr
  Query_stmt_where_list :: ptr
  Query_stmt_groupby_list :: ptr
  Query_stmt_having_list :: ptr
  Query_stmt_orderby_list :: ptr
  Query_stmt_limit_list :: ptr
  Query_stmt_into_list :: ptr

record Select_list =
  Select_list_type :: nodetype
  Select_list_isall :: int
  Select_list_args :: ptr
  Select_list_next :: ptr

record Select_expr =
  Select_expr_type :: nodetype
  Select_expr_ascolname :: cstr
  Select_expr_colname :: ptr

record From_list =
  From_list_type :: nodetype
  From_list_args :: ptr
  From_list_next :: ptr
  From_list_whcdn :: ptr

record From_expr =
  From_expr_type :: nodetype
  From_expr_astablename :: cstr
  From_expr_next :: ptr

record Where_list =
  Where_list_type :: nodetype
  Where_list_wherestring :: cstr
  Where_list_next :: ptr

record Groupby_list =
  Groupby_list_type :: nodetype
  Groupby_list_groupbystring :: cstr
  Groupby_list_next :: ptr
  Groupby_list_with_rollup :: int

record Groupby_expr =
  Groupby_expr_type :: nodetype
  Groupby_expr_args :: ptr
  Groupby_expr_sorttype :: int
  Groupby_expr_next :: ptr

record Having_list =
  Having_list_type :: nodetype
  Having_list_havingstring :: cstr
  Having_list_next :: ptr

record Orderby_list =
  Orderby_list_type :: nodetype
  Orderby_list_orderbystring :: cstr
  Orderby_list_next :: ptr

record Orderby_expr =
  Orderby_expr_type :: nodetype
  Orderby_expr_args :: ptr
  Orderby_expr_sorttype :: cstr
  Orderby_expr_next :: ptr

record Limit_expr =
  Limit_expr_type :: nodetype
  Limit_expr_offset :: ptr
  Limit_expr_row_count :: ptr

record Insert_stmt =
  Insert_stmt_type :: nodetype
  Insert_stmt_insert_opt :: int
  Insert_stmt_tablename :: cstr
  Insert_stmt_col_list :: ptr
  Insert_stmt_insert_val_list :: ptr
  Insert_stmt_insert_assign_list :: ptr
  Insert_stmt_insert_assign_list_from_set :: ptr
  Insert_stmt_select_stmt :: ptr

record Insert_val_list =
  Insert_val_list_type :: nodetype
  Insert_val_list_insert_vals :: ptr
  Insert_val_list_next :: ptr

record Insert_vals =
  Insert_vals_type :: nodetype
  Insert_vals_value_type :: int
  Insert_vals_expr :: ptr
  Insert_vals_next :: ptr

record Insert_assign_list =
  Insert_assign_list_type :: nodetype
  Insert_assign_list_col_name :: cstr
  Insert_assign_list_value_type :: int
  Insert_assign_list_expr :: ptr
  Insert_assign_list_next :: ptr

record Create_database_stmt =
  Create_database_stmt_type :: nodetype
  Create_database_stmt_create_type :: int
  Create_database_stmt_check :: int
  Create_database_stmt_name :: cstr

record Create_table_stmt =
  Create_table_stmt_type :: nodetype
  Create_table_stmt_create_type :: int
  Create_table_stmt_check :: int
  Create_table_stmt_name1 :: cstr
  Create_table_stmt_name2 :: cstr
  Create_table_stmt_list :: ptr
  Create_table_stmt_select_stmt :: ptr

record Create_col_list =
  Create_col_list_type :: nodetype
  Create_col_list_data :: ptr
  Create_col_list_next :: ptr

record Create_def =
  Create_def_type :: nodetype
  Create_def_deftype :: int
  Create_def_name :: cstr
  Create_def_datatype :: ptr
  Create_def_col_atts :: ptr
  Create_def_col_list :: ptr

record Column_atts =
  Column_atts_type :: nodetype
  Column_atts_datatype :: int
  Column_atts_num1 :: int
  Column_atts_num2 :: "nat"
  Column_atts_s :: cstr
  Column_atts_col_list :: ptr

record Create_select_stmt =
  Create_select_stmt_type :: nodetype
  Create_select_stmt_ignore_replace :: int
  Create_select_stmt_temporary :: int
  Create_select_stmt_select_stmt :: ptr

record Create_projection_stmt =
  Create_projection_stmt_type :: nodetype
  Create_projection_stmt_tablename :: cstr
  Create_projection_stmt_column_list :: ptr
  Create_projection_stmt_partition_num :: int
  Create_projection_stmt_partition_attribute_name :: cstr

record Do_stmt =
  Do_stmt_type :: nodetype
  Do_stmt_data :: ptr

record Truncate_stmt =
  Truncate_stmt_type :: nodetype
  Truncate_stmt_name :: cstr

record Alterdatabase_stmt =
  Alterdatabase_stmt_type :: nodetype
  Alterdatabase_stmt_createtype :: int
  Alterdatabase_stmt_name :: cstr
  Alterdatabase_stmt_opt :: ptr

record Opt_csc =
  Opt_csc_type :: nodetype
  Opt_csc_datatype :: int
  Opt_csc_s1 :: cstr
  Opt_csc_s2 :: cstr

record Altertable_stmt =
  Altertable_stmt_type :: nodetype
  Altertable_stmt_isignore :: int
  Altertable_stmt_name :: cstr
  Altertable_stmt_parameter :: ptr

record Alter_def =
  Alter_def_type :: nodetype
  Alter_def_altertype :: int
  Alter_def_name1 :: cstr
  Alter_def_name2 :: cstr
  Alter_def_datatype :: int
  Alter_def_coltype :: int
  Alter_def_parameter :: ptr
  Alter_def_next :: ptr

record Createindex_stmt =
  Createindex_stmt_type :: nodetype
  Createindex_stmt_index_att :: int
  Createindex_stmt_index_name :: cstr
  Createindex_stmt_index_type :: int
  Createindex_stmt_table_name :: cstr
  Createindex_stmt_index_col_name :: ptr

record Index_col_list =
  Index_col_list_type :: nodetype
  Index_col_list_name :: cstr
  Index_col_list_length :: ptr
  Index_col_list_asc_desc :: int
  Index_col_list_next :: ptr

record Dropindex_stmt =
  Dropindex_stmt_type :: nodetype
  Dropindex_stmt_index_name :: cstr
  Dropindex_stmt_table_name :: cstr

record Dropdatabase_stmt =
  Dropdatabase_stmt_type :: nodetype
  Dropdatabase_stmt_droptype :: int
  Dropdatabase_stmt_check :: int
  Dropdatabase_stmt_name :: cstr

record Droptable_stmt =
  Droptable_stmt_type :: nodetype
  Droptable_stmt_is_temp :: int
  Droptable_stmt_is_check :: int
  Droptable_stmt_option_rc :: int
  Droptable_stmt_table_list :: ptr

record Tablelist =
  Tablelist_type :: nodetype
  Tablelist_name1 :: cstr
  Tablelist_name2 :: cstr
  Tablelist_next :: ptr

record Loadtable_stmt =
  Loadtable_stmt_type :: nodetype
  Loadtable_stmt_table_name :: cstr
  Loadtable_stmt_path :: ptr
  Loadtable_stmt_column_separator :: cstr
  Loadtable_stmt_tuple_separator :: cstr

record Datatype =
  Datatype_type :: nodetype
  Datatype_datatype :: int
  Datatype_length :: ptr
  Datatype_opt_uz :: int
  Datatype_opt_csc :: ptr
  Datatype_isbinary :: int
  Datatype_enum_list :: ptr

record Length =
  Length_type :: nodetype
  Length_data1 :: int
  Length_data2 :: int

record enum_list =
  enum_list_type :: nodetype
  enum_list_s :: cstr
  enum_list_next :: ptr

record Show_stmt =
  Show_stmt_type :: nodetype
  Show_stmt_full :: bool
  Show_stmt_show_type :: int
  Show_stmt_database_name :: cstr
  Show_stmt_like_string :: cstr

datatype (plugins only:) snode =
    Stmt_node Stmt
  | Expr_node Expr
  | Expr_list_header_node Expr_list_header
  | Expr_list_node Expr_list
  | Columns_node Columns
  | Expr_cal_node Expr_cal
  | Expr_func_node Expr_func
  | Table_node Table
  | Join_node Join
  | Condition_node Condition
  | Subquery_node Subquery
  | Query_stmt_node Query_stmt
  | Select_list_node Select_list
  | Select_expr_node Select_expr
  | From_list_node From_list
  | From_expr_node From_expr
  | Where_list_node Where_list
  | Groupby_list_node Groupby_list
  | Groupby_expr_node Groupby_expr
  | Having_list_node Having_list
  | Orderby_list_node Orderby_list
  | Orderby_expr_node Orderby_expr
  | Limit_expr_node Limit_expr
  | Insert_stmt_node Insert_stmt
  | Insert_val_list_node Insert_val_list
  | Insert_vals_node Insert_vals
  | Insert_assign_list_node Insert_assign_list
  | Create_database_stmt_node Create_database_stmt
  | Create_table_stmt_node Create_table_stmt
  | Create_col_list_node Create_col_list
  | Create_def_node Create_def
  | Column_atts_node Column_atts
  | Create_select_stmt_node Create_select_stmt
  | Create_projection_stmt_node Create_projection_stmt
  | Do_stmt_node Do_stmt
  | Truncate_stmt_node Truncate_stmt
  | Alterdatabase_stmt_node Alterdatabase_stmt
  | Opt_csc_node Opt_csc
  | Altertable_stmt_node Altertable_stmt
  | Alter_def_node Alter_def
  | Createindex_stmt_node Createindex_stmt
  | Index_col_list_node Index_col_list
  | Dropindex_stmt_node Dropindex_stmt
  | Dropdatabase_stmt_node Dropdatabase_stmt
  | Droptable_stmt_node Droptable_stmt
  | Tablelist_node Tablelist
  | Loadtable_stmt_node Loadtable_stmt
  | Datatype_node Datatype
  | Length_node Length
  | enum_list_node enum_list
  | Show_stmt_node Show_stmt

end
