(* ===== verification/Mosito_Sql.thy ===== *)
theory Mosito_Sql
  imports Mosito_SqlNodes
begin

text \<open>
  \<^verbatim>\<open>sql/function.cpp\<close>: the constructors the grammar calls, the registry \<open>NodePointer\<close>, and
  \<open>FreeAllNode\<close>.

  The C heap is a partial map from addresses to nodes; addresses are never reused. \<open>sq_room\<close> is
  the number of \<open>malloc\<close> calls that still succeed: with none left a constructor prints an error
  and exits (\<open>OutOfSpace\<close>). \<open>Undefined\<close> is undefined behaviour (a null or dangling pointer, a
  cast to the wrong struct). Standard output is collected in \<open>sq_out\<close>.
\<close>

section \<open>The heap\<close>

datatype sql_error = OutOfSpace | Undefined | NoFuel

record sql_state =
  sq_mem :: "nat \<Rightarrow> snode option"
  sq_next :: nat
  sq_room :: nat
  sq_NodePointer :: "nat list"
  sq_out :: string

type_synonym sql_res = "sql_error + (ptr \<times> sql_state)"

definition nl :: string where
  "nl = [char_of (10 :: nat)]"

definition sq_print :: "string \<Rightarrow> sql_state \<Rightarrow> sql_state" where
  "sq_print s st = st\<lparr>sq_out := sq_out st @ s\<rparr>"

definition sq_alloc :: "snode \<Rightarrow> sql_state \<Rightarrow> nat \<times> sql_state" where
  "sq_alloc nd st = (sq_next st,
     st\<lparr>sq_mem := (sq_mem st)(sq_next st \<mapsto> nd), sq_next := Suc (sq_next st), sq_room := sq_room st - 1\<rparr>)"

definition insertNodePointer :: "nat \<Rightarrow> sql_state \<Rightarrow> sql_state" where
  "insertNodePointer a st = st\<lparr>sq_NodePointer := sq_NodePointer st @ [a]\<rparr>"

text \<open>
  The course every constructor repeats: allocate, fill in, register. It is not a function of the source, but
  the body of the constructors below, each of which gives it the fields it fills in.
\<close>

definition new_node :: "snode \<Rightarrow> sql_state \<Rightarrow> sql_res" where
  "new_node nd st =
     (if sq_room st = 0 then Inl OutOfSpace
      else case sq_alloc nd st of (a, st') \<Rightarrow> Inr (Some a, insertNodePointer a st'))"

fun as_Stmt :: "snode \<Rightarrow> Stmt option" where
  "as_Stmt (Stmt_node s) = Some s"
| "as_Stmt _ = None"

section \<open>Constructors\<close>

text \<open>
  \<open>newStmt\<close>. A node appended to a list is linked but not registered in \<open>NodePointer\<close>; only the
  \<open>last\<close> field of the list's first node is kept up to date.
\<close>

definition newStmt :: "nodetype \<Rightarrow> ptr \<Rightarrow> ptr \<Rightarrow> sql_state \<Rightarrow> sql_res" where
  "newStmt t list' newNode st =
     (if sq_room st = 0 then Inl OutOfSpace
      else case sq_alloc (Stmt_node \<lparr>Stmt_type = t, Stmt_data = newNode, Stmt_next = None,
             Stmt_last = Some (sq_next st)\<rparr>) st of
        (a, st1) \<Rightarrow>
          (case list' of
             None \<Rightarrow> Inr (Some a, insertNodePointer a st1)
           | Some l \<Rightarrow>
               (case Option.bind (sq_mem st1 l) as_Stmt of
                  None \<Rightarrow> Inl Undefined
                | Some h \<Rightarrow>
                    (case Option.bind (Stmt_last h) (\<lambda>e. Option.bind (sq_mem st1 e) as_Stmt) of
                       None \<Rightarrow> Inl Undefined
                     | Some z \<Rightarrow>
                         let e = the (Stmt_last h);
                             m1 = (sq_mem st1)(e \<mapsto> Stmt_node (z\<lparr>Stmt_next := Some a\<rparr>));
                             h1 = (if e = l then z\<lparr>Stmt_next := Some a\<rparr> else h);
                             m2 = m1(l \<mapsto> Stmt_node (h1\<lparr>Stmt_last := Some a\<rparr>))
                         in Inr (Some l, st1\<lparr>sq_mem := m2\<rparr>)))))"

definition newExpr :: "nodetype \<Rightarrow> cstr \<Rightarrow> sql_state \<Rightarrow> sql_res" where
  "newExpr t d = new_node (Expr_node
     \<lparr>Expr_type = t, Expr_data = d\<rparr>)"

definition newExprList :: "nodetype \<Rightarrow> ptr \<Rightarrow> ptr \<Rightarrow> sql_state \<Rightarrow> sql_res" where
  "newExprList t data next' = new_node (Expr_list_node
     \<lparr>Expr_list_type = t, Expr_list_data = data, Expr_list_next = next'\<rparr>)"

definition newColumn :: "nodetype \<Rightarrow> cstr \<Rightarrow> cstr \<Rightarrow> ptr \<Rightarrow> sql_state \<Rightarrow> sql_res" where
  "newColumn t parameter1 parameter2 next' = new_node (Columns_node
     \<lparr>Columns_type = t, Columns_parameter1 = parameter1,
       Columns_parameter2 = parameter2, Columns_next = next'\<rparr>)"

definition newExprCal :: "nodetype \<Rightarrow> cstr \<Rightarrow> cstr \<Rightarrow> int \<Rightarrow> ptr \<Rightarrow> ptr \<Rightarrow> sql_state \<Rightarrow> sql_res" where
  "newExprCal type sign parameter cmp lnext rnext = new_node (Expr_cal_node
     \<lparr>Expr_cal_type = type, Expr_cal_str = Some '''', Expr_cal_sign = sign,
       Expr_cal_parameter = parameter, Expr_cal_cmp = cmp, Expr_cal_lnext = lnext,
       Expr_cal_rnext = rnext\<rparr>)"

definition newExprFunc :: "nodetype \<Rightarrow> cstr \<Rightarrow> ptr \<Rightarrow> ptr \<Rightarrow> ptr \<Rightarrow> ptr \<Rightarrow> sql_state \<Rightarrow> sql_res" where
  "newExprFunc type funname args parameter1 parameter2 next' = new_node (Expr_func_node
     \<lparr>Expr_func_type = type, Expr_func_str = Some '''', Expr_func_funname = funname,
       Expr_func_args = args, Expr_func_parameter1 = parameter1,
       Expr_func_parameter2 = parameter2, Expr_func_next = next'\<rparr>)"

text \<open>\<open>newExprlistheader\<close> does not check \<open>malloc\<close> and does not register its node.\<close>

definition newExprlistheader :: "nodetype \<Rightarrow> ptr \<Rightarrow> ptr \<Rightarrow> sql_state \<Rightarrow> sql_res" where
  "newExprlistheader type header tail st =
     (if sq_room st = 0 then Inl Undefined
      else case sq_alloc (Expr_list_header_node
             \<lparr>Expr_list_header_type = t_expr_list_header, Expr_list_header_header = header,
              Expr_list_header_tail = tail\<rparr>) st of
             (a, st') \<Rightarrow> Inr (Some a, st'))"

text \<open>
  A node with a fresh condition header: the node is allocated, then its header, then the node is
  registered. \<open>mk w\<close> is the node with \<open>whcdn = w\<close>.
\<close>

definition new_with_header :: "(ptr \<Rightarrow> snode) \<Rightarrow> sql_state \<Rightarrow> sql_res" where
  "new_with_header mk st =
     (if sq_room st = 0 then Inl OutOfSpace
      else case sq_alloc (mk None) st of
        (a, st1) \<Rightarrow>
          (case newExprlistheader t_expr_list_header None None st1 of
             Inl e \<Rightarrow> Inl e
           | Inr (w, st2) \<Rightarrow>
               Inr (Some a, insertNodePointer a (st2\<lparr>sq_mem := (sq_mem st2)(a \<mapsto> mk w)\<rparr>))))"

definition newTable :: "nodetype \<Rightarrow> cstr \<Rightarrow> cstr \<Rightarrow> cstr \<Rightarrow> int \<Rightarrow> ptr \<Rightarrow> sql_state \<Rightarrow> sql_res" where
  "newTable type dbname tablename astablename issubquery subquery = new_with_header (\<lambda>w. Table_node
     \<lparr>Table_type = type, Table_dbname = dbname, Table_tablename = tablename,
      Table_astablename = astablename, Table_issubquery = issubquery, Table_subquery = subquery,
      Table_whcdn = w\<rparr>)"

definition newJoin :: "nodetype \<Rightarrow> int \<Rightarrow> ptr \<Rightarrow> ptr \<Rightarrow> ptr \<Rightarrow> sql_state \<Rightarrow> sql_res" where
  "newJoin type jointype lnext rnext condition = new_node (Join_node
     \<lparr>Join_type = type, Join_jointype = jointype, Join_lnext = lnext,
       Join_rnext = rnext, Join_condition = condition\<rparr>)"

definition newCondition :: "nodetype \<Rightarrow> int \<Rightarrow> ptr \<Rightarrow> sql_state \<Rightarrow> sql_res" where
  "newCondition type conditiontype args = new_node (Condition_node
     \<lparr>Condition_type = type, Condition_conditiontype = conditiontype,
       Condition_args = args\<rparr>)"

definition newSubquery :: "nodetype \<Rightarrow> cstr \<Rightarrow> ptr \<Rightarrow> sql_state \<Rightarrow> sql_res" where
  "newSubquery type querystring next' = new_node (Subquery_node
     \<lparr>Subquery_type = type, Subquery_querystring = querystring, Subquery_next = next'\<rparr>)"

definition newQueryStmt :: "nodetype \<Rightarrow> cstr \<Rightarrow> int \<Rightarrow> ptr \<Rightarrow> ptr \<Rightarrow> ptr \<Rightarrow> ptr \<Rightarrow> ptr \<Rightarrow> ptr \<Rightarrow> ptr \<Rightarrow> ptr \<Rightarrow> sql_state \<Rightarrow> sql_res" where
  "newQueryStmt t querystring select_opts select_list from_list where_list groupby_list having_list orderby_list limit_list into_list = new_node (Query_stmt_node
     \<lparr>Query_stmt_type = t, Query_stmt_querystring = querystring,
       Query_stmt_select_opts = select_opts, Query_stmt_select_list = select_list,
       Query_stmt_from_list = from_list, Query_stmt_where_list = where_list,
       Query_stmt_groupby_list = groupby_list, Query_stmt_having_list = having_list,
       Query_stmt_orderby_list = orderby_list, Query_stmt_limit_list = limit_list,
       Query_stmt_into_list = into_list\<rparr>)"

definition newSelectList :: "nodetype \<Rightarrow> int \<Rightarrow> ptr \<Rightarrow> ptr \<Rightarrow> sql_state \<Rightarrow> sql_res" where
  "newSelectList type isall args next' = new_node (Select_list_node
     \<lparr>Select_list_type = type, Select_list_isall = isall, Select_list_args = args,
       Select_list_next = next'\<rparr>)"

definition newSelectExpr :: "nodetype \<Rightarrow> cstr \<Rightarrow> ptr \<Rightarrow> sql_state \<Rightarrow> sql_res" where
  "newSelectExpr type ascolname colname = new_node (Select_expr_node
     \<lparr>Select_expr_type = type, Select_expr_ascolname = ascolname,
       Select_expr_colname = colname\<rparr>)"

definition newFromList :: "nodetype \<Rightarrow> ptr \<Rightarrow> ptr \<Rightarrow> sql_state \<Rightarrow> sql_res" where
  "newFromList type args next' = new_with_header (\<lambda>w. From_list_node
     \<lparr>From_list_type = type, From_list_args = args, From_list_next = next', From_list_whcdn = w\<rparr>)"

definition newFromExpr :: "nodetype \<Rightarrow> cstr \<Rightarrow> ptr \<Rightarrow> sql_state \<Rightarrow> sql_res" where
  "newFromExpr type astablename next' = new_node (From_expr_node
     \<lparr>From_expr_type = type, From_expr_astablename = astablename,
       From_expr_next = next'\<rparr>)"

definition newWhereList :: "nodetype \<Rightarrow> cstr \<Rightarrow> ptr \<Rightarrow> sql_state \<Rightarrow> sql_res" where
  "newWhereList type wherestring next' = new_node (Where_list_node
     \<lparr>Where_list_type = type, Where_list_wherestring = wherestring,
       Where_list_next = next'\<rparr>)"

definition newGroupbyList :: "nodetype \<Rightarrow> cstr \<Rightarrow> ptr \<Rightarrow> int \<Rightarrow> sql_state \<Rightarrow> sql_res" where
  "newGroupbyList type groupbystring next' with_rollup = new_node (Groupby_list_node
     \<lparr>Groupby_list_type = type, Groupby_list_groupbystring = groupbystring,
       Groupby_list_next = next', Groupby_list_with_rollup = with_rollup\<rparr>)"

definition newGroupbyExpr :: "nodetype \<Rightarrow> ptr \<Rightarrow> int \<Rightarrow> ptr \<Rightarrow> sql_state \<Rightarrow> sql_res" where
  "newGroupbyExpr type args sorttype next' = new_node (Groupby_expr_node
     \<lparr>Groupby_expr_type = type, Groupby_expr_args = args,
       Groupby_expr_sorttype = sorttype, Groupby_expr_next = next'\<rparr>)"

definition newHavingList :: "nodetype \<Rightarrow> cstr \<Rightarrow> ptr \<Rightarrow> sql_state \<Rightarrow> sql_res" where
  "newHavingList type havingstring next' = new_node (Having_list_node
     \<lparr>Having_list_type = type, Having_list_havingstring = havingstring,
       Having_list_next = next'\<rparr>)"

definition newOrderbyList :: "nodetype \<Rightarrow> cstr \<Rightarrow> ptr \<Rightarrow> sql_state \<Rightarrow> sql_res" where
  "newOrderbyList type orderbystring next' = new_node (Orderby_list_node
     \<lparr>Orderby_list_type = type, Orderby_list_orderbystring = orderbystring,
       Orderby_list_next = next'\<rparr>)"

definition newOrderbyExpr :: "nodetype \<Rightarrow> ptr \<Rightarrow> cstr \<Rightarrow> ptr \<Rightarrow> sql_state \<Rightarrow> sql_res" where
  "newOrderbyExpr type args sorttype next' = new_node (Orderby_expr_node
     \<lparr>Orderby_expr_type = type, Orderby_expr_args = args,
       Orderby_expr_sorttype = sorttype, Orderby_expr_next = next'\<rparr>)"

definition newLimitExpr :: "nodetype \<Rightarrow> ptr \<Rightarrow> ptr \<Rightarrow> sql_state \<Rightarrow> sql_res" where
  "newLimitExpr type offset row_count = new_node (Limit_expr_node
     \<lparr>Limit_expr_type = type, Limit_expr_offset = offset,
       Limit_expr_row_count = row_count\<rparr>)"

definition newInsertStmt :: "int \<Rightarrow> cstr \<Rightarrow> ptr \<Rightarrow> ptr \<Rightarrow> ptr \<Rightarrow> ptr \<Rightarrow> ptr \<Rightarrow> sql_state \<Rightarrow> sql_res" where
  "newInsertStmt insert_opt tablename col_list insert_val_list insert_assign_list insert_assign_list_from_set select_stmt = new_node (Insert_stmt_node
     \<lparr>Insert_stmt_type = t_insert_stmt, Insert_stmt_insert_opt = insert_opt,
       Insert_stmt_tablename = tablename, Insert_stmt_col_list = col_list,
       Insert_stmt_insert_val_list = insert_val_list,
       Insert_stmt_insert_assign_list = insert_assign_list,
       Insert_stmt_insert_assign_list_from_set = insert_assign_list_from_set,
       Insert_stmt_select_stmt = select_stmt\<rparr>)"

definition newInsertValueList :: "ptr \<Rightarrow> ptr \<Rightarrow> sql_state \<Rightarrow> sql_res" where
  "newInsertValueList insert_vals next' = new_node (Insert_val_list_node
     \<lparr>Insert_val_list_type = t_insert_val_list,
       Insert_val_list_insert_vals = insert_vals, Insert_val_list_next = next'\<rparr>)"

definition newInsertVals :: "int \<Rightarrow> ptr \<Rightarrow> ptr \<Rightarrow> sql_state \<Rightarrow> sql_res" where
  "newInsertVals value_type expr next' = new_node (Insert_vals_node
     \<lparr>Insert_vals_type = t_insert_vals, Insert_vals_value_type = value_type,
       Insert_vals_expr = expr, Insert_vals_next = next'\<rparr>)"

definition newInsertAssignList :: "cstr \<Rightarrow> int \<Rightarrow> ptr \<Rightarrow> ptr \<Rightarrow> sql_state \<Rightarrow> sql_res" where
  "newInsertAssignList col_name value_type expr next' = new_node (Insert_assign_list_node
     \<lparr>Insert_assign_list_type = t_insert_assign,
       Insert_assign_list_col_name = col_name,
       Insert_assign_list_value_type = value_type, Insert_assign_list_expr = expr,
       Insert_assign_list_next = next'\<rparr>)"

definition newCreateDatabaseStmt :: "nodetype \<Rightarrow> int \<Rightarrow> int \<Rightarrow> cstr \<Rightarrow> sql_state \<Rightarrow> sql_res" where
  "newCreateDatabaseStmt type create_type check name = new_node (Create_database_stmt_node
     \<lparr>Create_database_stmt_type = type, Create_database_stmt_create_type = create_type,
       Create_database_stmt_check = check, Create_database_stmt_name = name\<rparr>)"

definition newCreateTableStmt :: "nodetype \<Rightarrow> int \<Rightarrow> int \<Rightarrow> cstr \<Rightarrow> cstr \<Rightarrow> ptr \<Rightarrow> ptr \<Rightarrow> sql_state \<Rightarrow> sql_res" where
  "newCreateTableStmt type create_type check name1 name2 list' select_stmt = new_node (Create_table_stmt_node
     \<lparr>Create_table_stmt_type = type, Create_table_stmt_create_type = create_type,
       Create_table_stmt_check = check, Create_table_stmt_name1 = name1,
       Create_table_stmt_name2 = name2, Create_table_stmt_list = list',
       Create_table_stmt_select_stmt = select_stmt\<rparr>)"

definition newCreateColList :: "nodetype \<Rightarrow> ptr \<Rightarrow> ptr \<Rightarrow> sql_state \<Rightarrow> sql_res" where
  "newCreateColList type data next' = new_node (Create_col_list_node
     \<lparr>Create_col_list_type = type, Create_col_list_data = data,
       Create_col_list_next = next'\<rparr>)"

definition newCreateDef :: "nodetype \<Rightarrow> int \<Rightarrow> cstr \<Rightarrow> ptr \<Rightarrow> ptr \<Rightarrow> ptr \<Rightarrow> sql_state \<Rightarrow> sql_res" where
  "newCreateDef type deftype name datatype col_atts col_list = new_node (Create_def_node
     \<lparr>Create_def_type = type, Create_def_deftype = deftype, Create_def_name = name,
       Create_def_datatype = datatype, Create_def_col_atts = col_atts,
       Create_def_col_list = col_list\<rparr>)"

definition newColumnAtts :: "nodetype \<Rightarrow> int \<Rightarrow> int \<Rightarrow> nat \<Rightarrow> cstr \<Rightarrow> ptr \<Rightarrow> sql_state \<Rightarrow> sql_res" where
  "newColumnAtts type datatype num1 num2 s col_list = new_node (Column_atts_node
     \<lparr>Column_atts_type = type, Column_atts_datatype = datatype,
       Column_atts_num1 = num1, Column_atts_num2 = num2, Column_atts_s = s,
       Column_atts_col_list = col_list\<rparr>)"

definition newCreateSelectStmt :: "nodetype \<Rightarrow> int \<Rightarrow> int \<Rightarrow> ptr \<Rightarrow> sql_state \<Rightarrow> sql_res" where
  "newCreateSelectStmt type ignore_replace temporary select_stmt = new_node (Create_select_stmt_node
     \<lparr>Create_select_stmt_type = type,
       Create_select_stmt_ignore_replace = ignore_replace,
       Create_select_stmt_temporary = temporary,
       Create_select_stmt_select_stmt = select_stmt\<rparr>)"

definition newCreateProjectionStmt :: "nodetype \<Rightarrow> cstr \<Rightarrow> ptr \<Rightarrow> int \<Rightarrow> cstr \<Rightarrow> sql_state \<Rightarrow> sql_res" where
  "newCreateProjectionStmt type tablename column_list partition_num partition_attribute_name = new_node (Create_projection_stmt_node
     \<lparr>Create_projection_stmt_type = type, Create_projection_stmt_tablename = tablename,
       Create_projection_stmt_column_list = column_list,
       Create_projection_stmt_partition_num = partition_num,
       Create_projection_stmt_partition_attribute_name = partition_attribute_name\<rparr>)"

definition newDoStmt :: "nodetype \<Rightarrow> ptr \<Rightarrow> sql_state \<Rightarrow> sql_res" where
  "newDoStmt type data = new_node (Do_stmt_node
     \<lparr>Do_stmt_type = type, Do_stmt_data = data\<rparr>)"

definition newTruncateStmt :: "nodetype \<Rightarrow> cstr \<Rightarrow> sql_state \<Rightarrow> sql_res" where
  "newTruncateStmt type name = new_node (Truncate_stmt_node
     \<lparr>Truncate_stmt_type = type, Truncate_stmt_name = name\<rparr>)"

definition newAlterDatabaseStmt :: "nodetype \<Rightarrow> int \<Rightarrow> cstr \<Rightarrow> ptr \<Rightarrow> sql_state \<Rightarrow> sql_res" where
  "newAlterDatabaseStmt type createtype name opt = new_node (Alterdatabase_stmt_node
     \<lparr>Alterdatabase_stmt_type = type, Alterdatabase_stmt_createtype = createtype,
       Alterdatabase_stmt_name = name, Alterdatabase_stmt_opt = opt\<rparr>)"

definition newOptCsc :: "nodetype \<Rightarrow> int \<Rightarrow> cstr \<Rightarrow> cstr \<Rightarrow> sql_state \<Rightarrow> sql_res" where
  "newOptCsc type datatype s1 s2 = new_node (Opt_csc_node
     \<lparr>Opt_csc_type = type, Opt_csc_datatype = datatype, Opt_csc_s1 = s1,
       Opt_csc_s2 = s2\<rparr>)"

definition newAlterTableStmt :: "nodetype \<Rightarrow> int \<Rightarrow> cstr \<Rightarrow> ptr \<Rightarrow> sql_state \<Rightarrow> sql_res" where
  "newAlterTableStmt type isignore name parameter = new_node (Altertable_stmt_node
     \<lparr>Altertable_stmt_type = type, Altertable_stmt_isignore = isignore,
       Altertable_stmt_name = name, Altertable_stmt_parameter = parameter\<rparr>)"

definition newAlterDef :: "nodetype \<Rightarrow> int \<Rightarrow> cstr \<Rightarrow> cstr \<Rightarrow> int \<Rightarrow> int \<Rightarrow> ptr \<Rightarrow> ptr \<Rightarrow> sql_state \<Rightarrow> sql_res" where
  "newAlterDef type altertype name1 name2 datatype coltype parameter next' = new_node (Alter_def_node
     \<lparr>Alter_def_type = type, Alter_def_altertype = altertype, Alter_def_name1 = name1,
       Alter_def_name2 = name2, Alter_def_datatype = datatype,
       Alter_def_coltype = coltype, Alter_def_parameter = parameter,
       Alter_def_next = next'\<rparr>)"

definition newDatatype :: "nodetype \<Rightarrow> int \<Rightarrow> ptr \<Rightarrow> int \<Rightarrow> ptr \<Rightarrow> int \<Rightarrow> ptr \<Rightarrow> sql_state \<Rightarrow> sql_res" where
  "newDatatype type datatype length' opt_uz opt_csc isbinary enum_list = new_node (Datatype_node
     \<lparr>Datatype_type = type, Datatype_datatype = datatype, Datatype_length = length',
       Datatype_opt_uz = opt_uz, Datatype_opt_csc = opt_csc,
       Datatype_isbinary = isbinary, Datatype_enum_list = enum_list\<rparr>)"

definition newLength :: "nodetype \<Rightarrow> int \<Rightarrow> int \<Rightarrow> sql_state \<Rightarrow> sql_res" where
  "newLength type data1 data2 = new_node (Length_node
     \<lparr>Length_type = type, Length_data1 = data1, Length_data2 = data2\<rparr>)"

definition newEnumList :: "nodetype \<Rightarrow> cstr \<Rightarrow> ptr \<Rightarrow> sql_state \<Rightarrow> sql_res" where
  "newEnumList type s next' = new_node (enum_list_node
     \<lparr>enum_list_type = type, enum_list_s = s, enum_list_next = next'\<rparr>)"

definition newCreateIndex :: "nodetype \<Rightarrow> int \<Rightarrow> cstr \<Rightarrow> int \<Rightarrow> cstr \<Rightarrow> ptr \<Rightarrow> sql_state \<Rightarrow> sql_res" where
  "newCreateIndex type index_att index_name index_type table_name index_col_name = new_node (Createindex_stmt_node
     \<lparr>Createindex_stmt_type = type, Createindex_stmt_index_att = index_att,
       Createindex_stmt_index_name = index_name,
       Createindex_stmt_index_type = index_type,
       Createindex_stmt_table_name = table_name,
       Createindex_stmt_index_col_name = index_col_name\<rparr>)"

definition newIndexColList :: "nodetype \<Rightarrow> cstr \<Rightarrow> ptr \<Rightarrow> int \<Rightarrow> ptr \<Rightarrow> sql_state \<Rightarrow> sql_res" where
  "newIndexColList type name length' asc_desc next' = new_node (Index_col_list_node
     \<lparr>Index_col_list_type = type, Index_col_list_name = name,
       Index_col_list_length = length', Index_col_list_asc_desc = asc_desc,
       Index_col_list_next = next'\<rparr>)"

definition newDropIndex :: "nodetype \<Rightarrow> cstr \<Rightarrow> cstr \<Rightarrow> sql_state \<Rightarrow> sql_res" where
  "newDropIndex type index_name table_name = new_node (Dropindex_stmt_node
     \<lparr>Dropindex_stmt_type = type, Dropindex_stmt_index_name = index_name,
       Dropindex_stmt_table_name = table_name\<rparr>)"

definition newDropDatabase :: "nodetype \<Rightarrow> int \<Rightarrow> int \<Rightarrow> cstr \<Rightarrow> sql_state \<Rightarrow> sql_res" where
  "newDropDatabase type drop_type check name = new_node (Dropdatabase_stmt_node
     \<lparr>Dropdatabase_stmt_type = type, Dropdatabase_stmt_droptype = drop_type,
       Dropdatabase_stmt_check = check, Dropdatabase_stmt_name = name\<rparr>)"

definition newDropTable :: "nodetype \<Rightarrow> int \<Rightarrow> int \<Rightarrow> int \<Rightarrow> ptr \<Rightarrow> sql_state \<Rightarrow> sql_res" where
  "newDropTable type is_temp is_check opt_rc table_list = new_node (Droptable_stmt_node
     \<lparr>Droptable_stmt_type = type, Droptable_stmt_is_temp = is_temp,
       Droptable_stmt_is_check = is_check, Droptable_stmt_option_rc = opt_rc,
       Droptable_stmt_table_list = table_list\<rparr>)"

text \<open>\<open>newLoadTable\<close> prints its separators; printing a null string is undefined.\<close>

definition newLoadTable :: "nodetype \<Rightarrow> cstr \<Rightarrow> ptr \<Rightarrow> cstr \<Rightarrow> cstr \<Rightarrow> sql_state \<Rightarrow> sql_res" where
  "newLoadTable type table_name path column_separator tuple_separator st =
     (if sq_room st = 0 then Inl OutOfSpace
      else case (column_separator, tuple_separator) of
        (Some c, Some t) \<Rightarrow>
          new_node (Loadtable_stmt_node
            \<lparr>Loadtable_stmt_type = type, Loadtable_stmt_table_name = table_name,
             Loadtable_stmt_path = path, Loadtable_stmt_column_separator = column_separator,
             Loadtable_stmt_tuple_separator = tuple_separator\<rparr>)
            (sq_print (''the separator are '' @ c @ '','' @ t @ nl) st)
      | _ \<Rightarrow> Inl Undefined)"

definition newTableList :: "nodetype \<Rightarrow> cstr \<Rightarrow> cstr \<Rightarrow> ptr \<Rightarrow> sql_state \<Rightarrow> sql_res" where
  "newTableList type name1 name2 next' = new_node (Tablelist_node
     \<lparr>Tablelist_type = type, Tablelist_name1 = name1, Tablelist_name2 = name2,
       Tablelist_next = next'\<rparr>)"

definition newShowStmt :: "int \<Rightarrow> bool \<Rightarrow> cstr \<Rightarrow> cstr \<Rightarrow> sql_state \<Rightarrow> sql_res" where
  "newShowStmt show_type full database_name like_string = new_node (Show_stmt_node
     \<lparr>Show_stmt_type = t_show_stmt, Show_stmt_full = full,
       Show_stmt_show_type = show_type, Show_stmt_database_name = database_name,
       Show_stmt_like_string = like_string\<rparr>)"

section \<open>FreeAllNode\<close>

text \<open>Freeing an address that is not live is undefined.\<close>

fun free_list :: "nat list \<Rightarrow> (nat \<Rightarrow> snode option) \<Rightarrow> (nat \<Rightarrow> snode option) option" where
  "free_list [] m = Some m"
| "free_list (a # as) m = (case m a of None \<Rightarrow> None | Some _ \<Rightarrow> free_list as (m(a := None)))"

definition FreeAllNode :: "sql_state \<Rightarrow> sql_error + sql_state" where
  "FreeAllNode st =
     (case free_list (sq_NodePointer st) (sq_mem st) of
        None \<Rightarrow> Inl Undefined
      | Some m \<Rightarrow> Inr (sq_print (''All '' @ dec (length (sq_NodePointer st)) @ '' node freed successfully'' @ nl)
                  (st\<lparr>sq_mem := m, sq_NodePointer := []\<rparr>)))"

section \<open>Well-formed heaps\<close>

text \<open>
  The tag of a node, and the pointers to nodes made before it: everything but the links inside a
  statement list and the condition headers, which are made later.
\<close>

fun ntype :: "snode \<Rightarrow> nodetype" where
  "ntype (Stmt_node n) = Stmt_type n"
| "ntype (Expr_node n) = Expr_type n"
| "ntype (Expr_list_header_node n) = Expr_list_header_type n"
| "ntype (Expr_list_node n) = Expr_list_type n"
| "ntype (Columns_node n) = Columns_type n"
| "ntype (Expr_cal_node n) = Expr_cal_type n"
| "ntype (Expr_func_node n) = Expr_func_type n"
| "ntype (Table_node n) = Table_type n"
| "ntype (Join_node n) = Join_type n"
| "ntype (Condition_node n) = Condition_type n"
| "ntype (Subquery_node n) = Subquery_type n"
| "ntype (Query_stmt_node n) = Query_stmt_type n"
| "ntype (Select_list_node n) = Select_list_type n"
| "ntype (Select_expr_node n) = Select_expr_type n"
| "ntype (From_list_node n) = From_list_type n"
| "ntype (From_expr_node n) = From_expr_type n"
| "ntype (Where_list_node n) = Where_list_type n"
| "ntype (Groupby_list_node n) = Groupby_list_type n"
| "ntype (Groupby_expr_node n) = Groupby_expr_type n"
| "ntype (Having_list_node n) = Having_list_type n"
| "ntype (Orderby_list_node n) = Orderby_list_type n"
| "ntype (Orderby_expr_node n) = Orderby_expr_type n"
| "ntype (Limit_expr_node n) = Limit_expr_type n"
| "ntype (Insert_stmt_node n) = Insert_stmt_type n"
| "ntype (Insert_val_list_node n) = Insert_val_list_type n"
| "ntype (Insert_vals_node n) = Insert_vals_type n"
| "ntype (Insert_assign_list_node n) = Insert_assign_list_type n"
| "ntype (Create_database_stmt_node n) = Create_database_stmt_type n"
| "ntype (Create_table_stmt_node n) = Create_table_stmt_type n"
| "ntype (Create_col_list_node n) = Create_col_list_type n"
| "ntype (Create_def_node n) = Create_def_type n"
| "ntype (Column_atts_node n) = Column_atts_type n"
| "ntype (Create_select_stmt_node n) = Create_select_stmt_type n"
| "ntype (Create_projection_stmt_node n) = Create_projection_stmt_type n"
| "ntype (Do_stmt_node n) = Do_stmt_type n"
| "ntype (Truncate_stmt_node n) = Truncate_stmt_type n"
| "ntype (Alterdatabase_stmt_node n) = Alterdatabase_stmt_type n"
| "ntype (Opt_csc_node n) = Opt_csc_type n"
| "ntype (Altertable_stmt_node n) = Altertable_stmt_type n"
| "ntype (Alter_def_node n) = Alter_def_type n"
| "ntype (Createindex_stmt_node n) = Createindex_stmt_type n"
| "ntype (Index_col_list_node n) = Index_col_list_type n"
| "ntype (Dropindex_stmt_node n) = Dropindex_stmt_type n"
| "ntype (Dropdatabase_stmt_node n) = Dropdatabase_stmt_type n"
| "ntype (Droptable_stmt_node n) = Droptable_stmt_type n"
| "ntype (Tablelist_node n) = Tablelist_type n"
| "ntype (Loadtable_stmt_node n) = Loadtable_stmt_type n"
| "ntype (Datatype_node n) = Datatype_type n"
| "ntype (Length_node n) = Length_type n"
| "ntype (enum_list_node n) = enum_list_type n"
| "ntype (Show_stmt_node n) = Show_stmt_type n"

fun kids :: "snode \<Rightarrow> ptr list" where
  "kids (Stmt_node n) = [Stmt_data n]"
| "kids (Expr_node n) = []"
| "kids (Expr_list_header_node n) = []"
| "kids (Expr_list_node n) = [Expr_list_data n, Expr_list_next n]"
| "kids (Columns_node n) = [Columns_next n]"
| "kids (Expr_cal_node n) = [Expr_cal_lnext n, Expr_cal_rnext n]"
| "kids (Expr_func_node n) = [Expr_func_args n, Expr_func_parameter1 n, Expr_func_parameter2 n, Expr_func_next n]"
| "kids (Table_node n) = [Table_subquery n]"
| "kids (Join_node n) = [Join_lnext n, Join_rnext n, Join_condition n]"
| "kids (Condition_node n) = [Condition_args n]"
| "kids (Subquery_node n) = [Subquery_next n]"
| "kids (Query_stmt_node n) = [Query_stmt_select_list n, Query_stmt_from_list n, Query_stmt_where_list n, Query_stmt_groupby_list n, Query_stmt_having_list n, Query_stmt_orderby_list n, Query_stmt_limit_list n, Query_stmt_into_list n]"
| "kids (Select_list_node n) = [Select_list_args n, Select_list_next n]"
| "kids (Select_expr_node n) = [Select_expr_colname n]"
| "kids (From_list_node n) = [From_list_args n, From_list_next n]"
| "kids (From_expr_node n) = [From_expr_next n]"
| "kids (Where_list_node n) = [Where_list_next n]"
| "kids (Groupby_list_node n) = [Groupby_list_next n]"
| "kids (Groupby_expr_node n) = [Groupby_expr_args n, Groupby_expr_next n]"
| "kids (Having_list_node n) = [Having_list_next n]"
| "kids (Orderby_list_node n) = [Orderby_list_next n]"
| "kids (Orderby_expr_node n) = [Orderby_expr_args n, Orderby_expr_next n]"
| "kids (Limit_expr_node n) = [Limit_expr_offset n, Limit_expr_row_count n]"
| "kids (Insert_stmt_node n) = [Insert_stmt_col_list n, Insert_stmt_insert_val_list n, Insert_stmt_insert_assign_list n, Insert_stmt_insert_assign_list_from_set n, Insert_stmt_select_stmt n]"
| "kids (Insert_val_list_node n) = [Insert_val_list_insert_vals n, Insert_val_list_next n]"
| "kids (Insert_vals_node n) = [Insert_vals_expr n, Insert_vals_next n]"
| "kids (Insert_assign_list_node n) = [Insert_assign_list_expr n, Insert_assign_list_next n]"
| "kids (Create_database_stmt_node n) = []"
| "kids (Create_table_stmt_node n) = [Create_table_stmt_list n, Create_table_stmt_select_stmt n]"
| "kids (Create_col_list_node n) = [Create_col_list_data n, Create_col_list_next n]"
| "kids (Create_def_node n) = [Create_def_datatype n, Create_def_col_atts n, Create_def_col_list n]"
| "kids (Column_atts_node n) = [Column_atts_col_list n]"
| "kids (Create_select_stmt_node n) = [Create_select_stmt_select_stmt n]"
| "kids (Create_projection_stmt_node n) = [Create_projection_stmt_column_list n]"
| "kids (Do_stmt_node n) = [Do_stmt_data n]"
| "kids (Truncate_stmt_node n) = []"
| "kids (Alterdatabase_stmt_node n) = [Alterdatabase_stmt_opt n]"
| "kids (Opt_csc_node n) = []"
| "kids (Altertable_stmt_node n) = [Altertable_stmt_parameter n]"
| "kids (Alter_def_node n) = [Alter_def_parameter n, Alter_def_next n]"
| "kids (Createindex_stmt_node n) = [Createindex_stmt_index_col_name n]"
| "kids (Index_col_list_node n) = [Index_col_list_length n, Index_col_list_next n]"
| "kids (Dropindex_stmt_node n) = []"
| "kids (Dropdatabase_stmt_node n) = []"
| "kids (Droptable_stmt_node n) = [Droptable_stmt_table_list n]"
| "kids (Tablelist_node n) = [Tablelist_next n]"
| "kids (Loadtable_stmt_node n) = [Loadtable_stmt_path n]"
| "kids (Datatype_node n) = [Datatype_length n, Datatype_opt_csc n, Datatype_enum_list n]"
| "kids (Length_node n) = []"
| "kids (enum_list_node n) = [enum_list_next n]"
| "kids (Show_stmt_node n) = []"

fun header_of :: "snode \<Rightarrow> ptr option" where
  "header_of (Table_node n) = Some (Table_whcdn n)"
| "header_of (From_list_node n) = Some (From_list_whcdn n)"
| "header_of _ = None"

definition empty_header :: snode where
  "empty_header = Expr_list_header_node \<lparr>Expr_list_header_type = t_expr_list_header,
     Expr_list_header_header = None, Expr_list_header_tail = None\<rparr>"

definition live :: "sql_state \<Rightarrow> ptr \<Rightarrow> bool" where
  "live st p \<longleftrightarrow> (case p of None \<Rightarrow> True | Some a \<Rightarrow> sq_mem st a \<noteq> None)"

definition node_ok :: "sql_state \<Rightarrow> nat \<Rightarrow> snode \<Rightarrow> bool" where
  "node_ok st a nd \<longleftrightarrow>
     (\<forall>p \<in> set (kids nd). \<forall>b. p = Some b \<longrightarrow> b < a \<and> sq_mem st b \<noteq> None)
     \<and> (\<forall>p. header_of nd = Some p \<longrightarrow> (\<exists>h. p = Some h \<and> sq_mem st h = Some empty_header))
     \<and> (\<forall>n. nd = Expr_list_header_node n \<longrightarrow> nd = empty_header)"

definition sql_ok :: "sql_state \<Rightarrow> bool" where
  "sql_ok st \<longleftrightarrow> (\<forall>a nd. sq_mem st a = Some nd \<longrightarrow> a < sq_next st \<and> node_ok st a nd)
     \<and> distinct (sq_NodePointer st) \<and> (\<forall>a \<in> set (sq_NodePointer st). sq_mem st a \<noteq> None)"

definition sql_start :: "nat \<Rightarrow> sql_state" where
  "sql_start room = \<lparr>sq_mem = (\<lambda>_. None), sq_next = 0, sq_room = room, sq_NodePointer = [], sq_out = []\<rparr>"

lemma sql_ok_start [simp]: "sql_ok (sql_start room)"
  by (simp add: sql_ok_def sql_start_def)

lemma node_ok_mono:
  assumes "node_ok st a nd" and "\<And>b x. sq_mem st b = Some x \<Longrightarrow> sq_mem st' b = Some x"
  shows "node_ok st' a nd"
  using assms unfolding node_ok_def by (metis (no_types, lifting) not_None_eq)

lemma sql_ok_fresh: "sql_ok st \<Longrightarrow> sq_next st \<le> a \<Longrightarrow> sq_mem st a = None"
  by (metis option.exhaust leD sql_ok_def)

text \<open>Allocating and registering a node whose pointers are live.\<close>

lemma new_node_ok:
  assumes ok: "sql_ok st" and k: "\<forall>p \<in> set (kids nd). live st p"
    and h: "header_of nd = None" "\<forall>n. nd \<noteq> Expr_list_header_node n" and "0 < sq_room st"
  shows "\<exists>st'. new_node nd st = Inr (Some (sq_next st), st') \<and> sql_ok st'
    \<and> sq_mem st' = (sq_mem st)(sq_next st \<mapsto> nd) \<and> sq_NodePointer st' = sq_NodePointer st @ [sq_next st]
    \<and> sq_next st' = Suc (sq_next st) \<and> sq_room st' = sq_room st - 1 \<and> sq_out st' = sq_out st"
proof -
  let ?a = "sq_next st"
  let ?st = "st\<lparr>sq_mem := (sq_mem st)(?a \<mapsto> nd), sq_next := Suc ?a, sq_room := sq_room st - 1,
    sq_NodePointer := sq_NodePointer st @ [?a]\<rparr>"
  have f: "sq_mem st ?a = None" using sql_ok_fresh [OF ok] by simp
  have mono: "sq_mem ?st b = Some x" if "sq_mem st b = Some x" for b x using that f by auto
  have lt: "b < ?a" if "sq_mem st b \<noteq> None" for b using ok that by (auto simp: sql_ok_def)
  have "node_ok ?st ?a nd"
    using k h lt by (fastforce simp: node_ok_def live_def)
  then have "sql_ok ?st"
    using ok node_ok_mono [OF _ mono] f by (fastforce simp: sql_ok_def)
  moreover have "new_node nd st = Inr (Some ?a, ?st)"
    using assms(5) by (simp add: new_node_def sq_alloc_def insertNodePointer_def)
  ultimately show ?thesis by simp
qed

lemma new_with_header_ok:
  assumes ok: "sql_ok st" and k: "\<And>w. \<forall>p \<in> set (kids (mk w)). live st p"
    and h: "\<And>w. header_of (mk w) = Some w" and "2 \<le> sq_room st"
  shows "\<exists>st'. new_with_header mk st = Inr (Some (sq_next st), st') \<and> sql_ok st'
    \<and> sq_mem st' = (sq_mem st)(sq_next st \<mapsto> mk (Some (Suc (sq_next st))), Suc (sq_next st) \<mapsto> empty_header)
    \<and> sq_NodePointer st' = sq_NodePointer st @ [sq_next st]"
proof -
  let ?a = "sq_next st" and ?h = "Suc (sq_next st)"
  let ?st = "st\<lparr>sq_mem := (sq_mem st)(?a \<mapsto> mk (Some ?h), ?h \<mapsto> empty_header), sq_next := Suc ?h,
    sq_room := sq_room st - 2, sq_NodePointer := sq_NodePointer st @ [?a]\<rparr>"
  have f: "sq_mem st ?a = None" "sq_mem st ?h = None" using sql_ok_fresh [OF ok] by simp_all
  have mono: "sq_mem ?st b = Some x" if "sq_mem st b = Some x" for b x using that f by auto
  have lt: "b < ?a" if "sq_mem st b \<noteq> None" for b using ok that by (auto simp: sql_ok_def)
  have ne: "mk w \<noteq> Expr_list_header_node n" for w n using h [of w] by auto
  have "node_ok ?st ?a (mk (Some ?h))"
    using k h lt ne by (fastforce simp: node_ok_def live_def)
  moreover have "node_ok ?st ?h empty_header" by (simp add: node_ok_def empty_header_def)
  ultimately have "sql_ok ?st"
    using ok node_ok_mono [OF _ mono] f by (fastforce simp: sql_ok_def)
  moreover have "new_with_header mk st = Inr (Some ?a, ?st)"
    using assms(4)
    by (simp add: new_with_header_def newExprlistheader_def sq_alloc_def insertNodePointer_def
        empty_header_def fun_upd_twist numeral_2_eq_2)
  ultimately show ?thesis by simp
qed

text \<open>Every simple constructor is \<open>new_node\<close> on one record.\<close>

lemmas constructor_defs = newExpr_def newExprList_def newColumn_def newExprCal_def newExprFunc_def
  newJoin_def newCondition_def newSubquery_def newQueryStmt_def newSelectList_def newSelectExpr_def
  newFromExpr_def newWhereList_def newGroupbyList_def newGroupbyExpr_def newHavingList_def
  newOrderbyList_def newOrderbyExpr_def newLimitExpr_def

lemma free_list_ok:
  assumes "distinct as" and "\<forall>a \<in> set as. m a \<noteq> None"
  shows "free_list as m = Some (\<lambda>a. if a \<in> set as then None else m a)"
  using assms
proof (induction as arbitrary: m)
  case (Cons a as)
  then have "free_list as (m(a := None)) = Some (\<lambda>b. if b \<in> set as then None else (m(a := None)) b)"
    by (intro Cons.IH) auto
  then show ?case using Cons.prems by (auto simp: fun_eq_iff)
qed simp

section \<open>Statement lists\<close>

text \<open>The nodes of a statement list, by following \<open>next\<close>: addresses and data.\<close>

fun stmt_chain :: "(nat \<Rightarrow> snode option) \<Rightarrow> ptr \<Rightarrow> (nat \<times> ptr) list \<Rightarrow> bool" where
  "stmt_chain m p [] \<longleftrightarrow> p = None"
| "stmt_chain m p ((a, d) # xs) \<longleftrightarrow> p = Some a
     \<and> (\<exists>n. m a = Some (Stmt_node n) \<and> Stmt_data n = d \<and> stmt_chain m (Stmt_next n) xs)"

text \<open>A statement list as the parser holds it: the chain, and its end in the first node.\<close>

definition stmt_list :: "sql_state \<Rightarrow> ptr \<Rightarrow> (nat \<times> ptr) list \<Rightarrow> bool" where
  "stmt_list st p xs \<longleftrightarrow> xs \<noteq> [] \<and> distinct (map fst xs) \<and> stmt_chain (sq_mem st) p xs
     \<and> (\<exists>n. sq_mem st (fst (hd xs)) = Some (Stmt_node n) \<and> Stmt_last n = Some (fst (last xs)))"

lemma stmt_chain_cong:
  assumes "\<And>a. a \<in> fst ` set xs \<Longrightarrow> (\<exists>n n'. m a = Some (Stmt_node n) \<and> m' a = Some (Stmt_node n')
      \<and> Stmt_data n' = Stmt_data n \<and> Stmt_next n' = Stmt_next n)"
  shows "stmt_chain m p xs \<Longrightarrow> stmt_chain m' p xs"
  using assms by (induction xs arbitrary: p) (auto, force)

lemma stmt_chain_mem: "stmt_chain m p xs \<Longrightarrow> a \<in> fst ` set xs \<Longrightarrow> \<exists>n. m a = Some (Stmt_node n)"
  by (induction xs arbitrary: p) (auto, force)

text \<open>Linking a new node behind the last one of a chain.\<close>

lemma stmt_chain_link:
  assumes "stmt_chain m p xs" and "xs \<noteq> []" and "distinct (map fst xs)" and "b \<notin> fst ` set xs"
    and "m (fst (last xs)) = Some (Stmt_node z)" and "Stmt_data n = d" "Stmt_next n = None"
  shows "stmt_chain (m(fst (last xs) \<mapsto> Stmt_node (z\<lparr>Stmt_next := Some b\<rparr>), b \<mapsto> Stmt_node n)) p (xs @ [(b, d)])"
  using assms
proof (induction xs arbitrary: p)
  case (Cons x xs)
  obtain a e where x: "x = (a, e)" by force
  from Cons.prems(1) obtain k where k: "p = Some a" "m a = Some (Stmt_node k)" "Stmt_data k = e"
    "stmt_chain m (Stmt_next k) xs" by (auto simp: x)
  show ?case
  proof (cases "xs = []")
    case True
    then show ?thesis using Cons.prems k by (auto simp: x)
  next
    case False
    then have "a \<noteq> fst (last xs)" "a \<noteq> b" using Cons.prems(3,4) by (auto simp: x)
    then show ?thesis using Cons.IH [OF k(4) False] Cons.prems False k by (auto simp: x)
  qed
qed simp

text \<open>Allocating a statement node and changing the links of others keeps the heap well-formed.\<close>

lemma sql_ok_relink:
  assumes ok: "sql_ok st" and "live st d" and b: "b = sq_next st" and "Stmt_data n = d"
    and m: "\<And>a. m a = (if a = b then Some (Stmt_node n) else sq_mem st a)
      \<or> (\<exists>k k'. sq_mem st a = Some (Stmt_node k) \<and> m a = Some (Stmt_node k') \<and> Stmt_data k' = Stmt_data k)"
    and "m b = Some (Stmt_node n)"
  shows "sql_ok (st\<lparr>sq_next := Suc b, sq_room := r, sq_mem := m\<rparr>)"
proof -
  have lt: "a < sq_next st" if "sq_mem st a = Some x" for a x using ok that by (auto simp: sql_ok_def)
  have lv: "m a \<noteq> None" if "sq_mem st a \<noteq> None" for a using m [of a] that by auto
  have hd: "m a = Some empty_header" if "sq_mem st a = Some empty_header" for a
    using m [of a] that lt [of a] by (auto simp: empty_header_def b)
  let ?st = "st\<lparr>sq_next := Suc b, sq_room := r, sq_mem := m\<rparr>"
  have old: "node_ok ?st a x" if x: "sq_mem st a = Some x" for a x
  proof -
    have "node_ok st a x" using ok x by (auto simp: sql_ok_def)
    then show ?thesis unfolding node_ok_def using lv hd by (auto; blast)
  qed
  have new: "node_ok ?st b (Stmt_node n)"
    using assms(2,4) lv lt by (auto simp: node_ok_def live_def b split: option.splits)
  have "a < Suc b \<and> node_ok ?st a x" if mx: "m a = Some x" for a x
  proof (cases "a = b")
    case True
    then show ?thesis using mx assms(6) new by simp
  next
    case False
    consider "sq_mem st a = Some x" | k k' where "sq_mem st a = Some (Stmt_node k)" "x = Stmt_node k'" "Stmt_data k' = Stmt_data k"
      using m [of a] False mx by auto
    then show ?thesis
    proof cases
      case 1
      then show ?thesis using old lt by (fastforce simp: b)
    next
      case 2
      then have "node_ok ?st a (Stmt_node k)" using old by blast
      then show ?thesis using 2 lt by (fastforce simp: b node_ok_def)
    qed
  qed
  then show ?thesis using ok lv by (auto simp: sql_ok_def)
qed

lemma newStmt_append:
  assumes ok: "sql_ok st" and L: "stmt_list st (Some l) xs" and room: "0 < sq_room st" and d: "live st d"
  shows "\<exists>st'. newStmt t (Some l) d st = Inr (Some l, st')
    \<and> stmt_list st' (Some l) (xs @ [(sq_next st, d)]) \<and> sql_ok st'
    \<and> sq_NodePointer st' = sq_NodePointer st \<and> sq_next st' = Suc (sq_next st)
    \<and> sq_room st' = sq_room st - 1 \<and> dom (sq_mem st') = insert (sq_next st) (dom (sq_mem st))"
proof -
  let ?b = "sq_next st" and ?e = "fst (last xs)"
  let ?n = "\<lparr>Stmt_type = t, Stmt_data = d, Stmt_next = None, Stmt_last = Some (sq_next st)\<rparr>"
  have xs: "xs \<noteq> []" "distinct (map fst xs)" "stmt_chain (sq_mem st) (Some l) xs" "fst (hd xs) = l"
    using L by (cases xs; auto simp: stmt_list_def)+
  from L xs(4) obtain h where h: "sq_mem st l = Some (Stmt_node h)" "Stmt_last h = Some ?e"
    by (auto simp: stmt_list_def)
  have inc: "?e \<in> fst ` set xs" "l \<in> fst ` set xs" using xs(1,4) by (auto intro: hd_in_set last_in_set simp: image_iff)
  obtain z where z: "sq_mem st ?e = Some (Stmt_node z)" using stmt_chain_mem [OF xs(3) inc(1)] by blast
  have b: "?b \<notin> fst ` set xs" using stmt_chain_mem [OF xs(3)] sql_ok_fresh [OF ok, of ?b] by fastforce
  let ?m1 = "(sq_mem st)(?e \<mapsto> Stmt_node (z\<lparr>Stmt_next := Some ?b\<rparr>), ?b \<mapsto> Stmt_node ?n)"
  let ?h1 = "if ?e = l then z\<lparr>Stmt_next := Some ?b\<rparr> else h"
  let ?m2 = "?m1(l \<mapsto> Stmt_node (?h1\<lparr>Stmt_last := Some ?b\<rparr>))"
  have c1: "stmt_chain ?m1 (Some l) (xs @ [(?b, d)])"
    using xs b z by (intro stmt_chain_link) auto
  have lb: "l \<noteq> ?b" "?e \<noteq> ?b" using inc b by metis+
  have m1l: "?m1 l = Some (Stmt_node ?h1)" using h lb by auto
  have c2: "stmt_chain ?m2 (Some l) (xs @ [(?b, d)])"
  proof (rule stmt_chain_cong [OF _ c1])
    fix a assume "a \<in> fst ` set (xs @ [(?b, d)])"
    from stmt_chain_mem [OF c1 this] obtain k where k: "?m1 a = Some (Stmt_node k)" by blast
    show "\<exists>n n'. ?m1 a = Some (Stmt_node n) \<and> ?m2 a = Some (Stmt_node n') \<and> Stmt_data n' = Stmt_data n \<and> Stmt_next n' = Stmt_next n"
    proof (cases "a = l")
      case True
      then show ?thesis using m1l by (intro exI [of _ ?h1] exI [of _ "?h1\<lparr>Stmt_last := Some ?b\<rparr>"]) simp
    next
      case False
      then show ?thesis using k by (intro exI [of _ k]) simp
    qed
  qed
  have sw: "(sq_mem st)(?b \<mapsto> x, ?e \<mapsto> y) = (sq_mem st)(?e \<mapsto> y, ?b \<mapsto> x)" for x y
    using lb by (simp add: fun_upd_twist)
  let ?st = "st\<lparr>sq_next := Suc ?b, sq_room := sq_room st - 1, sq_mem := ?m2\<rparr>"
  have "newStmt t (Some l) d st = Inr (Some l, ?st)"
    using room h z lb by (simp add: newStmt_def sq_alloc_def sw Let_def)
  moreover have "stmt_list ?st (Some l) (xs @ [(?b, d)])"
    unfolding stmt_list_def using c2 xs b by (auto simp: hd_append)
  moreover have "sql_ok ?st"
    by (rule sql_ok_relink [OF ok d, where b = ?b and n = ?n and m = "?m2"]) (use h z lb in auto)
  moreover have "dom ?m2 = insert ?b (dom (sq_mem st))" using h z by auto
  ultimately show ?thesis by (intro exI [of _ ?st]) simp
qed

text \<open>What the grammar does for \<open>stmt; stmt; ...\<close>: one \<open>newStmt\<close> per statement.\<close>

fun parse_stmts :: "nodetype \<Rightarrow> ptr \<Rightarrow> ptr list \<Rightarrow> sql_state \<Rightarrow> sql_res" where
  "parse_stmts t p [] st = Inr (p, st)"
| "parse_stmts t p (d # ds) st =
     (case newStmt t p d st of Inl e \<Rightarrow> Inl e | Inr (q, st') \<Rightarrow> parse_stmts t q ds st')"

lemma parse_stmts_append:
  assumes "sql_ok st" "stmt_list st (Some l) xs" "length ds \<le> sq_room st" "\<forall>d \<in> set ds. live st d"
  shows "\<exists>st' ys. parse_stmts t (Some l) ds st = Inr (Some l, st') \<and> sql_ok st' \<and> stmt_list st' (Some l) (xs @ ys)
    \<and> map snd ys = ds \<and> map fst ys = [sq_next st..<sq_next st + length ds]
    \<and> sq_NodePointer st' = sq_NodePointer st
    \<and> dom (sq_mem st') = dom (sq_mem st) \<union> {sq_next st..<sq_next st + length ds}"
  using assms
proof (induction ds arbitrary: st xs)
  case (Cons d ds)
  then have "0 < sq_room st" "live st d" by auto
  from newStmt_append [OF Cons.prems(1,2) this] obtain st1 where
    s1: "newStmt t (Some l) d st = Inr (Some l, st1)" "stmt_list st1 (Some l) (xs @ [(sq_next st, d)])" "sql_ok st1"
      "sq_NodePointer st1 = sq_NodePointer st" "sq_next st1 = Suc (sq_next st)" "sq_room st1 = sq_room st - 1"
      "dom (sq_mem st1) = insert (sq_next st) (dom (sq_mem st))" by blast
  have "live st1 e" if "live st e" for e
    using that s1(7) by (auto simp: live_def split: option.splits)
  then have "\<exists>st' ys. parse_stmts t (Some l) ds st1 = Inr (Some l, st') \<and> sql_ok st'
    \<and> stmt_list st' (Some l) ((xs @ [(sq_next st, d)]) @ ys)
    \<and> map snd ys = ds \<and> map fst ys = [sq_next st1..<sq_next st1 + length ds]
    \<and> sq_NodePointer st' = sq_NodePointer st1
    \<and> dom (sq_mem st') = dom (sq_mem st1) \<union> {sq_next st1..<sq_next st1 + length ds}"
    using Cons.prems s1 by (intro Cons.IH) auto
  then obtain st2 ys where s2: "parse_stmts t (Some l) ds st1 = Inr (Some l, st2)" "sql_ok st2"
    "stmt_list st2 (Some l) ((xs @ [(sq_next st, d)]) @ ys)" "map snd ys = ds"
    "map fst ys = [Suc (sq_next st)..<Suc (sq_next st) + length ds]" "sq_NodePointer st2 = sq_NodePointer st"
    "dom (sq_mem st2) = insert (sq_next st) (dom (sq_mem st)) \<union> {Suc (sq_next st)..<Suc (sq_next st) + length ds}"
    using s1 by auto
  then show ?case using s1(1)
    by (intro exI [of _ st2] exI [of _ "(sq_next st, d) # ys"]) (auto simp: upt_rec [of "sq_next st"])
qed (auto intro: exI [of _ "[]"])

lemma parse_stmts_built:
  assumes "sql_ok st" and "\<forall>d \<in> set (d0 # ds). live st d" and "Suc (length ds) \<le> sq_room st"
  shows "\<exists>l st' xs. parse_stmts t None (d0 # ds) st = Inr (Some l, st') \<and> sql_ok st'
    \<and> stmt_list st' (Some l) xs \<and> map snd xs = d0 # ds
    \<and> map fst xs = [sq_next st..<sq_next st + Suc (length ds)]
    \<and> sq_NodePointer st' = sq_NodePointer st @ [sq_next st]
    \<and> dom (sq_mem st') = dom (sq_mem st) \<union> {sq_next st..<sq_next st + Suc (length ds)}"
proof -
  let ?a = "sq_next st"
  let ?n = "\<lparr>Stmt_type = t, Stmt_data = d0, Stmt_next = None, Stmt_last = Some ?a\<rparr>"
  have "\<exists>st1. new_node (Stmt_node ?n) st = Inr (Some ?a, st1) \<and> sql_ok st1
    \<and> sq_mem st1 = (sq_mem st)(?a \<mapsto> Stmt_node ?n) \<and> sq_NodePointer st1 = sq_NodePointer st @ [?a]
    \<and> sq_next st1 = Suc ?a \<and> sq_room st1 = sq_room st - 1 \<and> sq_out st1 = sq_out st"
    using assms by (intro new_node_ok) auto
  then obtain st1 where s1: "new_node (Stmt_node ?n) st = Inr (Some ?a, st1)" "sql_ok st1"
    "sq_mem st1 = (sq_mem st)(?a \<mapsto> Stmt_node ?n)" "sq_NodePointer st1 = sq_NodePointer st @ [?a]"
    "sq_next st1 = Suc ?a" "sq_room st1 = sq_room st - 1" by blast
  have n: "newStmt t None d0 st = Inr (Some ?a, st1)"
    using s1(1) assms(3) by (simp add: newStmt_def new_node_def)
  have l: "stmt_list st1 (Some ?a) [(?a, d0)]" by (simp add: stmt_list_def s1(3))
  have lv: "\<forall>d \<in> set ds. live st1 d" using assms(2) s1(3) by (auto simp: live_def split: option.splits)
  have "length ds \<le> sq_room st1" using assms(3) s1(6) by simp
  from parse_stmts_append [OF s1(2) l this lv, of t] obtain st2 ys where
    s2: "parse_stmts t (Some ?a) ds st1 = Inr (Some ?a, st2)" "sql_ok st2"
      "stmt_list st2 (Some ?a) ([(?a, d0)] @ ys)" "map snd ys = ds"
      "map fst ys = [Suc ?a..<Suc ?a + length ds]" "sq_NodePointer st2 = sq_NodePointer st1"
      "dom (sq_mem st2) = dom (sq_mem st1) \<union> {Suc ?a..<Suc ?a + length ds}" unfolding s1(5) by blast
  have "dom (sq_mem st2) = dom (sq_mem st) \<union> {?a..<?a + Suc (length ds)}" using s2(7) s1(3) by auto
  moreover have "[?a..<?a + Suc (length ds)] = ?a # [Suc ?a..<Suc ?a + length ds]"
    by (simp add: upt_conv_Cons del: upt_Suc)
  ultimately show ?thesis using n s2 s1(4)
    by (intro exI [of _ ?a] exI [of _ st2] exI [of _ "(?a, d0) # ys"]) (simp del: upt_Suc)
qed

lemma FreeAllNode_ok:
  assumes "sql_ok st"
  shows "\<exists>st'. FreeAllNode st = Inr st' \<and> dom (sq_mem st') = dom (sq_mem st) - set (sq_NodePointer st)
    \<and> sq_NodePointer st' = []
    \<and> sq_out st' = sq_out st @ ''All '' @ dec (length (sq_NodePointer st)) @ '' node freed successfully'' @ nl"
proof -
  have "free_list (sq_NodePointer st) (sq_mem st)
    = Some (\<lambda>a. if a \<in> set (sq_NodePointer st) then None else sq_mem st a)"
    using assms by (intro free_list_ok) (auto simp: sql_ok_def)
  then show ?thesis by (auto simp: FreeAllNode_def sq_print_def split: if_splits)
qed

section \<open>Properties\<close>

text \<open>
  C21. \<open>newStmt\<close> keeps statement lists: building a list with one call per statement gives a
  linked list that holds exactly the statements in order, with \<open>last\<close> of its first node at its
  end, on a well-formed heap.
\<close>

theorem stmt_list_built:
  assumes "sql_ok st" and "\<forall>d \<in> set (d0 # ds). live st d" and "Suc (length ds) \<le> sq_room st"
  shows "\<exists>l st' xs. parse_stmts t None (d0 # ds) st = Inr (Some l, st') \<and> sql_ok st'
    \<and> stmt_list st' (Some l) xs \<and> map snd xs = d0 # ds
    \<and> map fst xs = [sq_next st..<sq_next st + Suc (length ds)]
    \<and> sq_NodePointer st' = sq_NodePointer st @ [sq_next st]
    \<and> dom (sq_mem st') = dom (sq_mem st) \<union> {sq_next st..<sq_next st + Suc (length ds)}"
  using parse_stmts_built [OF assms] .

text \<open>
  C15. \<open>FreeAllNode\<close> never frees twice and never frees a dangling pointer: on a well-formed heap
  it succeeds, frees exactly the registered nodes, empties the registry and reports their number.
\<close>

theorem free_all_node_exact:
  assumes "sql_ok st"
  shows "\<exists>st'. FreeAllNode st = Inr st' \<and> dom (sq_mem st') = dom (sq_mem st) - set (sq_NodePointer st)
    \<and> sq_NodePointer st' = []
    \<and> sq_out st' = sq_out st @ ''All '' @ dec (length (sq_NodePointer st)) @ '' node freed successfully'' @ nl"
  by (rule FreeAllNode_ok [OF assms])

text \<open>
  What \<open>FreeAllNode\<close> misses: after a list of \<open>n + 1\<close> statements has been built on an empty
  heap of already registered statements, \<open>n\<close> nodes stay allocated, those \<open>newStmt\<close> appended.
\<close>

theorem stmt_list_leaks:
  assumes "sql_ok st" and "dom (sq_mem st) = set (sq_NodePointer st)"
    and "\<forall>d \<in> set (d0 # ds). live st d" and "Suc (length ds) \<le> sq_room st"
  shows "\<exists>l st1 st2. parse_stmts t None (d0 # ds) st = Inr (Some l, st1) \<and> FreeAllNode st1 = Inr st2
    \<and> dom (sq_mem st2) = {Suc (sq_next st)..<Suc (sq_next st) + length ds}
    \<and> card (dom (sq_mem st2)) = length ds"
proof -
  from parse_stmts_built [OF assms(1,3,4), of t] obtain l st1 where
    s1: "parse_stmts t None (d0 # ds) st = Inr (Some l, st1)" "sql_ok st1"
      "sq_NodePointer st1 = sq_NodePointer st @ [sq_next st]"
      "dom (sq_mem st1) = dom (sq_mem st) \<union> {sq_next st..<sq_next st + Suc (length ds)}" by blast
  from FreeAllNode_ok [OF s1(2)] obtain st2 where
    s2: "FreeAllNode st1 = Inr st2" "dom (sq_mem st2) = dom (sq_mem st1) - set (sq_NodePointer st1)" by blast
  have "x < sq_next st" if "x \<in> set (sq_NodePointer st)" for x
    using sql_ok_fresh [OF assms(1), of x] assms(2) that by (cases "x < sq_next st") auto
  then have "dom (sq_mem st2) = {Suc (sq_next st)..<Suc (sq_next st) + length ds}"
    unfolding s2(2) s1(3,4) assms(2) by force
  then show ?thesis using s1(1) s2(1) by simp
qed

definition expr_start :: sql_state where
  "expr_start = \<lparr>sq_mem = [0 \<mapsto> Expr_node \<lparr>Expr_type = t_intnum, Expr_data = Some ''1''\<rparr>], sq_next = 1,
     sq_room = 5, sq_NodePointer = [0], sq_out = []\<rparr>"

lemma sql_ok_expr_start: "sql_ok expr_start"
  by (auto simp: sql_ok_def expr_start_def node_ok_def split: if_splits)

theorem stmt_list_built_witness:
  "\<exists>l st' xs. parse_stmts t_stmt None (Some 0 # [Some 0, None]) expr_start = Inr (Some l, st')
    \<and> stmt_list st' (Some l) xs \<and> map snd xs = [Some 0, Some 0, None]"
proof -
  have a: "\<forall>d \<in> set (Some 0 # [Some 0, None]). live expr_start d" by (simp add: live_def expr_start_def)
  have b: "Suc (length [Some 0 :: ptr, None]) \<le> sq_room expr_start" by (simp add: expr_start_def)
  from stmt_list_built [OF sql_ok_expr_start a b, of t_stmt] show ?thesis
    by (elim exE conjE) (intro exI conjI; assumption)
qed

theorem free_all_node_exact_witness:
  "\<exists>st'. FreeAllNode expr_start = Inr st' \<and> dom (sq_mem st') = {}"
  using free_all_node_exact [OF sql_ok_expr_start] by (auto simp: expr_start_def)

theorem stmt_list_leaks_witness:
  "\<exists>l st1 st2. parse_stmts t_stmt None (Some 0 # [Some 0, None]) expr_start = Inr (Some l, st1)
    \<and> FreeAllNode st1 = Inr st2 \<and> card (dom (sq_mem st2)) = 2"
proof -
  have "\<forall>d \<in> set (Some 0 # [Some 0, None]). live expr_start d" by (simp add: live_def expr_start_def)
  moreover have "Suc (length [Some 0 :: ptr, None]) \<le> sq_room expr_start" "dom (sq_mem expr_start) = set (sq_NodePointer expr_start)"
    by (auto simp: expr_start_def split: if_splits)
  ultimately show ?thesis
    using stmt_list_leaks [OF sql_ok_expr_start, of "Some 0" "[Some 0, None]" t_stmt] by auto
qed

end
