(* ===== verification/Mosito_SqlOutput.thy ===== *)
theory Mosito_SqlOutput
  imports Mosito_Sql
begin

text \<open>
  The rest of \<^verbatim>\<open>sql/function.cpp\<close>: the tree printer \<open>output\<close> and the string literal decoder
  \<open>GetCorrectString\<close>, and \<open>SqlParser\<close> of \<^verbatim>\<open>sql/m_sql_parser.cpp\<close>.

  \<open>output\<close> recurses over the node heap; \<open>NoFuel\<close> would be unbounded recursion, and it is proved
  that on well-formed heaps the address of the root bounds the depth. A text is the
  concatenation of what is printed, or the first error.
\<close>

section \<open>Printing\<close>

fun cat :: "(sql_error + string) list \<Rightarrow> sql_error + string" where
  "cat [] = Inr []"
| "cat (x # xs) =
     (case x of
        Inl e \<Rightarrow> Inl e
      | Inr s \<Rightarrow> (case cat xs of Inl e \<Rightarrow> Inl e | Inr t \<Rightarrow> Inr (s @ t)))"

definition say :: "string \<Rightarrow> sql_error + string" where
  "say s = Inr s"

text \<open>Inserting a null \<open>char *\<close> into a stream is undefined.\<close>

definition pr :: "cstr \<Rightarrow> sql_error + string" where
  "pr c = (case c of None \<Rightarrow> Inl Undefined | Some s \<Rightarrow> Inr s)"

text \<open>\<open>if (node->f) cout<<node->f<<" ";\<close> for strings and numbers.\<close>

definition pr_opt :: "cstr \<Rightarrow> sql_error + string" where
  "pr_opt c = (case c of None \<Rightarrow> Inr [] | Some s \<Rightarrow> Inr (s @ '' ''))"

definition pr_num :: "int \<Rightarrow> sql_error + string" where
  "pr_num i = (if i \<noteq> 0 then Inr (show_int i @ '' '') else Inr [])"

fun outputSpace :: "nat \<Rightarrow> string" where
  "outputSpace 0 = []"
| "outputSpace (Suc f) = ''  '' @ outputSpace f"

type_synonym printer = "ptr \<Rightarrow> nat \<Rightarrow> sql_error + string"

definition out_Columns :: "printer \<Rightarrow> Columns \<Rightarrow> nat \<Rightarrow> sql_error + string" where
  "out_Columns rec node flr =
     (if Columns_type node = t_name_name then
        cat [say (outputSpace flr), say ''Columns: '', pr (Columns_parameter1 node), say ''  '',
             pr (Columns_parameter2 node), say nl]
      else if Columns_type node = t_name then
        cat [say (outputSpace flr), say ''Columns: '', pr (Columns_parameter2 node), say nl]
      else
        cat [say (outputSpace flr), say ''Columns: '', pr_opt (Columns_parameter1 node),
             pr_opt (Columns_parameter2 node), say nl,
             (if Columns_next node \<noteq> None then rec (Columns_next node) (flr + 1) else say [])])"

fun expr_label :: "nodetype \<Rightarrow> string" where
  "expr_label t = (if t = t_stringval then ''t_stringval: '' else if t = t_intnum then ''t_intnum: ''
     else if t = t_approxnum then ''t_approxnum: '' else if t = t_bool then ''t_bool: ''
     else ''t_dateval: '')"

definition out_Expr :: "Expr \<Rightarrow> nat \<Rightarrow> sql_error + string" where
  "out_Expr node flr =
     cat [say (outputSpace flr), say (expr_label (Expr_type node)), pr (Expr_data node), say nl]"

definition out_Expr_list :: "printer \<Rightarrow> Expr_list \<Rightarrow> nat \<Rightarrow> sql_error + string" where
  "out_Expr_list rec node flr =
     cat [say (outputSpace flr), say ''Expr_list: '', say nl,
          (if Expr_list_data node \<noteq> None then rec (Expr_list_data node) (flr + 1) else say []),
          (if Expr_list_next node \<noteq> None then rec (Expr_list_next node) flr else say [])]"

definition out_Expr_cal :: "printer \<Rightarrow> Expr_cal \<Rightarrow> nat \<Rightarrow> sql_error + string" where
  "out_Expr_cal rec node flr =
     cat [say (outputSpace flr), say ''str: >>>>>>>>'', pr (Expr_cal_str node), say nl,
          say (outputSpace flr), say ''Expr_cal: '', pr_opt (Expr_cal_sign node),
          pr_opt (Expr_cal_parameter node), pr_num (Expr_cal_cmp node), say nl,
          rec (Expr_cal_lnext node) (flr + 1), rec (Expr_cal_rnext node) (flr + 1)]"

definition out_Expr_func :: "printer \<Rightarrow> Expr_func \<Rightarrow> nat \<Rightarrow> sql_error + string" where
  "out_Expr_func rec node flr =
     cat [say (outputSpace flr),
          (case Expr_func_str node of None \<Rightarrow> say [] | Some s \<Rightarrow> say (''str: >>>>>>>>'' @ s @ nl)),
          say (outputSpace flr), say ''Expr_func: '', pr_opt (Expr_func_funname node), say nl,
          rec (Expr_func_args node) (flr + 1), rec (Expr_func_parameter1 node) (flr + 1),
          rec (Expr_func_parameter2 node) (flr + 1), rec (Expr_func_next node) (flr + 1)]"

text \<open>
  \<open>for(p=lists->header;p!=NULL;p=((Expr_list *)p)->next) output(p,floor+1);\<close> -- the nodes visited;
  each \<open>output(p)\<close> prints the rest of the list as well.
\<close>

fun header_nodes :: "nat \<Rightarrow> sql_state \<Rightarrow> ptr \<Rightarrow> sql_error + nat list" where
  "header_nodes fuel st None = Inr []"
| "header_nodes 0 st (Some a) = Inl NoFuel"
| "header_nodes (Suc fuel) st (Some a) =
     (case sq_mem st a of
        Some (Expr_list_node n) \<Rightarrow>
          (case header_nodes fuel st (Expr_list_next n) of Inl e \<Rightarrow> Inl e | Inr as \<Rightarrow> Inr (a # as))
      | _ \<Rightarrow> Inl Undefined)"

definition out_whcdn :: "sql_state \<Rightarrow> printer \<Rightarrow> ptr \<Rightarrow> nat \<Rightarrow> sql_error + string" where
  "out_whcdn st rec w flr =
     (case Option.bind w (sq_mem st) of
        Some (Expr_list_header_node h) \<Rightarrow>
          (case header_nodes (sq_next st) st (Expr_list_header_header h) of
             Inl e \<Rightarrow> Inl e
           | Inr as \<Rightarrow> cat (map (\<lambda>a. rec (Some a) (flr + 1)) as))
      | _ \<Rightarrow> Inl Undefined)"

definition out_Table :: "sql_state \<Rightarrow> printer \<Rightarrow> Table \<Rightarrow> nat \<Rightarrow> sql_error + string" where
  "out_Table st rec node flr =
     cat [say (outputSpace flr), say ''Table: '', pr_opt (Table_dbname node), pr_opt (Table_tablename node),
          pr_opt (Table_astablename node), pr_num (Table_issubquery node), say nl,
          rec (Table_subquery node) (flr + 1), out_whcdn st rec (Table_whcdn node) flr]"

definition out_Query_stmt :: "printer \<Rightarrow> Query_stmt \<Rightarrow> nat \<Rightarrow> sql_error + string" where
  "out_Query_stmt rec node flr =
     cat [say (outputSpace flr), say ''Query_stmt: '', pr_opt (Query_stmt_querystring node),
          pr_num (Query_stmt_select_opts node), say nl,
          rec (Query_stmt_select_list node) (flr + 1), rec (Query_stmt_from_list node) (flr + 1),
          rec (Query_stmt_where_list node) (flr + 1), rec (Query_stmt_groupby_list node) (flr + 1),
          rec (Query_stmt_having_list node) (flr + 1), rec (Query_stmt_orderby_list node) (flr + 1),
          rec (Query_stmt_limit_list node) (flr + 1), rec (Query_stmt_into_list node) (flr + 1)]"

definition out_Select_list :: "printer \<Rightarrow> Select_list \<Rightarrow> nat \<Rightarrow> sql_error + string" where
  "out_Select_list rec node flr =
     cat [say (outputSpace flr), say ''select_list: '',
          (if Select_list_isall node \<noteq> 0 then say ''is all '' else say []), say nl,
          rec (Select_list_args node) (flr + 1), rec (Select_list_next node) flr]"

definition out_Select_expr :: "printer \<Rightarrow> Select_expr \<Rightarrow> nat \<Rightarrow> sql_error + string" where
  "out_Select_expr rec node flr =
     cat [say (outputSpace flr), say ''Select_expr: '', pr_opt (Select_expr_ascolname node), say nl,
          rec (Select_expr_colname node) (flr + 1)]"

definition out_From_list :: "sql_state \<Rightarrow> printer \<Rightarrow> From_list \<Rightarrow> nat \<Rightarrow> sql_error + string" where
  "out_From_list st rec node flr =
     cat [say (outputSpace flr), say ''From_list: '', say nl, out_whcdn st rec (From_list_whcdn node) flr,
          rec (From_list_args node) (flr + 1), rec (From_list_next node) (flr + 1)]"

text \<open>The three list headers that print a name without a space behind it, or with one.\<close>

definition pr_name :: "cstr \<Rightarrow> sql_error + string" where
  "pr_name c = (case c of None \<Rightarrow> Inr [] | Some s \<Rightarrow> Inr s)"

definition out_From_expr :: "printer \<Rightarrow> From_expr \<Rightarrow> nat \<Rightarrow> sql_error + string" where
  "out_From_expr rec node flr =
     cat [say (outputSpace flr), say ''From_expr: '', pr_name (From_expr_astablename node), say nl,
          rec (From_expr_next node) (flr + 1)]"

definition out_Where_list :: "printer \<Rightarrow> Where_list \<Rightarrow> nat \<Rightarrow> sql_error + string" where
  "out_Where_list rec node flr =
     cat [say (outputSpace flr), say ''Where_list: '', pr_name (Where_list_wherestring node), say nl,
          rec (Where_list_next node) (flr + 1)]"

definition out_Groupby_list :: "printer \<Rightarrow> Groupby_list \<Rightarrow> nat \<Rightarrow> sql_error + string" where
  "out_Groupby_list rec node flr =
     cat [say (outputSpace flr), say ''Groupby_list: '', pr_opt (Groupby_list_groupbystring node),
          pr_num (Groupby_list_with_rollup node), say nl, rec (Groupby_list_next node) (flr + 1)]"

definition out_Groupby_expr :: "printer \<Rightarrow> Groupby_expr \<Rightarrow> nat \<Rightarrow> sql_error + string" where
  "out_Groupby_expr rec node flr =
     cat [say (outputSpace flr), say ''Groupby_expr: '', pr_num (Groupby_expr_sorttype node), say nl,
          rec (Groupby_expr_args node) (flr + 1), rec (Groupby_expr_next node) (flr + 1)]"

definition out_Having_list :: "printer \<Rightarrow> Having_list \<Rightarrow> nat \<Rightarrow> sql_error + string" where
  "out_Having_list rec node flr =
     cat [say (outputSpace flr), say ''Having_list: '', pr_opt (Having_list_havingstring node), say nl,
          rec (Having_list_next node) (flr + 1)]"

definition out_Orderby_list :: "printer \<Rightarrow> Orderby_list \<Rightarrow> nat \<Rightarrow> sql_error + string" where
  "out_Orderby_list rec node flr =
     cat [say (outputSpace flr), say ''Orderby_list: '', pr_opt (Orderby_list_orderbystring node), say nl,
          rec (Orderby_list_next node) (flr + 1)]"

definition out_Orderby_expr :: "printer \<Rightarrow> Orderby_expr \<Rightarrow> nat \<Rightarrow> sql_error + string" where
  "out_Orderby_expr rec node flr =
     cat [say (outputSpace flr), say ''Orderby_expr: '', pr_opt (Orderby_expr_sorttype node), say nl,
          rec (Orderby_expr_args node) (flr + 1), rec (Orderby_expr_next node) (flr + 1)]"

definition out_Limit_expr :: "printer \<Rightarrow> Limit_expr \<Rightarrow> nat \<Rightarrow> sql_error + string" where
  "out_Limit_expr rec node flr =
     cat [say (outputSpace flr), say ''Limit_expr: '', say nl, rec (Limit_expr_offset node) (flr + 1),
          rec (Limit_expr_row_count node) (flr + 1)]"

definition out_Join :: "printer \<Rightarrow> Join \<Rightarrow> nat \<Rightarrow> sql_error + string" where
  "out_Join rec node flr =
     cat [say (outputSpace flr), say ''Join:   jtype= '', say (show_int (Join_jointype node)), say nl,
          rec (Join_lnext node) (flr + 1), rec (Join_rnext node) (flr + 1),
          rec (Join_condition node) (flr + 1)]"

definition out_Condition :: "printer \<Rightarrow> Condition \<Rightarrow> nat \<Rightarrow> sql_error + string" where
  "out_Condition rec node flr =
     cat [say (outputSpace flr), say ''joincondition:   ctype= '', say (show_int (Condition_conditiontype node)),
          say nl, rec (Condition_args node) (flr + 1)]"

text \<open>The tags of the \<open>switch\<close>; every other one takes the \<open>default\<close> branch.\<close>

definition output_tags :: "nodetype list" where
  "output_tags = [t_name_name, t_name, t_stringval, t_intnum, t_approxnum, t_bool, t_dateval, t_expr_list,
     t_column, t_expr_cal, t_expr_func, t_table, t_query_stmt, t_select_list, t_select_expr, t_from_list,
     t_from_expr, t_where_list, t_groupby_list, t_groupby_expr, t_having_list, t_orderby_list,
     t_orderby_expr, t_limit_expr, t_join, t_condition]"

text \<open>The cast of a node whose struct does not fit its tag.\<close>

definition out_other :: "nodetype \<Rightarrow> sql_error + string" where
  "out_other t = (if t \<in> set output_tags then Inl Undefined else say (''output type not exist!!!'' @ nl))"

definition output_node :: "sql_state \<Rightarrow> printer \<Rightarrow> snode \<Rightarrow> nat \<Rightarrow> sql_error + string" where
  "output_node st rec nd flr =
     (case nd of
        Columns_node n \<Rightarrow> if Columns_type n \<in> {t_name_name, t_name, t_column} then out_Columns rec n flr
          else out_other (Columns_type n)
      | Expr_node n \<Rightarrow> if Expr_type n \<in> {t_stringval, t_intnum, t_approxnum, t_bool, t_dateval}
          then out_Expr n flr else out_other (Expr_type n)
      | Expr_list_node n \<Rightarrow> if Expr_list_type n = t_expr_list then out_Expr_list rec n flr
          else out_other (Expr_list_type n)
      | Expr_cal_node n \<Rightarrow> if Expr_cal_type n = t_expr_cal then out_Expr_cal rec n flr
          else out_other (Expr_cal_type n)
      | Expr_func_node n \<Rightarrow> if Expr_func_type n = t_expr_func then out_Expr_func rec n flr
          else out_other (Expr_func_type n)
      | Table_node n \<Rightarrow> if Table_type n = t_table then out_Table st rec n flr else out_other (Table_type n)
      | Query_stmt_node n \<Rightarrow> if Query_stmt_type n = t_query_stmt then out_Query_stmt rec n flr
          else out_other (Query_stmt_type n)
      | Select_list_node n \<Rightarrow> if Select_list_type n = t_select_list then out_Select_list rec n flr
          else out_other (Select_list_type n)
      | Select_expr_node n \<Rightarrow> if Select_expr_type n = t_select_expr then out_Select_expr rec n flr
          else out_other (Select_expr_type n)
      | From_list_node n \<Rightarrow> if From_list_type n = t_from_list then out_From_list st rec n flr
          else out_other (From_list_type n)
      | From_expr_node n \<Rightarrow> if From_expr_type n = t_from_expr then out_From_expr rec n flr
          else out_other (From_expr_type n)
      | Where_list_node n \<Rightarrow> if Where_list_type n = t_where_list then out_Where_list rec n flr
          else out_other (Where_list_type n)
      | Groupby_list_node n \<Rightarrow> if Groupby_list_type n = t_groupby_list then out_Groupby_list rec n flr
          else out_other (Groupby_list_type n)
      | Groupby_expr_node n \<Rightarrow> if Groupby_expr_type n = t_groupby_expr then out_Groupby_expr rec n flr
          else out_other (Groupby_expr_type n)
      | Having_list_node n \<Rightarrow> if Having_list_type n = t_having_list then out_Having_list rec n flr
          else out_other (Having_list_type n)
      | Orderby_list_node n \<Rightarrow> if Orderby_list_type n = t_orderby_list then out_Orderby_list rec n flr
          else out_other (Orderby_list_type n)
      | Orderby_expr_node n \<Rightarrow> if Orderby_expr_type n = t_orderby_expr then out_Orderby_expr rec n flr
          else out_other (Orderby_expr_type n)
      | Limit_expr_node n \<Rightarrow> if Limit_expr_type n = t_limit_expr then out_Limit_expr rec n flr
          else out_other (Limit_expr_type n)
      | Join_node n \<Rightarrow> if Join_type n = t_join then out_Join rec n flr else out_other (Join_type n)
      | Condition_node n \<Rightarrow> if Condition_type n = t_condition then out_Condition rec n flr
          else out_other (Condition_type n)
      | _ \<Rightarrow> out_other (ntype nd))"

fun output_tree :: "nat \<Rightarrow> sql_state \<Rightarrow> ptr \<Rightarrow> nat \<Rightarrow> sql_error + string" where
  "output_tree fuel st None flr = Inr []"
| "output_tree 0 st (Some a) flr = Inl NoFuel"
| "output_tree (Suc fuel) st (Some a) flr =
     (case sq_mem st a of
        None \<Rightarrow> Inl Undefined
      | Some nd \<Rightarrow> output_node st (output_tree fuel st) nd flr)"

section \<open>GetCorrectString\<close>

text \<open>
  The loop from \<open>i\<close> to \<open>strlen(src)-1\<close>, which is \<open>SIZE_MAX\<close> for the empty string and then
  runs out of \<open>src\<close>. \<open>dest\<close> collects the characters written.
\<close>

definition chr_nl :: char where "chr_nl = CHR 0x0A"
definition chr_tab :: char where "chr_tab = CHR 0x09"
definition chr_bs :: char where "chr_bs = CHR 0x5C"
definition chr_sq :: char where "chr_sq = CHR 0x27"
definition chr_dq :: char where "chr_dq = CHR 0x22"

function gcs_loop :: "string \<Rightarrow> nat \<Rightarrow> string \<Rightarrow> string" where
  "gcs_loop src i dest =
     (if i < length src - 1 then
        if src ! i = chr_bs then
          if src ! (i + 1) = CHR ''n'' then gcs_loop src (i + 2) (dest @ [chr_nl])
          else if src ! (i + 1) = CHR ''t'' then gcs_loop src (i + 2) (dest @ [chr_tab])
          else if src ! (i + 1) = chr_sq \<and> i + 1 \<noteq> length src - 1 then gcs_loop src (i + 2) (dest @ [chr_sq])
          else if src ! (i + 1) = chr_dq \<and> i + 1 \<noteq> length src - 1 then gcs_loop src (i + 2) (dest @ [chr_dq])
          else gcs_loop src (i + 1) (dest @ [src ! i])
        else gcs_loop src (i + 1) (dest @ [src ! i])
      else dest)"
  by pat_completeness auto
termination
  by (relation "measure (\<lambda>(src, i, dest). length src - i)") auto

declare gcs_loop.simps [simp del]

definition GetCorrectString :: "string \<Rightarrow> string option" where
  "GetCorrectString src = (if src = [] then None else Some (gcs_loop src 1 []))"

text \<open>How a literal is written: the characters the decoder knows are escaped.\<close>

fun escape :: "string \<Rightarrow> string" where
  "escape [] = []"
| "escape (c # cs) =
     (if c = chr_nl then [chr_bs, CHR ''n''] else if c = chr_tab then [chr_bs, CHR ''t'']
      else if c = chr_sq then [chr_bs, chr_sq] else if c = chr_dq then [chr_bs, chr_dq] else [c]) @ escape cs"

section \<open>SqlParser\<close>

text \<open>
  Reading a statement: \<open>getchar\<close> until a semicolon into \<open>globalInputText[10000]\<close>. Running past
  the buffer is undefined; the input running out stores \<open>EOF\<close> for ever, which ends there too.
\<close>

definition input_size :: nat where "input_size = 10000"

fun read_statement :: "string \<Rightarrow> nat \<Rightarrow> string \<Rightarrow> (string \<times> string) option" where
  "read_statement [] charnum acc = None"
| "read_statement (c # cs) charnum acc =
     (if charnum < input_size then
        if c = CHR '';'' then
          if charnum + 1 < input_size then Some (acc @ [c], cs) else None
        else read_statement cs (charnum + 1) (acc @ [c])
      else None)"

text \<open>\<open>getparsetreeroot\<close>; \<open>yyparse\<close> is generated code: it gives the root, or a failure.\<close>

definition getparsetreeroot :: "(string \<Rightarrow> ptr option) \<Rightarrow> string \<Rightarrow> (ptr \<times> string \<times> string) option" where
  "getparsetreeroot yyparse input = do {
     (t, rest) \<leftarrow> read_statement input 0 [];
     case yyparse t of
       Some root \<Rightarrow> Some (root, rest, ''Claims>'')
     | None \<Rightarrow> Some (None, rest, ''Claims>SQL parse failed'' @ nl)
   }"

fun column_name :: "snode \<Rightarrow> cstr option" where
  "column_name (Columns_node n) = Some (Columns_parameter2 n)"
| "column_name _ = None"

fun order_args :: "snode \<Rightarrow> ptr option" where
  "order_args (Orderby_expr_node n) = Some (Orderby_expr_args n)"
| "order_args (Groupby_expr_node n) = Some (Groupby_expr_args n)"
| "order_args _ = None"

text \<open>
  \<open>osgwf_2_lp\<close>: the plan (always the null pointer) and the text printed. The entry behind the
  order-by list is cast to \<open>Groupby_expr\<close>; its \<open>args\<close> are at the same place in an
  \<open>Orderby_expr\<close>.
\<close>

definition osgwf_2_lp :: "sql_state \<Rightarrow> nat \<Rightarrow> (ptr \<times> string) option" where
  "osgwf_2_lp st tree =
     (case sq_mem st tree of
        Some (Query_stmt_node q) \<Rightarrow>
          (case Query_stmt_orderby_list q of
             None \<Rightarrow> Some (None, [])
           | Some ol \<Rightarrow>
               (case sq_mem st ol of
                  Some (Orderby_list_node o') \<Rightarrow> do {
                    g \<leftarrow> Orderby_list_next o';
                    ge \<leftarrow> sq_mem st g;
                    args \<leftarrow> order_args ge;
                    a \<leftarrow> args;
                    nd \<leftarrow> sq_mem st a;
                    if ntype nd \<in> {t_name, t_column, t_name_name} then do {
                      c \<leftarrow> column_name nd;
                      s \<leftarrow> c;
                      Some (None, ''I am in 2_lp;'' @ nl @ ''in sort: '' @ s @ nl)
                    }
                    else Some (None, ''I am in 2_lp;'' @ nl)
                  }
                | _ \<Rightarrow> None))
      | _ \<Rightarrow> None)"

text \<open>\<open>ast_2_lp\<close>: the query case has no \<open>break\<close> and falls into the default, which resets the plan.\<close>

definition ast_2_lp :: "sql_state \<Rightarrow> nat \<Rightarrow> (ptr \<times> string) option" where
  "ast_2_lp st tree = do {
     nd \<leftarrow> sq_mem st tree;
     (plan, out) \<leftarrow> (if ntype nd = t_query_stmt then osgwf_2_lp st tree else Some (None, []));
     Some (None, out @ ''parser tree is null!'' @ nl)
   }"

text \<open>One round of the statement loop of \<open>execute\<close>; \<open>enum_no\<close> numbers the tags as the C enum does.\<close>

definition exec_stmt :: "(nodetype \<Rightarrow> nat) \<Rightarrow> sql_state \<Rightarrow> ptr \<Rightarrow> string option" where
  "exec_stmt enum_no st data = do {
     d \<leftarrow> data;
     nd \<leftarrow> sq_mem st d;
     if ntype nd = t_query_stmt then do {
       (plan, t) \<leftarrow> ast_2_lp st d;
       Some (''Query>>'' @ nl @ ''just check!!!'' @ nl @ t)
     }
     else Some (dec (enum_no (ntype nd)) @ nl @ ''nothing matched!'' @ nl @ nl)
   }"

fun exec_stmts :: "(nodetype \<Rightarrow> nat) \<Rightarrow> nat \<Rightarrow> sql_state \<Rightarrow> ptr \<Rightarrow> string option" where
  "exec_stmts enum_no fuel st None = Some []"
| "exec_stmts enum_no 0 st (Some a) = None"
| "exec_stmts enum_no (Suc fuel) st (Some a) =
     (case sq_mem st a of
        Some (Stmt_node s) \<Rightarrow> do {
          o' \<leftarrow> exec_stmt enum_no st (Stmt_data s);
          rest \<leftarrow> exec_stmts enum_no fuel st (Stmt_next s);
          Some (o' @ rest)
        }
      | _ \<Rightarrow> None)"

section \<open>Properties\<close>

definition safe :: "sql_error + string \<Rightarrow> bool" where
  "safe x \<longleftrightarrow> x \<noteq> Inl NoFuel"

lemma cat_safe [simp]: "list_all safe xs \<Longrightarrow> safe (cat xs)"
  by (induction xs) (auto simp: safe_def split: sum.splits)

lemma say_safe [simp]: "safe (say s)" "safe (pr c)" "safe (pr_opt c)" "safe (pr_num i)" "safe (pr_name c)"
  "safe (out_other t)" "safe (Inr s)"
  by (auto simp: safe_def say_def pr_def pr_opt_def pr_num_def pr_name_def out_other_def split: option.splits)

lemma out_whcdn_safe:
  assumes "node_ok st a nd" and "header_of nd = Some w"
  shows "out_whcdn st rec w flr = Inr []"
  using assms by (auto simp: node_ok_def out_whcdn_def empty_header_def)

declare cat.simps [simp del]

lemmas out_defs = out_Columns_def out_Expr_def out_Expr_list_def out_Expr_cal_def out_Expr_func_def
  out_Table_def out_Query_stmt_def out_Select_list_def out_Select_expr_def out_From_list_def
  out_From_expr_def out_Where_list_def out_Groupby_list_def out_Groupby_expr_def out_Having_list_def
  out_Orderby_list_def out_Orderby_expr_def out_Limit_expr_def out_Join_def out_Condition_def

lemma output_node_safe:
  assumes "node_ok st a nd" and "\<And>p f. p \<in> set (kids nd) \<Longrightarrow> safe (rec p f)"
  shows "safe (output_node st rec nd flr)"
proof (cases nd)
  case (Table_node n)
  then have "out_whcdn st rec (Table_whcdn n) flr = Inr []" using out_whcdn_safe [OF assms(1)] by simp
  then show ?thesis using assms(2) Table_node by (simp add: output_node_def out_defs)
next
  case (From_list_node n)
  then have "out_whcdn st rec (From_list_whcdn n) flr = Inr []" using out_whcdn_safe [OF assms(1)] by simp
  then show ?thesis using assms(2) From_list_node by (simp add: output_node_def out_defs)
qed (use assms(2) in \<open>simp add: output_node_def out_defs split: option.splits\<close>)+

text \<open>
  C35. Printing a tree ends: on a well-formed heap the recursion of \<open>output\<close> from node \<open>a\<close> is at
  most \<open>a + 1\<close> calls deep, because every pointer a node holds refers to an older node.
\<close>

theorem output_terminates:
  assumes "sql_ok st"
  shows "output_tree (Suc a) st (Some a) flr \<noteq> Inl NoFuel"
proof -
  have "safe (output_tree fuel st (Some a) f)" if "a < fuel" for fuel a f
    using that
  proof (induction fuel arbitrary: a f)
    case (Suc fuel)
    show ?case
    proof (cases "sq_mem st a")
      case (Some nd)
      then have ok: "node_ok st a nd" using assms by (auto simp: sql_ok_def)
      have "safe (output_tree fuel st p g)" if "p \<in> set (kids nd)" for p g
      proof (cases p)
        case (Some b)
        then have "b < a" using ok that by (auto simp: node_ok_def)
        then show ?thesis using Suc Some by auto
      qed simp
      then show ?thesis using output_node_safe [OF ok] Some by simp
    qed (simp add: safe_def)
  qed simp
  then have "safe (output_tree (Suc a) st (Some a) flr)" by blast
  then show ?thesis by (simp add: safe_def)
qed

subsection \<open>String literals\<close>

lemmas chr_defs = chr_nl_def chr_tab_def chr_bs_def chr_sq_def chr_dq_def

lemma chr_distinct [simp]:
  "chr_nl \<noteq> chr_tab" "chr_nl \<noteq> chr_bs" "chr_nl \<noteq> chr_sq" "chr_nl \<noteq> chr_dq" "chr_tab \<noteq> chr_bs" "chr_tab \<noteq> chr_sq"
  "chr_tab \<noteq> chr_dq" "chr_bs \<noteq> chr_sq" "chr_bs \<noteq> chr_dq" "chr_sq \<noteq> chr_dq" "chr_sq \<noteq> CHR ''n''"
  "chr_sq \<noteq> CHR ''t''" "chr_dq \<noteq> CHR ''n''" "chr_dq \<noteq> CHR ''t''"
  by (simp_all add: chr_defs)

lemmas chr_distinct_sym [simp] = chr_distinct [symmetric]

lemma gcs_loop_escape:
  assumes "chr_bs \<notin> set s" and "i = length pre" and "1 \<le> i"
  shows "gcs_loop (pre @ escape s @ [q]) i dest = dest @ s"
  using assms
proof (induction s arbitrary: i pre dest)
  case Nil
  then show ?case by (subst gcs_loop.simps) simp
next
  case (Cons c cs)
  let ?src = "pre @ escape (c # cs) @ [q]"
  have nth: "?src ! i = (escape (c # cs) @ [q]) ! 0" "?src ! (i + 1) = (escape (c # cs) @ [q]) ! 1"
    using Cons.prems(2) by (simp_all add: nth_append)
  show ?case
  proof (cases "c \<in> {chr_nl, chr_tab, chr_sq, chr_dq}")
    case True
    then obtain e where e: "escape (c # cs) = [chr_bs, e] @ escape cs" by auto
    have "gcs_loop ?src i dest = gcs_loop ?src (i + 2) (dest @ [c])"
      using True Cons.prems(2) nth by (subst gcs_loop.simps) auto
    also have "\<dots> = dest @ c # cs"
      using Cons.IH [of "i + 2" "pre @ [chr_bs, e]" "dest @ [c]"] Cons.prems e by simp
    finally show ?thesis .
  next
    case False
    then have e: "escape (c # cs) = [c] @ escape cs" by auto
    have "gcs_loop ?src i dest = gcs_loop ?src (i + 1) (dest @ [c])"
      using Cons.prems nth e by (subst gcs_loop.simps) auto
    also have "\<dots> = dest @ c # cs"
      using Cons.IH [of "i + 1" "pre @ [c]" "dest @ [c]"] Cons.prems e by simp
    finally show ?thesis .
  qed
qed

text \<open>
  C36. Decoding a literal undoes writing it: for a text without backslashes, escaping newlines,
  tabs and both kinds of quotes, putting quotes around it and passing it to \<open>GetCorrectString\<close>
  gives the text back. The closing quote is never taken for an escaped one.
\<close>

theorem literal_roundtrip:
  assumes "chr_bs \<notin> set s"
  shows "GetCorrectString (q # escape s @ [q]) = Some s"
  using gcs_loop_escape [OF assms, of 1 "[q]" q "[]"] by (simp add: GetCorrectString_def)

subsection \<open>Reading and executing statements\<close>

lemma read_statement_spec:
  "read_statement cs k acc = (case dropWhile (\<lambda>c. c \<noteq> CHR '';'') cs of
     [] \<Rightarrow> None
   | d # rest \<Rightarrow> if k + length (takeWhile (\<lambda>c. c \<noteq> CHR '';'') cs) + 1 < input_size
       then Some (acc @ takeWhile (\<lambda>c. c \<noteq> CHR '';'') cs @ [CHR '';''], rest) else None)"
proof (induction cs arbitrary: k acc)
  case (Cons c cs)
  show ?case
  proof (cases "c = CHR '';''")
    case False
    have "read_statement (c # cs) k acc = (if k < input_size then read_statement cs (k + 1) (acc @ [c]) else None)"
      using False by simp
    then show ?thesis unfolding Cons using False
      by (cases "dropWhile (\<lambda>c. c \<noteq> CHR '';'') cs"; cases "k < input_size") (simp_all del: dropWhile_eq_Nil_conv)
  qed simp
qed simp

text \<open>
  \<open>getparsetreeroot\<close> reads exactly one statement: if the input has a semicolon after fewer
  than 9999 characters, the parser gets the text up to and including it and the rest stays in
  the input; a longer statement writes outside \<open>globalInputText\<close>.
\<close>

theorem statement_read:
  "getparsetreeroot yyparse input =
     (case dropWhile (\<lambda>c. c \<noteq> CHR '';'') input of
        [] \<Rightarrow> None
      | d # rest \<Rightarrow>
          (let t = takeWhile (\<lambda>c. c \<noteq> CHR '';'') input @ [CHR '';''] in
           if length t < 10000
           then (case yyparse t of Some root \<Rightarrow> Some (root, rest, ''Claims>'')
                 | None \<Rightarrow> Some (None, rest, ''Claims>SQL parse failed'' @ nl))
           else None))"
  by (cases "dropWhile (\<lambda>c. c \<noteq> CHR '';'') input"; cases "yyparse (takeWhile (\<lambda>c. c \<noteq> CHR '';'') input @ [CHR '';''])")
    (simp_all add: getparsetreeroot_def read_statement_spec input_size_def Let_def del: dropWhile_eq_Nil_conv)

lemma exec_stmts_chain:
  assumes "stmt_chain (sq_mem st) p xs" and "length xs \<le> fuel"
    and "\<forall>x \<in> set xs. exec_stmt enum_no st (snd x) \<noteq> None"
  shows "exec_stmts enum_no fuel st p = Some (concat (map (\<lambda>x. the (exec_stmt enum_no st (snd x))) xs))"
  using assms
proof (induction xs arbitrary: p fuel)
  case (Cons x xs)
  obtain a d where x: "x = (a, d)" by force
  from Cons.prems(2) obtain f where f: "fuel = Suc f" by (cases fuel) auto
  from Cons.prems(1) obtain n where n: "p = Some a" "sq_mem st a = Some (Stmt_node n)" "Stmt_data n = d"
    "stmt_chain (sq_mem st) (Stmt_next n) xs" by (auto simp: x)
  then show ?case using Cons.IH [OF n(4), of f] Cons.prems by (auto simp: x f)
qed simp

text \<open>
  The statement loop handles every statement of the parsed list exactly once, in order, and
  ends: its output is the concatenation of the statements' outputs.
\<close>

theorem statements_executed:
  assumes "stmt_list st p xs" and "\<forall>x \<in> set xs. exec_stmt enum_no st (snd x) \<noteq> None"
  shows "exec_stmts enum_no (length xs) st p = Some (concat (map (\<lambda>x. the (exec_stmt enum_no st (snd x))) xs))"
  using exec_stmts_chain [of st p xs "length xs" enum_no] assms by (simp add: stmt_list_def)

theorem output_terminates_witness: "output_tree 1 expr_start (Some 0) 2 \<noteq> Inl NoFuel"
  using output_terminates [OF sql_ok_expr_start, of 0 2] by simp

theorem literal_roundtrip_witness: "GetCorrectString (chr_sq # escape ''it works'' @ [chr_sq]) = Some ''it works''"
  by (rule literal_roundtrip) (simp add: chr_bs_def)

definition stmt_start :: sql_state where
  "stmt_start = \<lparr>sq_mem = [0 \<mapsto> Expr_node \<lparr>Expr_type = t_intnum, Expr_data = Some ''1''\<rparr>,
     1 \<mapsto> Stmt_node \<lparr>Stmt_type = t_stmt, Stmt_data = Some 0, Stmt_next = None, Stmt_last = Some 1\<rparr>],
     sq_next = 2, sq_room = 5, sq_NodePointer = [0, 1], sq_out = []\<rparr>"

theorem statements_executed_witness:
  "exec_stmts (\<lambda>_. 5) 1 stmt_start (Some 1) = Some (dec 5 @ nl @ ''nothing matched!'' @ nl @ nl)"
proof -
  have "stmt_list stmt_start (Some 1) [(1, Some 0)]" by (simp add: stmt_list_def stmt_start_def)
  then show ?thesis
    using statements_executed [of stmt_start "Some 1" "[(1, Some 0)]" "\<lambda>_. 5"]
    by (simp add: exec_stmt_def) (simp add: stmt_start_def)
qed

end
