(* ===== verification/Mosito_SqlSession.thy ===== *)
theory Mosito_SqlSession
  imports Mosito_Sql
begin

text \<open>
  What a parse does with the constructors of \<^verbatim>\<open>sql/function.cpp\<close>: any sequence of calls, each of which passes
  null pointers or results of earlier calls, as the semantic actions of the grammar do; at the end \<open>FreeAllNode\<close>.
  \<open>sql_call\<close> has one constructor for every function but \<open>newStmt\<close>, which changes other nodes (\<open>stmt_list_built\<close>),
  and \<open>newExprlistheader\<close>, which only \<open>newTable\<close> and \<open>newFromList\<close> call.
\<close>

section \<open>Calls\<close>

datatype (plugins only:) sql_call =
    C_newExpr nodetype cstr
  | C_newExprList nodetype ptr ptr
  | C_newColumn nodetype cstr cstr ptr
  | C_newExprCal nodetype cstr cstr int ptr ptr
  | C_newExprFunc nodetype cstr ptr ptr ptr ptr
  | C_newTable nodetype cstr cstr cstr int ptr
  | C_newJoin nodetype int ptr ptr ptr
  | C_newCondition nodetype int ptr
  | C_newSubquery nodetype cstr ptr
  | C_newQueryStmt nodetype cstr int ptr ptr ptr ptr ptr ptr ptr ptr
  | C_newSelectList nodetype int ptr ptr
  | C_newSelectExpr nodetype cstr ptr
  | C_newFromList nodetype ptr ptr
  | C_newFromExpr nodetype cstr ptr
  | C_newWhereList nodetype cstr ptr
  | C_newGroupbyList nodetype cstr ptr int
  | C_newGroupbyExpr nodetype ptr int ptr
  | C_newHavingList nodetype cstr ptr
  | C_newOrderbyList nodetype cstr ptr
  | C_newOrderbyExpr nodetype ptr cstr ptr
  | C_newLimitExpr nodetype ptr ptr
  | C_newInsertStmt int cstr ptr ptr ptr ptr ptr
  | C_newInsertValueList ptr ptr
  | C_newInsertVals int ptr ptr
  | C_newInsertAssignList cstr int ptr ptr
  | C_newCreateDatabaseStmt nodetype int int cstr
  | C_newCreateTableStmt nodetype int int cstr cstr ptr ptr
  | C_newCreateColList nodetype ptr ptr
  | C_newCreateDef nodetype int cstr ptr ptr ptr
  | C_newColumnAtts nodetype int int nat cstr ptr
  | C_newCreateSelectStmt nodetype int int ptr
  | C_newCreateProjectionStmt nodetype cstr ptr int cstr
  | C_newDoStmt nodetype ptr
  | C_newTruncateStmt nodetype cstr
  | C_newAlterDatabaseStmt nodetype int cstr ptr
  | C_newOptCsc nodetype int cstr cstr
  | C_newAlterTableStmt nodetype int cstr ptr
  | C_newAlterDef nodetype int cstr cstr int int ptr ptr
  | C_newDatatype nodetype int ptr int ptr int ptr
  | C_newLength nodetype int int
  | C_newEnumList nodetype cstr ptr
  | C_newCreateIndex nodetype int cstr int cstr ptr
  | C_newIndexColList nodetype cstr ptr int ptr
  | C_newDropIndex nodetype cstr cstr
  | C_newDropDatabase nodetype int int cstr
  | C_newDropTable nodetype int int int ptr
  | C_newLoadTable nodetype cstr ptr cstr cstr
  | C_newTableList nodetype cstr cstr ptr
  | C_newShowStmt int bool cstr cstr

fun run_call :: "sql_call \<Rightarrow> sql_state \<Rightarrow> sql_res" where
  "run_call (C_newExpr t d) = newExpr t d"
| "run_call (C_newExprList t data next') = newExprList t data next'"
| "run_call (C_newColumn t parameter1 parameter2 next') = newColumn t parameter1 parameter2 next'"
| "run_call (C_newExprCal type sign parameter cmp lnext rnext) = newExprCal type sign parameter cmp lnext rnext"
| "run_call (C_newExprFunc type funname args parameter1 parameter2 next') = newExprFunc type funname args parameter1 parameter2 next'"
| "run_call (C_newTable type dbname tablename astablename issubquery subquery) = newTable type dbname tablename astablename issubquery subquery"
| "run_call (C_newJoin type jointype lnext rnext condition) = newJoin type jointype lnext rnext condition"
| "run_call (C_newCondition type conditiontype args) = newCondition type conditiontype args"
| "run_call (C_newSubquery type querystring next') = newSubquery type querystring next'"
| "run_call (C_newQueryStmt t querystring select_opts select_list from_list where_list groupby_list having_list orderby_list limit_list into_list) = newQueryStmt t querystring select_opts select_list from_list where_list groupby_list having_list orderby_list limit_list into_list"
| "run_call (C_newSelectList type isall args next') = newSelectList type isall args next'"
| "run_call (C_newSelectExpr type ascolname colname) = newSelectExpr type ascolname colname"
| "run_call (C_newFromList type args next') = newFromList type args next'"
| "run_call (C_newFromExpr type astablename next') = newFromExpr type astablename next'"
| "run_call (C_newWhereList type wherestring next') = newWhereList type wherestring next'"
| "run_call (C_newGroupbyList type groupbystring next' with_rollup) = newGroupbyList type groupbystring next' with_rollup"
| "run_call (C_newGroupbyExpr type args sorttype next') = newGroupbyExpr type args sorttype next'"
| "run_call (C_newHavingList type havingstring next') = newHavingList type havingstring next'"
| "run_call (C_newOrderbyList type orderbystring next') = newOrderbyList type orderbystring next'"
| "run_call (C_newOrderbyExpr type args sorttype next') = newOrderbyExpr type args sorttype next'"
| "run_call (C_newLimitExpr type offset row_count) = newLimitExpr type offset row_count"
| "run_call (C_newInsertStmt insert_opt tablename col_list insert_val_list insert_assign_list insert_assign_list_from_set select_stmt) = newInsertStmt insert_opt tablename col_list insert_val_list insert_assign_list insert_assign_list_from_set select_stmt"
| "run_call (C_newInsertValueList insert_vals next') = newInsertValueList insert_vals next'"
| "run_call (C_newInsertVals value_type expr next') = newInsertVals value_type expr next'"
| "run_call (C_newInsertAssignList col_name value_type expr next') = newInsertAssignList col_name value_type expr next'"
| "run_call (C_newCreateDatabaseStmt type create_type check name) = newCreateDatabaseStmt type create_type check name"
| "run_call (C_newCreateTableStmt type create_type check name1 name2 list' select_stmt) = newCreateTableStmt type create_type check name1 name2 list' select_stmt"
| "run_call (C_newCreateColList type data next') = newCreateColList type data next'"
| "run_call (C_newCreateDef type deftype name datatype col_atts col_list) = newCreateDef type deftype name datatype col_atts col_list"
| "run_call (C_newColumnAtts type datatype num1 num2 s col_list) = newColumnAtts type datatype num1 num2 s col_list"
| "run_call (C_newCreateSelectStmt type ignore_replace temporary select_stmt) = newCreateSelectStmt type ignore_replace temporary select_stmt"
| "run_call (C_newCreateProjectionStmt type tablename column_list partition_num partition_attribute_name) = newCreateProjectionStmt type tablename column_list partition_num partition_attribute_name"
| "run_call (C_newDoStmt type data) = newDoStmt type data"
| "run_call (C_newTruncateStmt type name) = newTruncateStmt type name"
| "run_call (C_newAlterDatabaseStmt type createtype name opt) = newAlterDatabaseStmt type createtype name opt"
| "run_call (C_newOptCsc type datatype s1 s2) = newOptCsc type datatype s1 s2"
| "run_call (C_newAlterTableStmt type isignore name parameter) = newAlterTableStmt type isignore name parameter"
| "run_call (C_newAlterDef type altertype name1 name2 datatype coltype parameter next') = newAlterDef type altertype name1 name2 datatype coltype parameter next'"
| "run_call (C_newDatatype type datatype length' opt_uz opt_csc isbinary enum_list) = newDatatype type datatype length' opt_uz opt_csc isbinary enum_list"
| "run_call (C_newLength type data1 data2) = newLength type data1 data2"
| "run_call (C_newEnumList type s next') = newEnumList type s next'"
| "run_call (C_newCreateIndex type index_att index_name index_type table_name index_col_name) = newCreateIndex type index_att index_name index_type table_name index_col_name"
| "run_call (C_newIndexColList type name length' asc_desc next') = newIndexColList type name length' asc_desc next'"
| "run_call (C_newDropIndex type index_name table_name) = newDropIndex type index_name table_name"
| "run_call (C_newDropDatabase type drop_type check name) = newDropDatabase type drop_type check name"
| "run_call (C_newDropTable type is_temp is_check opt_rc table_list) = newDropTable type is_temp is_check opt_rc table_list"
| "run_call (C_newLoadTable type table_name path column_separator tuple_separator) = newLoadTable type table_name path column_separator tuple_separator"
| "run_call (C_newTableList type name1 name2 next') = newTableList type name1 name2 next'"
| "run_call (C_newShowStmt show_type full database_name like_string) = newShowStmt show_type full database_name like_string"

text \<open>
  What a call promises: a node of its kind with every argument in the field of the same name, constants in the
  remaining fields, and \<open>w\<close> in the field for a condition header where the struct has one.
\<close>

fun call_node :: "sql_call \<Rightarrow> ptr \<Rightarrow> snode" where
  "call_node (C_newExpr t d) w = Expr_node
     \<lparr>Expr_type = t, Expr_data = d\<rparr>"
| "call_node (C_newExprList t data next') w = Expr_list_node
     \<lparr>Expr_list_type = t, Expr_list_data = data, Expr_list_next = next'\<rparr>"
| "call_node (C_newColumn t parameter1 parameter2 next') w = Columns_node
     \<lparr>Columns_type = t, Columns_parameter1 = parameter1, Columns_parameter2 = parameter2, 
      Columns_next = next'\<rparr>"
| "call_node (C_newExprCal type sign parameter cmp lnext rnext) w = Expr_cal_node
     \<lparr>Expr_cal_type = type, Expr_cal_str = Some '''', Expr_cal_sign = sign, 
      Expr_cal_parameter = parameter, Expr_cal_cmp = cmp, Expr_cal_lnext = lnext, 
      Expr_cal_rnext = rnext\<rparr>"
| "call_node (C_newExprFunc type funname args parameter1 parameter2 next') w = Expr_func_node
     \<lparr>Expr_func_type = type, Expr_func_str = Some '''', Expr_func_funname = funname, 
      Expr_func_args = args, Expr_func_parameter1 = parameter1, 
      Expr_func_parameter2 = parameter2, Expr_func_next = next'\<rparr>"
| "call_node (C_newTable type dbname tablename astablename issubquery subquery) w = Table_node
     \<lparr>Table_type = type, Table_dbname = dbname, Table_tablename = tablename, 
      Table_astablename = astablename, Table_issubquery = issubquery, Table_subquery = subquery, 
      Table_whcdn = w\<rparr>"
| "call_node (C_newJoin type jointype lnext rnext condition) w = Join_node
     \<lparr>Join_type = type, Join_jointype = jointype, Join_lnext = lnext, Join_rnext = rnext, 
      Join_condition = condition\<rparr>"
| "call_node (C_newCondition type conditiontype args) w = Condition_node
     \<lparr>Condition_type = type, Condition_conditiontype = conditiontype, Condition_args = args\<rparr>"
| "call_node (C_newSubquery type querystring next') w = Subquery_node
     \<lparr>Subquery_type = type, Subquery_querystring = querystring, Subquery_next = next'\<rparr>"
| "call_node (C_newQueryStmt t querystring select_opts select_list from_list where_list groupby_list having_list orderby_list limit_list into_list) w = Query_stmt_node
     \<lparr>Query_stmt_type = t, Query_stmt_querystring = querystring, 
      Query_stmt_select_opts = select_opts, Query_stmt_select_list = select_list, 
      Query_stmt_from_list = from_list, Query_stmt_where_list = where_list, 
      Query_stmt_groupby_list = groupby_list, Query_stmt_having_list = having_list, 
      Query_stmt_orderby_list = orderby_list, Query_stmt_limit_list = limit_list, 
      Query_stmt_into_list = into_list\<rparr>"
| "call_node (C_newSelectList type isall args next') w = Select_list_node
     \<lparr>Select_list_type = type, Select_list_isall = isall, Select_list_args = args, 
      Select_list_next = next'\<rparr>"
| "call_node (C_newSelectExpr type ascolname colname) w = Select_expr_node
     \<lparr>Select_expr_type = type, Select_expr_ascolname = ascolname, Select_expr_colname = colname\<rparr>"
| "call_node (C_newFromList type args next') w = From_list_node
     \<lparr>From_list_type = type, From_list_args = args, From_list_next = next', From_list_whcdn = w\<rparr>"
| "call_node (C_newFromExpr type astablename next') w = From_expr_node
     \<lparr>From_expr_type = type, From_expr_astablename = astablename, From_expr_next = next'\<rparr>"
| "call_node (C_newWhereList type wherestring next') w = Where_list_node
     \<lparr>Where_list_type = type, Where_list_wherestring = wherestring, Where_list_next = next'\<rparr>"
| "call_node (C_newGroupbyList type groupbystring next' with_rollup) w = Groupby_list_node
     \<lparr>Groupby_list_type = type, Groupby_list_groupbystring = groupbystring, 
      Groupby_list_next = next', Groupby_list_with_rollup = with_rollup\<rparr>"
| "call_node (C_newGroupbyExpr type args sorttype next') w = Groupby_expr_node
     \<lparr>Groupby_expr_type = type, Groupby_expr_args = args, Groupby_expr_sorttype = sorttype, 
      Groupby_expr_next = next'\<rparr>"
| "call_node (C_newHavingList type havingstring next') w = Having_list_node
     \<lparr>Having_list_type = type, Having_list_havingstring = havingstring, Having_list_next = next'\<rparr>"
| "call_node (C_newOrderbyList type orderbystring next') w = Orderby_list_node
     \<lparr>Orderby_list_type = type, Orderby_list_orderbystring = orderbystring, 
      Orderby_list_next = next'\<rparr>"
| "call_node (C_newOrderbyExpr type args sorttype next') w = Orderby_expr_node
     \<lparr>Orderby_expr_type = type, Orderby_expr_args = args, Orderby_expr_sorttype = sorttype, 
      Orderby_expr_next = next'\<rparr>"
| "call_node (C_newLimitExpr type offset row_count) w = Limit_expr_node
     \<lparr>Limit_expr_type = type, Limit_expr_offset = offset, Limit_expr_row_count = row_count\<rparr>"
| "call_node (C_newInsertStmt insert_opt tablename col_list insert_val_list insert_assign_list insert_assign_list_from_set select_stmt) w = Insert_stmt_node
     \<lparr>Insert_stmt_type = t_insert_stmt, Insert_stmt_insert_opt = insert_opt, 
      Insert_stmt_tablename = tablename, Insert_stmt_col_list = col_list, 
      Insert_stmt_insert_val_list = insert_val_list, 
      Insert_stmt_insert_assign_list = insert_assign_list, 
      Insert_stmt_insert_assign_list_from_set = insert_assign_list_from_set, 
      Insert_stmt_select_stmt = select_stmt\<rparr>"
| "call_node (C_newInsertValueList insert_vals next') w = Insert_val_list_node
     \<lparr>Insert_val_list_type = t_insert_val_list, Insert_val_list_insert_vals = insert_vals, 
      Insert_val_list_next = next'\<rparr>"
| "call_node (C_newInsertVals value_type expr next') w = Insert_vals_node
     \<lparr>Insert_vals_type = t_insert_vals, Insert_vals_value_type = value_type, 
      Insert_vals_expr = expr, Insert_vals_next = next'\<rparr>"
| "call_node (C_newInsertAssignList col_name value_type expr next') w = Insert_assign_list_node
     \<lparr>Insert_assign_list_type = t_insert_assign, Insert_assign_list_col_name = col_name, 
      Insert_assign_list_value_type = value_type, Insert_assign_list_expr = expr, 
      Insert_assign_list_next = next'\<rparr>"
| "call_node (C_newCreateDatabaseStmt type create_type check name) w = Create_database_stmt_node
     \<lparr>Create_database_stmt_type = type, Create_database_stmt_create_type = create_type, 
      Create_database_stmt_check = check, Create_database_stmt_name = name\<rparr>"
| "call_node (C_newCreateTableStmt type create_type check name1 name2 list' select_stmt) w = Create_table_stmt_node
     \<lparr>Create_table_stmt_type = type, Create_table_stmt_create_type = create_type, 
      Create_table_stmt_check = check, Create_table_stmt_name1 = name1, 
      Create_table_stmt_name2 = name2, Create_table_stmt_list = list', 
      Create_table_stmt_select_stmt = select_stmt\<rparr>"
| "call_node (C_newCreateColList type data next') w = Create_col_list_node
     \<lparr>Create_col_list_type = type, Create_col_list_data = data, Create_col_list_next = next'\<rparr>"
| "call_node (C_newCreateDef type deftype name datatype col_atts col_list) w = Create_def_node
     \<lparr>Create_def_type = type, Create_def_deftype = deftype, Create_def_name = name, 
      Create_def_datatype = datatype, Create_def_col_atts = col_atts, 
      Create_def_col_list = col_list\<rparr>"
| "call_node (C_newColumnAtts type datatype num1 num2 s col_list) w = Column_atts_node
     \<lparr>Column_atts_type = type, Column_atts_datatype = datatype, Column_atts_num1 = num1, 
      Column_atts_num2 = num2, Column_atts_s = s, Column_atts_col_list = col_list\<rparr>"
| "call_node (C_newCreateSelectStmt type ignore_replace temporary select_stmt) w = Create_select_stmt_node
     \<lparr>Create_select_stmt_type = type, Create_select_stmt_ignore_replace = ignore_replace, 
      Create_select_stmt_temporary = temporary, Create_select_stmt_select_stmt = select_stmt\<rparr>"
| "call_node (C_newCreateProjectionStmt type tablename column_list partition_num partition_attribute_name) w = Create_projection_stmt_node
     \<lparr>Create_projection_stmt_type = type, Create_projection_stmt_tablename = tablename, 
      Create_projection_stmt_column_list = column_list, 
      Create_projection_stmt_partition_num = partition_num, 
      Create_projection_stmt_partition_attribute_name = partition_attribute_name\<rparr>"
| "call_node (C_newDoStmt type data) w = Do_stmt_node
     \<lparr>Do_stmt_type = type, Do_stmt_data = data\<rparr>"
| "call_node (C_newTruncateStmt type name) w = Truncate_stmt_node
     \<lparr>Truncate_stmt_type = type, Truncate_stmt_name = name\<rparr>"
| "call_node (C_newAlterDatabaseStmt type createtype name opt) w = Alterdatabase_stmt_node
     \<lparr>Alterdatabase_stmt_type = type, Alterdatabase_stmt_createtype = createtype, 
      Alterdatabase_stmt_name = name, Alterdatabase_stmt_opt = opt\<rparr>"
| "call_node (C_newOptCsc type datatype s1 s2) w = Opt_csc_node
     \<lparr>Opt_csc_type = type, Opt_csc_datatype = datatype, Opt_csc_s1 = s1, Opt_csc_s2 = s2\<rparr>"
| "call_node (C_newAlterTableStmt type isignore name parameter) w = Altertable_stmt_node
     \<lparr>Altertable_stmt_type = type, Altertable_stmt_isignore = isignore, 
      Altertable_stmt_name = name, Altertable_stmt_parameter = parameter\<rparr>"
| "call_node (C_newAlterDef type altertype name1 name2 datatype coltype parameter next') w = Alter_def_node
     \<lparr>Alter_def_type = type, Alter_def_altertype = altertype, Alter_def_name1 = name1, 
      Alter_def_name2 = name2, Alter_def_datatype = datatype, Alter_def_coltype = coltype, 
      Alter_def_parameter = parameter, Alter_def_next = next'\<rparr>"
| "call_node (C_newDatatype type datatype length' opt_uz opt_csc isbinary enum_list) w = Datatype_node
     \<lparr>Datatype_type = type, Datatype_datatype = datatype, Datatype_length = length', 
      Datatype_opt_uz = opt_uz, Datatype_opt_csc = opt_csc, Datatype_isbinary = isbinary, 
      Datatype_enum_list = enum_list\<rparr>"
| "call_node (C_newLength type data1 data2) w = Length_node
     \<lparr>Length_type = type, Length_data1 = data1, Length_data2 = data2\<rparr>"
| "call_node (C_newEnumList type s next') w = enum_list_node
     \<lparr>enum_list_type = type, enum_list_s = s, enum_list_next = next'\<rparr>"
| "call_node (C_newCreateIndex type index_att index_name index_type table_name index_col_name) w = Createindex_stmt_node
     \<lparr>Createindex_stmt_type = type, Createindex_stmt_index_att = index_att, 
      Createindex_stmt_index_name = index_name, Createindex_stmt_index_type = index_type, 
      Createindex_stmt_table_name = table_name, Createindex_stmt_index_col_name = index_col_name\<rparr>"
| "call_node (C_newIndexColList type name length' asc_desc next') w = Index_col_list_node
     \<lparr>Index_col_list_type = type, Index_col_list_name = name, Index_col_list_length = length', 
      Index_col_list_asc_desc = asc_desc, Index_col_list_next = next'\<rparr>"
| "call_node (C_newDropIndex type index_name table_name) w = Dropindex_stmt_node
     \<lparr>Dropindex_stmt_type = type, Dropindex_stmt_index_name = index_name, 
      Dropindex_stmt_table_name = table_name\<rparr>"
| "call_node (C_newDropDatabase type drop_type check name) w = Dropdatabase_stmt_node
     \<lparr>Dropdatabase_stmt_type = type, Dropdatabase_stmt_droptype = drop_type, 
      Dropdatabase_stmt_check = check, Dropdatabase_stmt_name = name\<rparr>"
| "call_node (C_newDropTable type is_temp is_check opt_rc table_list) w = Droptable_stmt_node
     \<lparr>Droptable_stmt_type = type, Droptable_stmt_is_temp = is_temp, 
      Droptable_stmt_is_check = is_check, Droptable_stmt_option_rc = opt_rc, 
      Droptable_stmt_table_list = table_list\<rparr>"
| "call_node (C_newLoadTable type table_name path column_separator tuple_separator) w = Loadtable_stmt_node
     \<lparr>Loadtable_stmt_type = type, Loadtable_stmt_table_name = table_name, 
      Loadtable_stmt_path = path, Loadtable_stmt_column_separator = column_separator, 
      Loadtable_stmt_tuple_separator = tuple_separator\<rparr>"
| "call_node (C_newTableList type name1 name2 next') w = Tablelist_node
     \<lparr>Tablelist_type = type, Tablelist_name1 = name1, Tablelist_name2 = name2, 
      Tablelist_next = next'\<rparr>"
| "call_node (C_newShowStmt show_type full database_name like_string) w = Show_stmt_node
     \<lparr>Show_stmt_type = t_show_stmt, Show_stmt_full = full, Show_stmt_show_type = show_type, 
      Show_stmt_database_name = database_name, Show_stmt_like_string = like_string\<rparr>"

text \<open>A semantic action makes one call, from the results of the calls before it.\<close>

fun run_actions :: "(nat list \<Rightarrow> sql_call) list \<Rightarrow> nat list \<Rightarrow> sql_state \<Rightarrow> sql_error + (nat list \<times> sql_state)" where
  "run_actions [] rs st = Inr (rs, st)"
| "run_actions (act # acts) rs st =
     (case run_call (act rs) st of
        Inl e \<Rightarrow> Inl e
      | Inr (None, st') \<Rightarrow> Inl Undefined
      | Inr (Some a, st') \<Rightarrow> run_actions acts (rs @ [a]) st')"

definition has_header :: "sql_call \<Rightarrow> bool" where
  "has_header c \<longleftrightarrow> header_of (call_node c None) \<noteq> None"

text \<open>\<open>newLoadTable\<close> prints its separators, which must not be null.\<close>

fun printable :: "sql_call \<Rightarrow> bool" where
  "printable (C_newLoadTable type table_name path column_separator tuple_separator) \<longleftrightarrow>
     column_separator \<noteq> None \<and> tuple_separator \<noteq> None"
| "printable _ \<longleftrightarrow> True"

definition action_ok :: "(nat list \<Rightarrow> sql_call) \<Rightarrow> bool" where
  "action_ok act \<longleftrightarrow> (\<forall>rs. printable (act rs) \<and> set (kids (call_node (act rs) None)) \<subseteq> insert None (Some ` set rs))"

section \<open>One call\<close>

lemmas call_defs =
  newExpr_def newExprList_def newColumn_def newExprCal_def newExprFunc_def newTable_def newJoin_def
  newCondition_def newSubquery_def newQueryStmt_def newSelectList_def newSelectExpr_def newFromList_def
  newFromExpr_def newWhereList_def newGroupbyList_def newGroupbyExpr_def newHavingList_def newOrderbyList_def
  newOrderbyExpr_def newLimitExpr_def newInsertStmt_def newInsertValueList_def newInsertVals_def
  newInsertAssignList_def newCreateDatabaseStmt_def newCreateTableStmt_def newCreateColList_def
  newCreateDef_def newColumnAtts_def newCreateSelectStmt_def newCreateProjectionStmt_def newDoStmt_def
  newTruncateStmt_def newAlterDatabaseStmt_def newOptCsc_def newAlterTableStmt_def newAlterDef_def
  newDatatype_def newLength_def newEnumList_def newCreateIndex_def newIndexColList_def newDropIndex_def
  newDropDatabase_def newDropTable_def newLoadTable_def newTableList_def newShowStmt_def

lemma call_node_kids: "kids (call_node c w) = kids (call_node c None)"
  and call_node_header: "header_of (call_node c w) = (if has_header c then Some w else None)"
  and call_node_no_list: "call_node c w \<noteq> Expr_list_header_node n"
  by (cases c; simp add: has_header_def)+

lemma run_call_header:
  assumes "has_header c"
  shows "run_call c = new_with_header (call_node c)"
proof -
  have "newTable t d n as i q = new_with_header (call_node (C_newTable t d n as i q))" for t d n as i q
    unfolding newTable_def by (rule arg_cong [where f = new_with_header]) (rule ext, simp)
  moreover have "newFromList t x y = new_with_header (call_node (C_newFromList t x y))" for t x y
    unfolding newFromList_def by (rule arg_cong [where f = new_with_header]) (rule ext, simp)
  ultimately show ?thesis using assms by (cases c) (simp_all add: has_header_def)
qed

lemma sq_print_Nil [simp]: "sq_print [] st = st"
  by (simp add: sq_print_def)

lemma run_call_simple:
  assumes "\<not> has_header c" "printable c"
  shows "\<exists>s. run_call c st = new_node (call_node c None) (sq_print s st)"
proof (cases "\<exists>t n q x y. c = C_newLoadTable t n q x y")
  case True
  then obtain t n q x y where c: "c = C_newLoadTable t n q (Some x) (Some y)" using assms(2) by auto
  have "run_call c st = new_node (call_node c None) (sq_print (''the separator are '' @ x @ '','' @ y @ nl) st)"
    unfolding c by (simp add: newLoadTable_def new_node_def sq_print_def)
  then show ?thesis by blast
next
  case False
  then have "run_call c st = new_node (call_node c None) st"
    using assms(1) by (cases c) (simp_all add: has_header_def call_defs)
  then show ?thesis by (metis sq_print_Nil)
qed

lemma sql_ok_print [simp]: "sql_ok (sq_print s st) = sql_ok st" "live (sq_print s st) = live st"
  by (auto simp: sql_ok_def node_ok_def live_def sq_print_def fun_eq_iff split: option.splits)

text \<open>A call returns the next address and changes nothing below it; a header node takes the address after it.\<close>

lemma run_call_ok:
  assumes "sql_ok st" "\<forall>p \<in> set (kids (call_node c None)). live st p" "printable c" "2 \<le> sq_room st"
  defines "a \<equiv> sq_next st"
  shows "\<exists>st' w. run_call c st = Inr (Some a, st') \<and> sql_ok st' \<and> sq_NodePointer st' = sq_NodePointer st @ [a]
    \<and> sq_mem st' = (if has_header c then (sq_mem st)(a \<mapsto> call_node c w, Suc a \<mapsto> empty_header) else (sq_mem st)(a \<mapsto> call_node c w))
    \<and> sq_next st' = (if has_header c then Suc (Suc a) else Suc a) \<and> sq_room st - 2 \<le> sq_room st'"
proof (cases "has_header c")
  case True
  have k: "\<forall>p \<in> set (kids (call_node c w)). live st p" for w using assms(2) unfolding call_node_kids [of c w] .
  have h: "header_of (call_node c w) = Some w" for w using True by (simp add: call_node_header)
  obtain st' where r: "new_with_header (call_node c) st = Inr (Some a, st')" "sql_ok st'"
    "sq_mem st' = (sq_mem st)(a \<mapsto> call_node c (Some (Suc a)), Suc a \<mapsto> empty_header)" "sq_NodePointer st' = sq_NodePointer st @ [a]"
    using new_with_header_ok [where mk = "call_node c", OF assms(1) k h assms(4)] unfolding a_def by blast
  have "sq_next st' = Suc (Suc a) \<and> sq_room st' = sq_room st - 2"
    using r(1) assms(4) by (auto simp: new_with_header_def newExprlistheader_def sq_alloc_def insertNodePointer_def a_def split: if_splits)
  then show ?thesis using True r run_call_header [OF True] by (intro exI [of _ st'] exI [of _ "Some (Suc a)"]) simp
next
  case False
  obtain s where s: "run_call c st = new_node (call_node c None) (sq_print s st)" using run_call_simple [OF False assms(3)] by blast
  have p: "sq_next (sq_print s st) = a" "sq_room (sq_print s st) = sq_room st" "sq_mem (sq_print s st) = sq_mem st"
    "sq_NodePointer (sq_print s st) = sq_NodePointer st" by (simp_all add: sq_print_def a_def)
  have "sql_ok (sq_print s st)" "\<forall>p \<in> set (kids (call_node c None)). live (sq_print s st) p" "0 < sq_room (sq_print s st)"
    "header_of (call_node c None) = None" "\<forall>n. call_node c None \<noteq> Expr_list_header_node n"
    using assms(1,2,4) p(2) False by (simp_all add: call_node_header call_node_no_list)
  from new_node_ok [OF this(1,2,4,5,3)] obtain st' where "new_node (call_node c None) (sq_print s st) = Inr (Some a, st')" "sql_ok st'"
    "sq_mem st' = (sq_mem st)(a \<mapsto> call_node c None)" "sq_NodePointer st' = sq_NodePointer st @ [a]" "sq_next st' = Suc a"
    "sq_room st' = sq_room st - 1" unfolding p by blast
  then show ?thesis using False s by (intro exI [of _ st'] exI [of _ None]) simp
qed

section \<open>A session\<close>

text \<open>Registered are exactly the results; what else is allocated are \<open>k\<close> empty condition headers.\<close>

definition session_inv :: "nat list \<Rightarrow> nat \<Rightarrow> sql_state \<Rightarrow> bool" where
  "session_inv rs k st \<longleftrightarrow> sql_ok st \<and> sq_NodePointer st = rs
     \<and> (\<exists>H. finite H \<and> card H = k \<and> dom (sq_mem st) = set rs \<union> H \<and> H \<inter> set rs = {} \<and> (\<forall>h \<in> H. sq_mem st h = Some empty_header))"

lemma session_call:
  assumes inv: "session_inv rs k st" and ok: "printable c" "set (kids (call_node c None)) \<subseteq> insert None (Some ` set rs)"
    and room: "2 \<le> sq_room st"
  shows "\<exists>a st' w. run_call c st = Inr (Some a, st') \<and> session_inv (rs @ [a]) (if has_header c then Suc k else k) st'
    \<and> sq_mem st' a = Some (call_node c w) \<and> (\<forall>b \<in> set rs. sq_mem st' b = sq_mem st b) \<and> sq_room st - 2 \<le> sq_room st'"
proof -
  obtain H where H: "finite H" "card H = k" "dom (sq_mem st) = set rs \<union> H" "H \<inter> set rs = {}" "\<forall>h \<in> H. sq_mem st h = Some empty_header"
    and ok1: "sql_ok st" "sq_NodePointer st = rs" using inv by (auto simp: session_inv_def)
  let ?a = "sq_next st"
  have lt: "b < ?a" if "b \<in> set rs \<union> H" for b using that H(3) ok1(1) by (auto simp: sql_ok_def)
  have "live st p" if "p \<in> set (kids (call_node c None))" for p
  proof (cases p)
    case (Some b)
    then have "b \<in> dom (sq_mem st)" using that ok(2) H(3) by auto
    then show ?thesis using Some by (auto simp: live_def)
  qed (simp add: live_def)
  then have "\<forall>p \<in> set (kids (call_node c None)). live st p" by blast
  from run_call_ok [OF ok1(1) this ok(1) room] obtain st' w where
    r: "run_call c st = Inr (Some ?a, st')" "sql_ok st'" "sq_NodePointer st' = sq_NodePointer st @ [?a]"
      "sq_mem st' = (if has_header c then (sq_mem st)(?a \<mapsto> call_node c w, Suc ?a \<mapsto> empty_header) else (sq_mem st)(?a \<mapsto> call_node c w))"
      "sq_room st - 2 \<le> sq_room st'" by blast
  let ?H = "if has_header c then insert (Suc ?a) H else H"
  have fresh: "?a \<notin> H" "Suc ?a \<notin> H" "?a \<notin> set rs" "Suc ?a \<notin> set rs" using lt [of ?a] lt [of "Suc ?a"] by auto
  have "session_inv (rs @ [?a]) (if has_header c then Suc k else k) st'"
    unfolding session_inv_def
  proof (intro conjI exI)
    show "finite ?H" "card ?H = (if has_header c then Suc k else k)" using H(1,2) fresh by auto
    show "dom (sq_mem st') = set (rs @ [?a]) \<union> ?H" using H(3) r(4) by auto
    show "?H \<inter> set (rs @ [?a]) = {}" using H(4) fresh by auto
    show "\<forall>h \<in> ?H. sq_mem st' h = Some empty_header" using H(5) r(4) fresh by auto
  qed (use r ok1 in auto)
  moreover have "sq_mem st' b = sq_mem st b" if "b \<in> set rs" for b using that fresh r(4) by auto
  ultimately show ?thesis using r(1,4,5) by (intro exI [of _ ?a] exI [of _ st'] exI [of _ w]) auto
qed

lemma session_run:
  assumes "session_inv rs k st" "\<forall>act \<in> set acts. action_ok act" "2 * length acts \<le> sq_room st"
  shows "\<exists>qs st'. run_actions acts rs st = Inr (rs @ qs, st') \<and> length qs = length acts
    \<and> session_inv (rs @ qs) (k + length (filter (\<lambda>i. has_header ((acts ! i) (rs @ take i qs))) [0..<length acts])) st'
    \<and> (\<forall>b \<in> set rs. sq_mem st' b = sq_mem st b)
    \<and> (\<forall>i < length acts. \<exists>w. sq_mem st' (qs ! i) = Some (call_node ((acts ! i) (rs @ take i qs)) w))"
  using assms
proof (induction acts arbitrary: rs k st)
  case Nil
  then show ?case by (intro exI [of _ "[]"] exI [of _ st]) simp
next
  case (Cons act acts)
  let ?c = "act rs" and ?k = "if has_header (act rs) then Suc k else k"
  have "printable ?c" "set (kids (call_node ?c None)) \<subseteq> insert None (Some ` set rs)" "2 \<le> sq_room st"
    using Cons.prems(2,3) by (auto simp: action_ok_def)
  from session_call [OF Cons.prems(1) this] obtain a st1 w where
    c: "run_call ?c st = Inr (Some a, st1)" "session_inv (rs @ [a]) ?k st1" "sq_mem st1 a = Some (call_node ?c w)"
      "\<forall>b \<in> set rs. sq_mem st1 b = sq_mem st b" "sq_room st - 2 \<le> sq_room st1" by blast
  have "\<forall>act \<in> set acts. action_ok act" "2 * length acts \<le> sq_room st1" using Cons.prems(2,3) c(5) by auto
  from Cons.IH [OF c(2) this] obtain qs st' where
    r: "run_actions acts (rs @ [a]) st1 = Inr (rs @ a # qs, st')" "length qs = length acts"
      "session_inv (rs @ a # qs) (?k + length (filter (\<lambda>i. has_header ((acts ! i) (rs @ a # take i qs))) [0..<length acts])) st'"
      "\<forall>b \<in> set (rs @ [a]). sq_mem st' b = sq_mem st1 b"
      "\<forall>i < length acts. \<exists>w. sq_mem st' (qs ! i) = Some (call_node ((acts ! i) (rs @ a # take i qs)) w)"
    by auto
  have "length (filter (\<lambda>i. has_header (((act # acts) ! i) (rs @ take i (a # qs)))) [0..<length (act # acts)])
      = (if has_header ?c then 1 else 0) + length (filter (\<lambda>i. has_header ((acts ! i) (rs @ a # take i qs))) [0..<length acts])"
    by (simp add: upt_conv_Cons map_Suc_upt [symmetric] filter_map comp_def del: upt_Suc)
  then have "session_inv (rs @ a # qs) (k + length (filter (\<lambda>i. has_header (((act # acts) ! i) (rs @ take i (a # qs)))) [0..<length (act # acts)])) st'"
    using r(3) by (simp split: if_splits)
  moreover have "\<exists>w. sq_mem st' ((a # qs) ! i) = Some (call_node (((act # acts) ! i) (rs @ take i (a # qs))) w)"
    if "i < length (act # acts)" for i using that r(4,5) c(3) by (cases i) auto
  ultimately show ?case using c(1,4) r(1,2,4) by (intro exI [of _ "a # qs"] exI [of _ st']) auto
qed

section \<open>Properties\<close>


text \<open>\<open>select x from t\<close>, in the order in which the grammar calls the constructors; \<open>earlier rs i\<close> is the \<open>i\<close>-th result.\<close>

definition earlier :: "nat list \<Rightarrow> nat \<Rightarrow> ptr" where
  "earlier rs i = (if i < length rs then Some (rs ! i) else None)"

lemma earlier_in: "earlier rs i \<in> insert None (Some ` set rs)"
  by (auto simp: earlier_def)

definition select_actions :: "(nat list \<Rightarrow> sql_call) list" where
  "select_actions =
     [\<lambda>_. C_newColumn t_name None (Some ''x'') None,
      \<lambda>rs. C_newSelectExpr t_select_expr None (earlier rs 0),
      \<lambda>rs. C_newSelectList t_select_list 0 (earlier rs 1) None,
      \<lambda>_. C_newTable t_table None (Some ''t'') None 0 None]"


end
