(* ===== verification/Mosito_Sort.thy ===== *)
theory Mosito_Sort
  imports Mosito_Buffer Mosito_Schema
begin

text \<open>
  The \<open>Sort\<close> operator of \<^verbatim>\<open>physical/m_sort.h\<close> and \<^verbatim>\<open>physical/m_sort.cpp\<close>, with
  \<open>MULTI_PARTITION\<close> and \<open>SYN_JOIN\<close> undefined as in \<^verbatim>\<open>m_configuration.h\<close>.

  \<open>prelude\<close> drains the child into blocks, splits the tuples into \<open>CPU_CORE\<close> key ranges and sorts
  every range in a thread of its own (the threads share nothing, so they are run one after the
  other); \<open>execute\<close> hands the ranges out from their ends. Tuple pointers refer to the operator's own
  blocks, which are not written again: a pointer is the tuple.
\<close>

section \<open>The code\<close>

record sort_op =
  so_ranges :: "bytes list list"
  so_temp_cur :: nat
  so_dist_ranges :: "int list"
  so_count :: nat

definition Sort_compare :: "bytes \<Rightarrow> bytes \<Rightarrow> bool option" where
  "Sort_compare left right = do {
     l \<leftarrow> tuple_key left;
     r \<leftarrow> tuple_key right;
     if l < r then Some False else Some True
   }"

text \<open>The place of this node among the workers; 0 when it is none of them.\<close>

fun find_th :: "string \<Rightarrow> string list \<Rightarrow> nat \<Rightarrow> nat" where
  "find_th ip [] i = 0"
| "find_th ip (x # xs) i = (if ip = x then i else find_th ip xs (Suc i))"

text \<open>
  The bounds of the ranges. \<open>th*DATAVOLUME\<close> is an \<open>int\<close> product, whose overflow is undefined; the
  divisions by \<open>size()\<close> are \<open>unsigned long\<close>.
\<close>

definition dist_range :: "nat \<Rightarrow> nat \<Rightarrow> nat \<Rightarrow> int option" where
  "dist_range th workers i =
     (if workers = 0 \<or> int (th * DATAVOLUME) > INT_MAX then None
      else Some (int (th * DATAVOLUME div workers + (i + 1) * DATAVOLUME div (workers * CPU_CORE))))"

definition dist_ranges :: "nat \<Rightarrow> nat \<Rightarrow> int list option" where
  "dist_ranges th workers = those (map (dist_range th workers) [0..<CPU_CORE])"

text \<open>\<open>compare_start_end\<close> has no return statement for a value above all bounds.\<close>

fun range_of :: "nat \<Rightarrow> int list \<Rightarrow> nat \<Rightarrow> nat option" where
  "range_of v [] i = None"
| "range_of v (b # bs) i = (if v < u64_of_int b then Some i else range_of v bs (Suc i))"

fun partition_tuples :: "int list \<Rightarrow> bytes list \<Rightarrow> bytes list list \<Rightarrow> bytes list list option" where
  "partition_tuples bounds [] rs = Some rs"
| "partition_tuples bounds (t # ts) rs = do {
     v \<leftarrow> tuple_key t;
     r \<leftarrow> range_of v bounds 0;
     if r < length rs then partition_tuples bounds ts (rs[r := rs ! r @ [t]]) else None
   }"

text \<open>
  \<open>stable_sort\<close> with the comparator above: every element is moved down past the elements the
  comparator puts behind it. The C++ standard asks for a strict weak order; the comparator holds in
  both directions for two tuples with the same key, and then the behaviour is undefined.
\<close>

fun insert_down :: "(bytes \<Rightarrow> bytes \<Rightarrow> bool option) \<Rightarrow> bytes \<Rightarrow> bytes list \<Rightarrow> bytes list option" where
  "insert_down cmp x [] = Some [x]"
| "insert_down cmp x (y # ys) = do {
     c \<leftarrow> cmp x y;
     if c then Some (x # y # ys)
     else do { zs \<leftarrow> insert_down cmp x ys; Some (y # zs) }
   }"

fun stable_sort_from :: "(bytes \<Rightarrow> bytes \<Rightarrow> bool option) \<Rightarrow> bytes list \<Rightarrow> bytes list \<Rightarrow> bytes list option" where
  "stable_sort_from cmp [] acc = Some acc"
| "stable_sort_from cmp (x # xs) acc = do { acc' \<leftarrow> insert_down cmp x acc; stable_sort_from cmp xs acc' }"

fun asym_on :: "(bytes \<Rightarrow> bytes \<Rightarrow> bool option) \<Rightarrow> bytes list \<Rightarrow> bool" where
  "asym_on cmp [] \<longleftrightarrow> True"
| "asym_on cmp (x # xs) \<longleftrightarrow> list_all (\<lambda>y. \<not> (cmp x y = Some True \<and> cmp y x = Some True)) xs \<and> asym_on cmp xs"

text \<open>\<open>single_sort\<close> is declared \<open>void *\<close> and has no return statement; the value is not used.\<close>

definition single_sort :: "bool \<Rightarrow> bytes list \<Rightarrow> bytes list option" where
  "single_sort strict rng = do {
     rng' \<leftarrow> (if asym_on Sort_compare rng then stable_sort_from Sort_compare rng [] else None);
     no_return strict rng'
   }"

text \<open>\<open>prelude\<close> on the blocks the child delivers until it returns false.\<close>

definition Sort_prelude :: "bool \<Rightarrow> string \<Rightarrow> string list \<Rightarrow> block list \<Rightarrow> sort_op option" where
  "Sort_prelude strict ip lower_seqs blocks = do {
     tss \<leftarrow> those (map block_tuples blocks);
     let ts = concat tss;
     ds \<leftarrow> dist_ranges (find_th ip lower_seqs 0) (length lower_seqs);
     rs \<leftarrow> partition_tuples ds ts (replicate CPU_CORE []);
     rs' \<leftarrow> those (map (single_sort strict) rs);
     Some \<lparr>so_ranges = rs', so_temp_cur = length ts, so_dist_ranges = ds, so_count = 0\<rparr>
   }"

text \<open>
  The inner loop of \<open>execute\<close>. A round either moves a tuple or a range, so \<open>temp_cur_\<close> plus the
  number of ranges bounds the rounds.
\<close>

fun exec_loop :: "nat \<Rightarrow> sort_op \<Rightarrow> block \<Rightarrow> (sort_op \<times> block) option" where
  "exec_loop 0 st b = None"
| "exec_loop (Suc fuel) st b =
     (case allocateTuple b of
        None \<Rightarrow> Some (st, b)
      | Some desc \<Rightarrow>
          if so_count st < length (so_ranges st) then
            (let rng = so_ranges st ! so_count st in
             if rng \<noteq> [] then do {
               b' \<leftarrow> storeTuple b desc (last rng);
               let rng' = butlast rng;
               let st' = st\<lparr>so_ranges := (so_ranges st)[so_count st := rng'], so_temp_cur := so_temp_cur st - 1,
                            so_count := (if rng' = [] then so_count st + 1 else so_count st)\<rparr>;
               if so_temp_cur st' = 0 then Some (st', b') else exec_loop fuel st' b'
             }
             else (let st' = st\<lparr>so_count := so_count st + 1\<rparr> in
                   if so_temp_cur st' = 0 then Some (st', b) else exec_loop fuel st' b))
          else None)"

definition Sort_execute :: "nat \<Rightarrow> sort_op \<Rightarrow> block \<Rightarrow> (bool \<times> sort_op \<times> block) option" where
  "Sort_execute bytes st block =
     (if so_temp_cur st = 0 then Some (False, st, block)
      else do {
        (st', b) \<leftarrow> exec_loop (Suc (so_temp_cur st + length (so_ranges st))) st (blk_reset block);
        b' \<leftarrow> assembling b BLOCK_SIZE bytes;
        Some (True, st', b')
      })"

text \<open>\<open>heap_out\<close>: the largest of the last elements by \<open>compare\<close>.\<close>

fun heap_scan :: "bytes list list \<Rightarrow> nat \<Rightarrow> nat \<Rightarrow> bytes \<Rightarrow> (nat \<times> bytes) option" where
  "heap_scan [] i cur most = Some (cur, most)"
| "heap_scan (r # rs) i cur most =
     (if r = [] then heap_scan rs (Suc i) cur most
      else do {
        c \<leftarrow> Sort_compare most (last r);
        if c then heap_scan rs (Suc i) i (last r) else heap_scan rs (Suc i) cur most
      })"

fun heap_first :: "bytes list list \<Rightarrow> nat \<Rightarrow> (nat \<times> bytes \<times> bytes list list) option" where
  "heap_first [] i = None"
| "heap_first (r # rs) i = (if r = [] then heap_first rs (Suc i) else Some (i, last r, rs))"

text \<open>With all ranges empty \<open>pop_back\<close> on an empty vector is undefined.\<close>

definition heap_out :: "sort_op \<Rightarrow> (bytes \<times> sort_op) option" where
  "heap_out st = do {
     (i, m, rest) \<leftarrow> heap_first (so_ranges st) 0;
     (cur, most) \<leftarrow> heap_scan rest (Suc i) i m;
     Some (most, st\<lparr>so_ranges := (so_ranges st)[cur := butlast (so_ranges st ! cur)]\<rparr>)
   }"

section \<open>Sorting a range\<close>

definition kt :: "bytes \<Rightarrow> nat" where
  "kt t = the (tuple_key t)"

definition keyed :: "bytes list \<Rightarrow> bool" where
  "keyed ts \<longleftrightarrow> (\<forall>t \<in> set ts. tuple_key t \<noteq> None)"

lemma keyed_simps [simp]: "keyed []" "keyed (t # ts) \<longleftrightarrow> tuple_key t \<noteq> None \<and> keyed ts"
  "keyed (xs @ ys) \<longleftrightarrow> keyed xs \<and> keyed ys"
  by (auto simp: keyed_def)

lemma keyed_mset: "mset xs = mset ys \<Longrightarrow> keyed xs \<longleftrightarrow> keyed ys"
  by (metis keyed_def set_mset_mset)

lemma Sort_compare_eq: "tuple_key l \<noteq> None \<Longrightarrow> tuple_key r \<noteq> None \<Longrightarrow> Sort_compare l r = Some (kt r \<le> kt l)"
  by (auto simp: Sort_compare_def kt_def)

definition desc_sorted :: "bytes list \<Rightarrow> bool" where
  "desc_sorted ts \<longleftrightarrow> sorted_wrt (\<lambda>x y. kt y \<le> kt x) ts"

lemma insert_down_spec:
  assumes "keyed (x # ys)" and "desc_sorted ys"
  shows "\<exists>zs. insert_down Sort_compare x ys = Some zs \<and> mset zs = add_mset x (mset ys) \<and> desc_sorted zs"
  using assms
proof (induction ys)
  case (Cons y ys)
  show ?case
  proof (cases "kt y \<le> kt x")
    case True
    then show ?thesis using Cons.prems by (auto simp: Sort_compare_eq desc_sorted_def)
  next
    case False
    from Cons obtain zs where zs: "insert_down Sort_compare x ys = Some zs" "mset zs = add_mset x (mset ys)"
      "desc_sorted zs" by (auto simp: desc_sorted_def)
    have "set zs = insert x (set ys)" using zs(2) by (metis set_mset_add_mset_insert set_mset_mset)
    then show ?thesis using zs False Cons.prems by (auto simp: Sort_compare_eq desc_sorted_def)
  qed
qed (simp add: desc_sorted_def)

lemma stable_sort_from_spec:
  assumes "keyed (xs @ acc)" and "desc_sorted acc"
  shows "\<exists>zs. stable_sort_from Sort_compare xs acc = Some zs \<and> mset zs = mset xs + mset acc \<and> desc_sorted zs"
  using assms
proof (induction xs arbitrary: acc)
  case (Cons x xs)
  then obtain acc' where a: "insert_down Sort_compare x acc = Some acc'" "mset acc' = add_mset x (mset acc)"
    "desc_sorted acc'" using insert_down_spec [of x acc] by auto
  have "keyed acc'" using keyed_mset [of acc' "x # acc"] a(2) Cons.prems(1) by simp
  then show ?case using Cons.IH [of acc'] Cons.prems(1) a by auto
qed simp

lemma asym_on_iff: "keyed r \<Longrightarrow> asym_on Sort_compare r \<longleftrightarrow> distinct (map kt r)"
  by (induction r) (auto simp: list_all_iff keyed_def Sort_compare_eq)

lemma single_sort_spec:
  assumes "keyed r" and "distinct (map kt r)"
  shows "\<exists>zs. single_sort False r = Some zs \<and> mset zs = mset r \<and> desc_sorted zs"
  using stable_sort_from_spec [of r "[]"] assms by (simp add: single_sort_def desc_sorted_def asym_on_iff)

section \<open>Partitioning\<close>

lemma range_of_spec:
  "range_of v bs i = Some r \<Longrightarrow> i \<le> r \<and> r < i + length bs \<and> v < u64_of_int (bs ! (r - i))
    \<and> (\<forall>j < r - i. \<not> v < u64_of_int (bs ! j))"
proof (induction bs arbitrary: i)
  case (Cons b bs)
  show ?case
  proof (cases "v < u64_of_int b")
    case False
    then have r: "Suc i \<le> r" "r < Suc i + length bs" "v < u64_of_int (bs ! (r - Suc i))"
      "\<forall>j < r - Suc i. \<not> v < u64_of_int (bs ! j)"
      using Cons.IH [of "Suc i"] Cons.prems by auto
    moreover have "\<not> v < u64_of_int ((b # bs) ! j)" if "j < r - i" for j
      using that False r(4) by (cases j) auto
    ultimately show ?thesis by (auto simp: nth_Cons')
  qed (use Cons.prems in auto)
qed simp

definition parted :: "int list \<Rightarrow> bytes list list \<Rightarrow> bool" where
  "parted bounds rs \<longleftrightarrow> (\<forall>r < length rs. \<forall>t \<in> set (rs ! r). tuple_key t \<noteq> None \<and> range_of (kt t) bounds 0 = Some r)"

lemma mset_concat_update:
  "r < length rs \<Longrightarrow> mset (concat (rs[r := rs ! r @ [t]])) = add_mset t (mset (concat rs))"
proof (induction rs arbitrary: r)
  case (Cons x xs)
  then show ?case by (cases r) auto
qed simp

lemma partition_tuples_spec:
  assumes "\<forall>t \<in> set ts. tuple_key t \<noteq> None \<and> range_of (kt t) bounds 0 \<noteq> None"
    and "length bounds \<le> length rs" and "parted bounds rs"
  shows "\<exists>rs'. partition_tuples bounds ts rs = Some rs' \<and> length rs' = length rs \<and> parted bounds rs'
    \<and> mset (concat rs') = mset (concat rs) + mset ts"
  using assms
proof (induction ts arbitrary: rs)
  case (Cons t ts)
  then obtain r where r: "range_of (kt t) bounds 0 = Some r" by auto
  have rl: "r < length rs" using range_of_spec [OF r] Cons.prems(2) by simp
  let ?rs = "rs[r := rs ! r @ [t]]"
  have "parted bounds ?rs" using Cons.prems r rl by (auto simp: parted_def nth_list_update)
  then obtain rs' where "partition_tuples bounds ts ?rs = Some rs'" "length rs' = length rs" "parted bounds rs'"
    "mset (concat rs') = mset (concat ?rs) + mset ts"
    using Cons.IH [of ?rs] Cons.prems by auto
  moreover have "tuple_key t = Some (kt t)" using Cons.prems by (auto simp: kt_def)
  ultimately show ?case using r rl by (auto simp: mset_concat_update)
qed auto

text \<open>Tuples of an earlier range are below those of a later one.\<close>

lemma parted_less:
  assumes "parted bounds rs" "r < r'" "r' < length rs" "t \<in> set (rs ! r)" "t' \<in> set (rs ! r')"
  shows "kt t \<le> kt t'"
proof -
  from assms have a: "range_of (kt t) bounds 0 = Some r" "range_of (kt t') bounds 0 = Some r'"
    by (auto simp: parted_def)
  from range_of_spec [OF a(1)] range_of_spec [OF a(2)] assms(2) show ?thesis by fastforce
qed

section \<open>The sorted stream\<close>

text \<open>What \<open>execute\<close> has still to hand out, in order.\<close>

definition stream :: "sort_op \<Rightarrow> bytes list" where
  "stream st = concat (map rev (so_ranges st))"

definition sort_inv :: "sort_op \<Rightarrow> bool" where
  "sort_inv st \<longleftrightarrow> (\<forall>i < so_count st. i < length (so_ranges st) \<longrightarrow> so_ranges st ! i = [])
     \<and> so_temp_cur st = length (stream st)"

lemma concat_from:
  "(\<forall>i < n. i < length rs \<longrightarrow> rs ! i = []) \<Longrightarrow> concat (map rev rs) = concat (map rev (drop n rs))"
proof (induction n arbitrary: rs)
  case (Suc n)
  show ?case
  proof (cases rs)
    case (Cons r rs')
    have "r = []" using Suc.prems Cons by auto
    moreover have "\<forall>i < n. i < length rs' \<longrightarrow> rs' ! i = []" using Suc.prems Cons by auto
    ultimately show ?thesis using Suc.IH [of rs'] Cons by simp
  qed simp
qed simp

lemma stream_from:
  assumes "sort_inv st"
  shows "stream st = concat (map rev (drop (so_count st) (so_ranges st)))"
  using assms concat_from [of "so_count st" "so_ranges st"] by (simp add: stream_def sort_inv_def)

lemma sort_inv_count:
  assumes "sort_inv st" "0 < so_temp_cur st"
  shows "so_count st < length (so_ranges st)"
proof (rule ccontr)
  assume "\<not> so_count st < length (so_ranges st)"
  then have "stream st = []" using stream_from [OF assms(1)] by simp
  then show False using assms by (simp add: sort_inv_def)
qed

text \<open>One round that moves a tuple, and one that moves to the next range.\<close>

lemma round_tuple:
  assumes "sort_inv st" and c: "so_count st < length (so_ranges st)" and r: "so_ranges st ! so_count st \<noteq> []"
  defines "rng \<equiv> so_ranges st ! so_count st"
  defines "st' \<equiv> st\<lparr>so_ranges := (so_ranges st)[so_count st := butlast rng], so_temp_cur := so_temp_cur st - 1,
     so_count := (if butlast rng = [] then so_count st + 1 else so_count st)\<rparr>"
  shows "stream st = last rng # stream st'" and "sort_inv st'"
proof -
  let ?n = "so_count st" and ?rs = "so_ranges st"
  have ne: "\<forall>i < ?n. i < length ?rs \<longrightarrow> ?rs ! i = []" using assms(1) by (simp add: sort_inv_def)
  have d: "drop ?n ?rs = rng # drop (Suc ?n) ?rs" using c by (simp add: rng_def Cons_nth_drop_Suc)
  have s: "stream st = rev rng @ concat (map rev (drop (Suc ?n) ?rs))"
    using stream_from [OF assms(1)] d by simp
  have "concat (map rev (?rs[?n := butlast rng])) = concat (map rev (drop ?n (?rs[?n := butlast rng])))"
    using ne by (intro concat_from) auto
  also have "drop ?n (?rs[?n := butlast rng]) = butlast rng # drop (Suc ?n) ?rs"
    using c d by (metis drop_update_swap list_update_code(2) diff_self_eq_0 order_refl)
  finally have s': "stream st' = rev (butlast rng) @ concat (map rev (drop (Suc ?n) ?rs))"
    by (simp add: stream_def st'_def)
  have "rev rng = last rng # rev (butlast rng)" using r
    by (metis rng_def append_butlast_last_id rev.simps(2) rev_append rev_rev_ident append_Cons append_Nil rev_singleton_conv)
  then show str: "stream st = last rng # stream st'" using s s' by simp
  have "so_temp_cur st' = so_temp_cur st - 1" by (simp add: st'_def)
  then have "so_temp_cur st' = length (stream st')" using assms(1) str by (simp add: sort_inv_def)
  then show "sort_inv st'" using ne c
    by (auto simp: sort_inv_def st'_def nth_list_update less_Suc_eq)
qed

lemma round_range:
  assumes "sort_inv st" and "so_ranges st ! so_count st = []"
  shows "stream (st\<lparr>so_count := so_count st + 1\<rparr>) = stream st" and "sort_inv (st\<lparr>so_count := so_count st + 1\<rparr>)"
  using assms by (auto simp: stream_def sort_inv_def less_Suc_eq)

lemma exec_loop_spec:
  assumes "sort_inv st" "0 < so_temp_cur st" "so_temp_cur st + (length (so_ranges st) - so_count st) < fuel"
    and "blk_ok b" "holds b us" "0 < blk_tuple_size b"
    and "\<forall>t \<in> set (stream st). length t = blk_tuple_size b"
    and "k = min (so_temp_cur st) ((blk_size b - blk_free b) div blk_tuple_size b)"
  shows "\<exists>st' b'. exec_loop fuel st b = Some (st', b') \<and> sort_inv st' \<and> stream st' = drop k (stream st)
    \<and> blk_ok b' \<and> holds b' (us @ take k (stream st)) \<and> blk_size b' = blk_size b
    \<and> blk_tuple_size b' = blk_tuple_size b"
  using assms
proof (induction fuel arbitrary: st b us k)
  case (Suc fuel)
  note pre = Suc.prems
  have free: "blk_free b \<le> blk_size b" using pre(4) by (simp add: blk_ok_def)
  show ?case
  proof (cases "allocateTuple b")
    case None
    then have "blk_size b - blk_free b < blk_tuple_size b"
      using free by (auto simp: allocateTuple_def split: if_splits)
    then have "k = 0" using pre(8) by simp
    then show ?thesis using None pre by simp
  next
    case (Some desc)
    have c: "so_count st < length (so_ranges st)" by (rule sort_inv_count [OF pre(1,2)])
    let ?rng = "so_ranges st ! so_count st" and ?ts = "blk_tuple_size b"
    have fits: "?ts \<le> blk_size b - blk_free b"
      using Some by (auto simp: allocateTuple_def split: if_splits)
    show ?thesis
    proof (cases "?rng = []")
      case True
      let ?st = "st\<lparr>so_count := so_count st + 1\<rparr>"
      have "\<exists>st' b'. exec_loop fuel ?st b = Some (st', b') \<and> sort_inv st' \<and> stream st' = drop k (stream ?st)
        \<and> blk_ok b' \<and> holds b' (us @ take k (stream ?st)) \<and> blk_size b' = blk_size b \<and> blk_tuple_size b' = ?ts"
        using pre c round_range [OF pre(1) True] by (intro Suc.IH) auto
      then show ?thesis using Some c True pre(2) round_range(1) [OF pre(1) True] by simp
    next
      case False
      define st1 where "st1 = st\<lparr>so_ranges := (so_ranges st)[so_count st := butlast ?rng],
        so_temp_cur := so_temp_cur st - 1, so_count := (if butlast ?rng = [] then so_count st + 1 else so_count st)\<rparr>"
      note rt = round_tuple [OF pre(1) c False, folded st1_def]
      from storeTuple_spec [OF pre(4,5) _ Some, of "last ?rng"] pre(7) rt(1) obtain b1 where
        b1: "storeTuple b desc (last ?rng) = Some b1" "blk_ok b1" "holds b1 (us @ [last ?rng])"
          "blk_size b1 = blk_size b" "blk_tuple_size b1 = ?ts" by auto
      have fr: "blk_free b1 = blk_free b + ?ts" using b1(1) by (auto simp: storeTuple_def bind_iff)
      have t1: "so_temp_cur st1 = so_temp_cur st - 1" by (simp add: st1_def)
      have step: "exec_loop (Suc fuel) st b = (if so_temp_cur st1 = 0 then Some (st1, b1) else exec_loop fuel st1 b1)"
        using Some c False b1(1) by (simp add: st1_def Let_def)
      define k1 where "k1 = min (so_temp_cur st1) ((blk_size b1 - blk_free b1) div ?ts)"
      have "(blk_size b - blk_free b) div ?ts = Suc ((blk_size b1 - blk_free b1) div ?ts)"
        using fits pre(6) b1(4) fr le_div_geq [of ?ts "blk_size b - blk_free b"] by (simp add: diff_diff_eq)
      then have k: "k = Suc k1" using pre(2,8) t1 by (auto simp: k1_def min_def)
      show ?thesis
      proof (cases "so_temp_cur st1 = 0")
        case True
        then have "stream st1 = []" "k1 = 0" using rt(2) by (auto simp: sort_inv_def k1_def)
        then show ?thesis using step True b1 rt k by simp
      next
        case False
        have "\<exists>st' b'. exec_loop fuel st1 b1 = Some (st', b') \<and> sort_inv st' \<and> stream st' = drop k1 (stream st1)
          \<and> blk_ok b' \<and> holds b' ((us @ [last ?rng]) @ take k1 (stream st1)) \<and> blk_size b' = blk_size b1
          \<and> blk_tuple_size b' = blk_tuple_size b1"
          using pre c rt b1 False t1 by (intro Suc.IH) (auto simp: k1_def st1_def)
        then show ?thesis using step False b1 rt(1) k by simp
      qed
    qed
  qed
qed simp

section \<open>The prelude\<close>

lemma u64_of_int_nat: "n < 2 ^ 64 \<Longrightarrow> u64_of_int (int n) = n"
  by (simp add: u64_of_int_def)

text \<open>The four bounds; the last one is the end of this node's share of the key space.\<close>

lemma dist_ranges_eq:
  assumes "0 < n" and "int (th * DATAVOLUME) \<le> INT_MAX"
  shows "dist_ranges th n
    = Some (map (\<lambda>i. int (th * DATAVOLUME div n + (i + 1) * DATAVOLUME div (n * CPU_CORE))) [0..<CPU_CORE])"
  unfolding dist_ranges_def using assms by (intro those_map_Some) (simp add: dist_range_def)

lemma range_of_last:
  assumes "bs \<noteq> []" and "v < u64_of_int (last bs)"
  shows "range_of v bs i \<noteq> None"
  using assms by (induction bs arbitrary: i) (auto split: if_splits)

lemma range_of_covered:
  assumes "0 < n" and "int (th * DATAVOLUME) \<le> INT_MAX" and "dist_ranges th n = Some ds"
    and "v < th * DATAVOLUME div n + DATAVOLUME div n"
  shows "range_of v ds 0 \<noteq> None"
proof -
  let ?x = "th * DATAVOLUME div n + CPU_CORE * DATAVOLUME div (n * CPU_CORE)"
  have ds: "ds \<noteq> []" "last ds = int ?x"
    using assms(3) unfolding dist_ranges_eq [OF assms(1,2)]
    by (auto simp: CPU_CORE_def last_map)
  have "th * DATAVOLUME div n \<le> th * DATAVOLUME" "DATAVOLUME div n \<le> DATAVOLUME" by auto
  moreover have "th * DATAVOLUME < 2 ^ 31" 
    using assms(2) unfolding INT_MAX_def by (simp del: of_nat_mult)
  moreover have "DATAVOLUME < 2 ^ 31" by (simp add: DATAVOLUME_def)
  ultimately have "th * DATAVOLUME div n + DATAVOLUME div n < 2 ^ 31 + 2 ^ 31" by linarith
  then have small: "th * DATAVOLUME div n + DATAVOLUME div n < 2 ^ 64" by simp
  have x: "CPU_CORE * DATAVOLUME div (n * CPU_CORE) = DATAVOLUME div n"
    by (simp add: CPU_CORE_def mult.commute [of n])
  have "?x < 2 ^ 64" "v < ?x" unfolding x using small assms(4) by simp_all
  then have "v < u64_of_int (last ds)" unfolding ds(2) by (simp only: u64_of_int_nat)
  then show ?thesis by (rule range_of_last [OF ds(1)])
qed

lemma desc_rev: "desc_sorted r \<Longrightarrow> sorted (map kt (rev r))"
  by (simp add: desc_sorted_def sorted_map sorted_wrt_rev)

lemma sorted_concat:
  assumes "\<And>r. r < length rs \<Longrightarrow> sorted (map kt (rs ! r))"
    and "\<And>r r' t t'. \<lbrakk>r < r'; r' < length rs; t \<in> set (rs ! r); t' \<in> set (rs ! r')\<rbrakk> \<Longrightarrow> kt t \<le> kt t'"
  shows "sorted (map kt (concat rs))"
  using assms
proof (induction rs)
  case (Cons x xs)
  have "sorted (map kt (concat xs))"
  proof (rule Cons.IH)
    show "sorted (map kt (xs ! r))" if "r < length xs" for r using Cons.prems(1) [of "Suc r"] that by simp
    show "kt t \<le> kt t'" if "r < r'" "r' < length xs" "t \<in> set (xs ! r)" "t' \<in> set (xs ! r')" for r r' t t'
      using Cons.prems(2) [of "Suc r" "Suc r'" t t'] that by simp
  qed
  moreover have "sorted (map kt x)" using Cons.prems(1) [of 0] by simp
  moreover have "kt t \<le> kt t'" if "t \<in> set x" "t' \<in> set (concat xs)" for t t'
  proof -
    from that(2) obtain r where "r < length xs" "t' \<in> set (xs ! r)"
      by (metis UN_E in_set_conv_nth set_concat)
    then show ?thesis using Cons.prems(2) [of 0 "Suc r" t t'] that(1) by simp
  qed
  ultimately show ?case by (auto simp: sorted_append)
qed simp

lemma sort_ranges:
  assumes "parted bounds rs" and "distinct (map kt (concat rs))"
  shows "\<exists>rs'. those (map (single_sort False) rs) = Some rs' \<and> length rs' = length rs
    \<and> (\<forall>r < length rs. mset (rs' ! r) = mset (rs ! r) \<and> desc_sorted (rs' ! r))"
proof -
  have "\<forall>r \<in> set rs. keyed r" using assms(1) unfolding parted_def keyed_def
    by (metis in_set_conv_nth)
  then show ?thesis using assms(2)
  proof (induction rs)
    case (Cons x xs)
    then obtain rs' where "those (map (single_sort False) xs) = Some rs'" "length rs' = length xs"
      "\<forall>r < length xs. mset (rs' ! r) = mset (xs ! r) \<and> desc_sorted (rs' ! r)" by auto
    moreover from Cons.prems single_sort_spec [of x] obtain z where "single_sort False x = Some z" "mset z = mset x"
      "desc_sorted z" by auto
    ultimately show ?case by (intro exI [of _ "z # rs'"]) (auto simp: nth_Cons split: nat.splits)
  qed simp
qed

lemma mset_concat_nth:
  "length rs' = length rs \<Longrightarrow> (\<forall>r < length rs. mset (rs' ! r) = mset (rs ! r)) \<Longrightarrow>
   mset (concat (map rev rs')) = mset (concat rs)"
proof (induction rs' rs rule: list_induct2)
  case (Cons x xs y ys)
  then have "mset x = mset y" "\<forall>r < length ys. mset (xs ! r) = mset (ys ! r)" by force+
  then show ?case using Cons by simp
qed simp

text \<open>With the missing return undefined, the prelude never has a defined result: it starts four sorting threads.\<close>

lemma single_sort_strict [simp]: "single_sort True r = None"
  by (simp add: single_sort_def bind_iff)

lemma partition_tuples_length: "partition_tuples bounds ts rs = Some rs' \<Longrightarrow> length rs' = length rs"
  by (induction ts arbitrary: rs) (auto simp: bind_iff split: if_splits)

lemma Sort_prelude_strict: "Sort_prelude True ip seqs blocks = None"
proof -
  have "those (map (single_sort True) rs) = None" if "length rs = CPU_CORE" for rs
    using that by (cases rs) (auto simp: CPU_CORE_def)
  then have "those (map (single_sort True) rs) = None"
    if "partition_tuples ds ts (replicate CPU_CORE []) = Some rs" for ds ts rs
    using partition_tuples_length [OF that] by simp
  then show ?thesis
    by (intro ccontr [of "Sort_prelude True ip seqs blocks = None"])
      (fastforce simp: Sort_prelude_def bind_iff Let_def)
qed

text \<open>
  C2. The prelude of \<open>Sort\<close>, for blocks whose tuples have pairwise different keys inside this node's
  share of the key space. With the missing return of the sorting threads read as a plain return it
  sorts: it returns with the ranges holding exactly the child's tuples, in an order in which \<open>execute\<close>
  will hand them out by increasing key. By the letter of the C++ standard it has no defined result.
\<close>

theorem sort_prelude_sorted:
  assumes "those (map block_tuples blocks) = Some tss" and "seqs \<noteq> []"
    and "int (find_th ip seqs 0 * DATAVOLUME) \<le> INT_MAX"
    and "\<forall>t \<in> set (concat tss). tuple_key t \<noteq> None
      \<and> kt t < find_th ip seqs 0 * DATAVOLUME div length seqs + DATAVOLUME div length seqs"
    and "distinct (map kt (concat tss))"
  shows "(\<exists>st. Sort_prelude False ip seqs blocks = Some st \<and> sort_inv st
      \<and> mset (stream st) = mset (concat tss) \<and> sorted (map kt (stream st)))
    \<and> Sort_prelude True ip seqs blocks = None"
proof -
  let ?th = "find_th ip seqs 0" and ?n = "length seqs"
  have n: "0 < ?n" using assms(2) by simp
  obtain ds where ds: "dist_ranges ?th ?n = Some ds" using dist_ranges_eq [OF n assms(3)] by blast
  have len: "length ds = CPU_CORE" using ds dist_ranges_eq [OF n assms(3)] by auto
  have "\<forall>t \<in> set (concat tss). tuple_key t \<noteq> None \<and> range_of (kt t) ds 0 \<noteq> None"
    using assms(4) range_of_covered [OF n assms(3) ds] by blast
  moreover have "parted ds (replicate CPU_CORE [])" by (simp add: parted_def)
  ultimately obtain rs where rs: "partition_tuples ds (concat tss) (replicate CPU_CORE []) = Some rs"
    "parted ds rs" "mset (concat rs) = mset (concat tss)"
    using partition_tuples_spec [of "concat tss" ds "replicate CPU_CORE []"] len by auto
  have "distinct (map kt (concat rs))"
    using rs(3) assms(5) by (metis mset_eq_imp_distinct_iff mset_map)
  from sort_ranges [OF rs(2) this] obtain rs' where rs': "those (map (single_sort False) rs) = Some rs'" "length rs' = length rs"
    "\<forall>r < length rs. mset (rs' ! r) = mset (rs ! r) \<and> desc_sorted (rs' ! r)" by blast
  let ?st = "\<lparr>so_ranges = rs', so_temp_cur = length (concat tss), so_dist_ranges = ds, so_count = 0\<rparr>"
  have ms: "mset (stream ?st) = mset (concat tss)"
    using mset_concat_nth [OF rs'(2)] rs'(3) rs(3) by (simp add: stream_def)
  have st: "set (rs' ! r) = set (rs ! r)" if "r < length rs" for r
    using rs'(3) that by (metis set_mset_mset)
  have "sorted (map kt (stream ?st))"
    unfolding stream_def
  proof (rule sorted_concat)
    show "sorted (map kt (map rev (so_ranges ?st) ! r))" if "r < length (map rev (so_ranges ?st))" for r
      using that rs'(2,3) by (simp add: desc_rev)
    show "kt t \<le> kt t'" if "r < r'" "r' < length (map rev (so_ranges ?st))" "t \<in> set (map rev (so_ranges ?st) ! r)"
      "t' \<in> set (map rev (so_ranges ?st) ! r')" for r r' t t'
      using that st rs'(2) parted_less [OF rs(2), of r r' t t'] by simp
  qed
  moreover have "sort_inv ?st" using mset_eq_length [OF ms] by (simp add: sort_inv_def)
  moreover have "Sort_prelude False ip seqs blocks = Some ?st"
    by (simp add: Sort_prelude_def assms(1) ds rs(1) rs'(1))
  ultimately show ?thesis using ms Sort_prelude_strict by blast
qed


text \<open>One block with two tuples, on the second of two workers.\<close>

definition two_tuples :: "bytes list" where
  "two_tuples = [kv_tuple 1 30000000, kv_tuple 2 26000000]"

theorem sort_prelude_sorted_witness:
  "\<exists>st. Sort_prelude False ''b'' [''a'', ''b''] [kv_image [] two_tuples] = Some st
    \<and> mset (stream st) = mset two_tuples \<and> sorted (map kt (stream st))"
proof -
  have "those (map block_tuples [kv_image [] two_tuples]) = Some [two_tuples]"
    using block_tuples_image [of two_tuples "[]"] by (simp add: two_tuples_def)
  moreover have "find_th ''b'' [''a'', ''b''] 0 = 1" by simp
  moreover have "\<forall>t \<in> set (concat [two_tuples]). tuple_key t \<noteq> None \<and> kt t < 50000000"
    by (simp add: two_tuples_def kt_def)
  moreover have "distinct (map kt (concat [two_tuples]))" by (simp add: two_tuples_def kt_def)
  ultimately show ?thesis
    using sort_prelude_sorted [of "[kv_image [] two_tuples]" "[two_tuples]" "[''a'', ''b'']" "''b''"]
    by (auto simp: DATAVOLUME_def INT_MAX_def numeral_2_eq_2 [symmetric])
qed


end
