(* ===== verification/Mosito_KM.thy ===== *)
theory Mosito_KM
  imports Mosito_Prelude
begin

text \<open>
  The Kuhn-Munkres assignment of \<^verbatim>\<open>analysis/m_km.h\<close> and \<^verbatim>\<open>analysis/m_km.cpp\<close>: \<open>KM::search\<close>,
  \<open>KM::run\<close> and \<open>KM::eval\<close>. The arrays are functions of the index; all indexes the code uses lie
  between 1 and \<open>nx\<close>, \<open>ny\<close>, so a run is defined when these are below \<open>MAXN\<close>. Every \<open>int\<close> sum and
  difference is checked for overflow.
\<close>

section \<open>The code\<close>

definition MAXN :: nat where "MAXN = 310"

definition KM_INF :: int where "KM_INF = 2147483647"

text \<open>\<open>for (i = 1; i <= n; i++)\<close>\<close>

definition one_to :: "nat \<Rightarrow> nat list" where
  "one_to n = [1..<Suc n]"

record km =
  km_nx :: nat
  km_ny :: nat
  km_w :: "nat \<Rightarrow> nat \<Rightarrow> int"
  km_lx :: "nat \<Rightarrow> int"
  km_ly :: "nat \<Rightarrow> int"
  km_link :: "nat \<Rightarrow> int"
  km_visx :: "nat \<Rightarrow> bool"
  km_visy :: "nat \<Rightarrow> bool"
  km_slack :: "nat \<Rightarrow> int"

text \<open>\<open>lx[x] + ly[y] - w[x][y]\<close>\<close>

definition km_gap :: "km \<Rightarrow> nat \<Rightarrow> nat \<Rightarrow> int option" where
  "km_gap st x y = do { s \<leftarrow> ck_int (km_lx st x + km_ly st y); ck_int (s - km_w st x y) }"

text \<open>
  The loop of \<open>search(x)\<close> over the columns \<open>ys\<close> still to visit. A recursive call has visited one
  more column than its caller, so a depth of \<open>ny\<close> is enough.
\<close>

fun search_ys :: "nat \<Rightarrow> nat \<Rightarrow> nat list \<Rightarrow> km \<Rightarrow> (bool \<times> km) option" where
  "search_ys depth x [] st = Some (False, st)"
| "search_ys depth x (y # ys) st =
     (if km_visy st y then search_ys depth x ys st
      else case km_gap st x y of
        None \<Rightarrow> None
      | Some t \<Rightarrow>
          if t = 0 then
            (let st1 = st\<lparr>km_visy := (km_visy st)(y := True)\<rparr> in
             if km_link st1 y = -1 then Some (True, st1\<lparr>km_link := (km_link st1)(y := int x)\<rparr>)
             else (case depth of
               0 \<Rightarrow> None
             | Suc d \<Rightarrow>
                 (let x' = nat (km_link st1 y) in
                  case search_ys d x' (one_to (km_ny st1)) (st1\<lparr>km_visx := (km_visx st1)(x' := True)\<rparr>) of
                    None \<Rightarrow> None
                  | Some (ok, st2) \<Rightarrow>
                      if ok then Some (True, st2\<lparr>km_link := (km_link st2)(y := int x)\<rparr>)
                      else search_ys depth x ys st2)))
          else if km_slack st y > t then search_ys depth x ys (st\<lparr>km_slack := (km_slack st)(y := t)\<rparr>)
          else search_ys depth x ys st)"

definition search :: "nat \<Rightarrow> km \<Rightarrow> (bool \<times> km) option" where
  "search x st = search_ys (km_ny st) x (one_to (km_ny st)) (st\<lparr>km_visx := (km_visx st)(x := True)\<rparr>)"

text \<open>The row maximum that initialises \<open>lx[i]\<close>.\<close>

fun row_max :: "(nat \<Rightarrow> int) \<Rightarrow> nat list \<Rightarrow> int \<Rightarrow> int" where
  "row_max r [] m = m"
| "row_max r (j # js) m = row_max r js (if r j > m then r j else m)"

fun slack_min :: "km \<Rightarrow> nat list \<Rightarrow> int \<Rightarrow> int" where
  "slack_min st [] d = d"
| "slack_min st (i # is) d = slack_min st is (if \<not> km_visy st i \<and> d > km_slack st i then km_slack st i else d)"

fun lower_lx :: "int \<Rightarrow> nat list \<Rightarrow> km \<Rightarrow> km option" where
  "lower_lx d [] st = Some st"
| "lower_lx d (i # is) st =
     (if km_visx st i then do {
        v \<leftarrow> ck_int (km_lx st i - d);
        lower_lx d is (st\<lparr>km_lx := (km_lx st)(i := v)\<rparr>)
      }
      else lower_lx d is st)"

fun raise_ly :: "int \<Rightarrow> nat list \<Rightarrow> km \<Rightarrow> km option" where
  "raise_ly d [] st = Some st"
| "raise_ly d (i # is) st =
     (if km_visy st i then do {
        v \<leftarrow> ck_int (km_ly st i + d);
        raise_ly d is (st\<lparr>km_ly := (km_ly st)(i := v)\<rparr>)
      }
      else do {
        v \<leftarrow> ck_int (km_slack st i - d);
        raise_ly d is (st\<lparr>km_slack := (km_slack st)(i := v)\<rparr>)
      })"

text \<open>What follows a failed search.\<close>

definition relabel :: "km \<Rightarrow> km option" where
  "relabel st = do {
     let d = slack_min st (one_to (km_ny st)) KM_INF;
     st1 \<leftarrow> lower_lx d (one_to (km_nx st)) st;
     raise_ly d (one_to (km_ny st1)) st1
   }"

text \<open>\<open>while (1)\<close>: every failed search visits more columns, so \<open>ny + 1\<close> rounds are enough.\<close>

fun augment :: "nat \<Rightarrow> nat \<Rightarrow> km \<Rightarrow> km option" where
  "augment 0 x st = None"
| "augment (Suc fuel) x st = do {
     (ok, st1) \<leftarrow> search x (st\<lparr>km_visx := (\<lambda>_. False), km_visy := (\<lambda>_. False)\<rparr>);
     if ok then Some st1
     else do { st2 \<leftarrow> relabel st1; augment fuel x st2 }
   }"

fun reset_slack :: "nat list \<Rightarrow> km \<Rightarrow> km" where
  "reset_slack [] st = st"
| "reset_slack (i # is) st = reset_slack is (st\<lparr>km_slack := (km_slack st)(i := KM_INF)\<rparr>)"

fun run_xs :: "nat list \<Rightarrow> km \<Rightarrow> km option" where
  "run_xs [] st = Some st"
| "run_xs (x # xs) st = do {
     st1 \<leftarrow> augment (Suc (km_ny st)) x (reset_slack (one_to (km_ny st)) st);
     run_xs xs st1
   }"

fun init_lx :: "nat list \<Rightarrow> km \<Rightarrow> km" where
  "init_lx [] st = st"
| "init_lx (i # is) st =
     init_lx is (st\<lparr>km_lx := (km_lx st)(i := row_max (km_w st i) (one_to (km_ny st)) (- KM_INF))\<rparr>)"

fun result_loop :: "nat list \<Rightarrow> km \<Rightarrow> int \<Rightarrow> string \<Rightarrow> (int \<times> string) option" where
  "result_loop [] st res txt' = Some (res, txt')"
| "result_loop (i # is) st res txt' =
     (if km_link st i > -1 then do {
        r \<leftarrow> ck_int (res + km_w st (nat (km_link st i)) i);
        result_loop is st r (txt' @ ''link[i]: '' @ show_int (km_link st i) @ ''  --  '' @ ''i: '' @ dec i @ [CHR 0x0A])
      }
      else result_loop is st res txt')"

definition KM_run :: "km \<Rightarrow> ((int \<times> string) \<times> km) option" where
  "KM_run st =
     (if km_nx st < MAXN \<and> km_ny st < MAXN then do {
        let st1 = init_lx (one_to (km_nx st)) (st\<lparr>km_link := (\<lambda>_. -1), km_ly := (\<lambda>_. 0)\<rparr>);
        st2 \<leftarrow> run_xs (one_to (km_nx st1)) st1;
        r \<leftarrow> result_loop (one_to (km_ny st2)) st2 0 [];
        Some (r, st2)
      }
      else None)"

text \<open>
  \<open>eval\<close> on the numbers of standard input: a size \<open>n\<close> and the \<open>n * n\<close> weights row by row, until the
  input ends. A weight that is missing at the end of the input stays 0.
\<close>

definition read_w :: "nat \<Rightarrow> int list \<Rightarrow> nat \<Rightarrow> nat \<Rightarrow> int" where
  "read_w n ns i j =
     (let k = (i - 1) * n + (j - 1) in
      if 1 \<le> i \<and> i \<le> n \<and> 1 \<le> j \<and> j \<le> n \<and> k < length ns then ns ! k else 0)"

function KM_eval_loop :: "int list \<Rightarrow> km \<Rightarrow> string option" where
  "KM_eval_loop [] st = Some []"
| "KM_eval_loop (n # ns) st = do {
     let k = nat n;
     ((ans, out), st') \<leftarrow> KM_run (st\<lparr>km_nx := k, km_ny := k, km_w := read_w k ns\<rparr>);
     rest \<leftarrow> KM_eval_loop (drop (k * k) ns) st';
     Some (out @ show_int ans @ [CHR 0x0A] @ rest)
   }"
  by pat_completeness auto
termination
  by (relation "measure (\<lambda>(ns, st). length ns)") auto

definition KM_eval :: "int list \<Rightarrow> km \<Rightarrow> string option" where
  "KM_eval ns st = map_option (\<lambda>s. ''input a n and input the x and y: '' @ [CHR 0x0A] @ s) (KM_eval_loop ns st)"

section \<open>Searching\<close>

definition gp :: "km \<Rightarrow> nat \<Rightarrow> nat \<Rightarrow> int" where
  "gp st x y = km_lx st x + km_ly st y - km_w st x y"

definition rows :: "km \<Rightarrow> nat set" where "rows st = {1..km_nx st}"

definition cols :: "km \<Rightarrow> nat set" where "cols st = {1..km_ny st}"

lemma finite_cols [simp]: "finite (cols st)" "finite (rows st)"
  by (auto simp: cols_def rows_def)

lemma set_one_to [simp]: "set (one_to (km_ny st)) = cols st" "set (one_to (km_nx st)) = rows st" "distinct (one_to n)"
  by (auto simp: cols_def rows_def one_to_def)

text \<open>How many columns are assigned to a row.\<close>

definition cnt :: "km \<Rightarrow> nat \<Rightarrow> nat" where
  "cnt st x = card {y \<in> cols st. km_link st y = int x}"

definition links_ok :: "km \<Rightarrow> bool" where
  "links_ok st \<longleftrightarrow> (\<forall>y \<in> cols st. km_link st y = -1 \<or> (\<exists>x \<in> rows st. km_link st y = int x \<and> gp st x y = 0))"

definition no_overflow :: "km \<Rightarrow> bool" where
  "no_overflow st \<longleftrightarrow> (\<forall>x \<in> rows st. \<forall>y \<in> cols st. km_gap st x y = Some (gp st x y))"

text \<open>What a search keeps, and what it shows when it succeeds and when it fails.\<close>

definition same_graph :: "km \<Rightarrow> km \<Rightarrow> bool" where
  "same_graph st st' \<longleftrightarrow> km_nx st' = km_nx st \<and> km_ny st' = km_ny st \<and> km_w st' = km_w st \<and> km_lx st' = km_lx st
     \<and> km_ly st' = km_ly st"

definition frame :: "km \<Rightarrow> km \<Rightarrow> bool" where
  "frame st st' \<longleftrightarrow> same_graph st st' \<and> (\<forall>y. km_visy st y \<longrightarrow> km_visy st' y \<and> km_link st' y = km_link st y)"

definition found :: "km \<Rightarrow> nat \<Rightarrow> km \<Rightarrow> bool" where
  "found st x st' \<longleftrightarrow> (\<forall>z. cnt st' z = cnt st z + (if z = x then 1 else 0))
     \<and> (\<forall>y. km_link st y \<noteq> -1 \<longrightarrow> km_link st' y \<noteq> -1)"

definition scanned :: "km \<Rightarrow> nat \<Rightarrow> nat set \<Rightarrow> bool" where
  "scanned st x Y \<longleftrightarrow> (\<forall>y \<in> Y. km_visy st y \<or> gp st x y \<noteq> 0 \<and> km_slack st y \<le> gp st x y)"

text \<open>Sets of rows and columns that no alternating path leaves.\<close>

definition closed_sets :: "km \<Rightarrow> nat set \<Rightarrow> nat set \<Rightarrow> bool" where
  "closed_sets st S T \<longleftrightarrow> (\<forall>x \<in> S. \<forall>y \<in> cols st. gp st x y = 0 \<longrightarrow> y \<in> T)
     \<and> (\<forall>y \<in> T. km_link st y \<noteq> -1 \<longrightarrow> nat (km_link st y) \<in> S)"

definition stays_in :: "km \<Rightarrow> nat \<Rightarrow> km \<Rightarrow> bool" where
  "stays_in st x st' \<longleftrightarrow> (\<forall>S T. x \<in> S \<longrightarrow> closed_sets st S T \<longrightarrow>
     (\<forall>z. km_visx st' z \<longrightarrow> \<not> km_visx st z \<longrightarrow> z \<in> S) \<and> (\<forall>y. km_visy st' y \<longrightarrow> \<not> km_visy st y \<longrightarrow> y \<in> T))"

definition failed :: "km \<Rightarrow> nat \<Rightarrow> nat set \<Rightarrow> km \<Rightarrow> bool" where
  "failed st x Y st' \<longleftrightarrow> km_link st' = km_link st
     \<and> (\<forall>z. km_visx st z \<longrightarrow> km_visx st' z)
     \<and> (\<forall>y. km_slack st' y \<le> km_slack st y)
     \<and> scanned st' x Y
     \<and> (\<forall>z. km_visx st' z \<longrightarrow> \<not> km_visx st z \<longrightarrow> z \<in> rows st \<and> scanned st' z (cols st))
     \<and> (\<forall>y. km_visy st' y \<longrightarrow> \<not> km_visy st y \<longrightarrow> y \<in> cols st \<and> km_link st y \<noteq> -1 \<and> km_visx st' (nat (km_link st y)))
     \<and> (\<forall>y. km_slack st' y = km_slack st y \<or> (\<exists>z. km_visx st' z \<and> km_slack st' y = gp st z y))
     \<and> stays_in st x st'"

lemma same_graph_simps:
  assumes "same_graph st st'"
  shows "km_nx st' = km_nx st" "km_ny st' = km_ny st" "rows st' = rows st" "cols st' = cols st" "gp st' = gp st"
    "km_w st' = km_w st" "km_lx st' = km_lx st" "km_ly st' = km_ly st" "km_gap st' = km_gap st"
    "no_overflow st' = no_overflow st"
proof -
  show g: "rows st' = rows st" "cols st' = cols st" "gp st' = gp st" "km_gap st' = km_gap st"
    using assms by (auto simp: same_graph_def rows_def cols_def gp_def km_gap_def fun_eq_iff)
  then show "no_overflow st' = no_overflow st" by (simp add: no_overflow_def)
qed (use assms in \<open>auto simp: same_graph_def\<close>)

lemma cnt_assign:
  assumes "y \<in> cols st"
  shows "cnt (st\<lparr>km_link := (km_link st)(y := int x)\<rparr>) z
    = cnt st z + (if z = x then 1 else 0) - (if km_link st y = int z then 1 else 0)"
proof -
  let ?A = "{y' \<in> cols st. km_link st y' = int z}"
  have "{y' \<in> cols st. ((km_link st)(y := int x)) y' = int z} = (if z = x then insert y ?A else ?A - {y})"
    using assms by auto
  moreover have "finite ?A" by simp
  ultimately show ?thesis using assms by (auto simp: cnt_def cols_def card_insert_if)
qed

lemma assign_links_ok:
  assumes "links_ok st" "x \<in> rows st" "gp st x y = 0"
  shows "links_ok (st\<lparr>km_visy := v, km_link := (km_link st)(y := int x)\<rparr>)"
    and "links_ok (st\<lparr>km_link := (km_link st)(y := int x)\<rparr>)"
  using assms by (auto simp: links_ok_def rows_def cols_def gp_def)

text \<open>The four ways the loop goes on to the next column.\<close>

lemma failed_Nil: "failed st x {} st"
  by (simp add: failed_def scanned_def stays_in_def)

lemma failedD:
  assumes "failed st x Y st'"
  shows "km_link st' = km_link st" "km_visx st z \<Longrightarrow> km_visx st' z" "km_slack st' y \<le> km_slack st y"
    "scanned st' x Y"
    "km_visx st' z \<Longrightarrow> \<not> km_visx st z \<Longrightarrow> z \<in> rows st \<and> scanned st' z (cols st)"
    "km_visy st' y \<Longrightarrow> \<not> km_visy st y \<Longrightarrow> y \<in> cols st \<and> km_link st y \<noteq> -1 \<and> km_visx st' (nat (km_link st y))"
    "km_slack st' y = km_slack st y \<or> (\<exists>z. km_visx st' z \<and> km_slack st' y = gp st z y)"
    "stays_in st x st'"
  using assms unfolding failed_def by simp_all

lemma stays_inD:
  assumes "stays_in st x st'" "x \<in> S" "closed_sets st S T"
  shows "km_visx st' z \<Longrightarrow> \<not> km_visx st z \<Longrightarrow> z \<in> S" "km_visy st' y \<Longrightarrow> \<not> km_visy st y \<Longrightarrow> y \<in> T"
  using assms unfolding stays_in_def by blast+

lemma failed_scan: "failed st x Y st' \<Longrightarrow> scanned st' x Y' \<Longrightarrow> failed st x Y' st'"
  unfolding failed_def by blast

lemma scanned_insert: "scanned st x (insert y Y) \<longleftrightarrow> (km_visy st y \<or> gp st x y \<noteq> 0 \<and> km_slack st y \<le> gp st x y) \<and> scanned st x Y"
  by (simp add: scanned_def)

lemma frame_gp: "frame st st' \<Longrightarrow> gp st' = gp st"
  by (simp add: frame_def same_graph_simps)

lemma failed_skip:
  assumes "frame st st'" "failed st x Y st'" "km_visy st y"
  shows "failed st x (insert y Y) st'"
proof (rule failed_scan [OF assms(2)])
  show "scanned st' x (insert y Y)"
    using failedD(4) [OF assms(2)] assms(1,3) by (simp add: scanned_insert frame_def)
qed

lemma failed_slack:
  assumes "frame st st'" "failed st x Y st'" "gp st x y \<noteq> 0" "km_slack st y \<le> gp st x y"
  shows "failed st x (insert y Y) st'"
proof (rule failed_scan [OF assms(2)])
  have "km_slack st' y \<le> gp st x y" using failedD(3) [OF assms(2)] assms(4) by (rule order_trans)
  then show "scanned st' x (insert y Y)"
    using failedD(4) [OF assms(2)] assms(1,3) by (simp add: scanned_insert frame_gp)
qed

lemma closed_sets_cong:
  assumes "same_graph st st'" "km_link st' = km_link st"
  shows "closed_sets st' S T = closed_sets st S T"
  using assms by (simp add: closed_sets_def same_graph_simps)

lemma failed_update:
  assumes "failed st1 x Y st'" and st1: "st1 = st\<lparr>km_slack := (km_slack st)(y := gp st x y)\<rparr>"
    and "km_slack st y > gp st x y" "km_visx st x"
  shows "failed st x Y st'"
proof -
  have sg: "same_graph st st1" by (simp add: st1 same_graph_def)
  have eq: "km_link st1 = km_link st" "km_visx st1 = km_visx st" "km_visy st1 = km_visy st" by (simp_all add: st1)
  have sl: "km_slack st1 z = (if z = y then gp st x y else km_slack st z)" for z by (simp add: st1)
  note f = failedD [OF assms(1), unfolded same_graph_simps [OF sg] eq]
  have "km_slack st' z \<le> km_slack st z" for z
    using f(3) [of z] assms(3) sl [of z] by (cases "z = y") simp_all
  moreover have "km_slack st' z = km_slack st z \<or> (\<exists>u. km_visx st' u \<and> km_slack st' z = gp st u z)" for z
    using f(7) [of z] f(2) [OF assms(4)] sl [of z] by (cases "z = y") auto
  moreover have "stays_in st x st'"
    using f(8) unfolding stays_in_def closed_sets_cong [OF sg eq(1)] eq .
  ultimately show ?thesis unfolding failed_def using f(1,2,4,5,6) by simp
qed

lemma scanned_mono:
  assumes "scanned st x Y" "frame st st'" "\<And>y. km_slack st' y \<le> km_slack st y"
  shows "scanned st' x Y"
  unfolding scanned_def frame_gp [OF assms(2)]
proof
  fix y assume "y \<in> Y"
  then have "km_visy st y \<or> gp st x y \<noteq> 0 \<and> km_slack st y \<le> gp st x y" using assms(1) by (simp add: scanned_def)
  then show "km_visy st' y \<or> gp st x y \<noteq> 0 \<and> km_slack st' y \<le> gp st x y"
    using assms(2) order_trans [OF assms(3) [of y]] by (auto simp: frame_def)
qed

lemma failed_recurse:
  assumes y: "y \<in> cols st" "gp st x y = 0" "km_link st y = int x'" "x' \<in> rows st"
    and st1: "st1 = st\<lparr>km_visy := (km_visy st)(y := True), km_visx := (km_visx st)(x' := True)\<rparr>"
    and r: "frame st1 st2" "failed st1 x' (cols st) st2" and l: "frame st2 st'" "failed st2 x Y st'"
  shows "failed st x (insert y Y) st'"
proof -
  have g1: "same_graph st st1" by (simp add: st1 same_graph_def)
  have g2: "same_graph st1 st2" and g3: "same_graph st2 st'" using r(1) l(1) by (simp_all add: frame_def)
  note [simp] = same_graph_simps [OF g1] same_graph_simps [OF g2]
  note fr = failedD [OF r(2)] and fl = failedD [OF l(2)]
  have lk: "km_link st1 = km_link st" "km_link st2 = km_link st" "km_link st' = km_link st"
    using fr(1) fl(1) by (simp_all add: st1)
  have cl: "closed_sets st1 S T = closed_sets st S T" "closed_sets st2 S T = closed_sets st S T" for S T
    using closed_sets_cong [OF g1 lk(1)] closed_sets_cong [OF g2] lk by simp_all
  have sl: "km_slack st1 = km_slack st" by (simp add: st1)
  have v1: "km_visx st1 z \<longleftrightarrow> km_visx st z \<or> z = x'" "km_visy st1 z \<longleftrightarrow> km_visy st z \<or> z = y" for z
    by (auto simp: st1)
  have vy: "km_visy st' z" if "km_visy st1 z" for z using that r(1) l(1) by (simp add: frame_def)
  have sc: "scanned st' z Z" if "scanned st2 z Z" for z Z using scanned_mono [OF that l(1) fl(3)] .
  have "km_slack st' z \<le> km_slack st z" for z using order_trans [OF fl(3) fr(3)] sl by simp
  moreover have "scanned st' x (insert y Y)" using fl(4) vy v1 by (simp add: scanned_insert)
  moreover have "z \<in> rows st \<and> scanned st' z (cols st)" if "km_visx st' z" "\<not> km_visx st z" for z
  proof (cases "km_visx st2 z")
    case True
    then show ?thesis using fr(4) fr(5) [of z] sc y(4) that(2) v1(1) [of z] by auto
  qed (use fl(5) [of z] that in simp)
  moreover have "z \<in> cols st \<and> km_link st z \<noteq> -1 \<and> km_visx st' (nat (km_link st z))"
    if "km_visy st' z" "\<not> km_visy st z" for z
  proof (cases "km_visy st2 z")
    case True
    show ?thesis
    proof (cases "z = y")
      case True
      have "km_visx st1 x'" by (simp add: v1)
      then show ?thesis using True y fr(2) fl(2) by simp
    next
      case False
      then show ?thesis using fr(6) [OF True] v1(2) [of z] that(2) lk fl(2) by simp
    qed
  qed (use fl(6) [of z] that lk in simp)
  moreover have "km_slack st' z = km_slack st z \<or> (\<exists>u. km_visx st' u \<and> km_slack st' z = gp st u z)" for z
  proof (cases "km_slack st' z = km_slack st2 z")
    case True
    then show ?thesis using fr(7) [of z] fl(2) sl by (cases "km_slack st2 z = km_slack st1 z") auto
  qed (use fl(7) [of z] in auto)
  moreover have "stays_in st x st'"
    unfolding stays_in_def
  proof (intro allI impI conjI)
    fix S T z assume S: "x \<in> S" "closed_sets st S T"
    have yT: "y \<in> T" using S y(1,2) unfolding closed_sets_def by blast
    then have xS: "x' \<in> S" using S(2) y(3) unfolding closed_sets_def by force
    have c: "closed_sets st1 S T" "closed_sets st2 S T" using S(2) cl by simp_all
    note i = stays_inD [OF fr(8) xS c(1)] stays_inD [OF fl(8) S(1) c(2)]
    show "z \<in> S" if "km_visx st' z" "\<not> km_visx st z" using i(1,3) [of z] that v1(1) [of z] xS by blast
    show "z \<in> T" if "km_visy st' z" "\<not> km_visy st z" using i(2,4) [of z] that v1(2) [of z] yT by blast
  qed
  moreover have "km_visx st' z" if "km_visx st z" for z using fl(2) fr(2) v1(1) that by blast
  ultimately show ?thesis unfolding failed_def using lk(3) by simp
qed

lemma frame_trans: "frame a b \<Longrightarrow> frame b c \<Longrightarrow> frame a c"
  by (simp add: frame_def same_graph_def)

text \<open>The outcome of a search, and how it passes from the rest of the loop to the whole loop.\<close>

definition searched :: "km \<Rightarrow> nat \<Rightarrow> nat set \<Rightarrow> (bool \<times> km) option \<Rightarrow> bool" where
  "searched st x Y r \<longleftrightarrow> (case r of None \<Rightarrow> False
     | Some (ok, st') \<Rightarrow> frame st st' \<and> links_ok st' \<and> (ok \<longrightarrow> found st x st') \<and> (\<not> ok \<longrightarrow> failed st x Y st'))"

lemma searchedE:
  assumes "searched st x Y r"
  obtains ok st' where "r = Some (ok, st')" "frame st st'" "links_ok st'" "ok \<longrightarrow> found st x st'" "\<not> ok \<longrightarrow> failed st x Y st'"
  using assms unfolding searched_def by (auto split: option.splits)

lemma searched_skip: "searched st x Y r \<Longrightarrow> km_visy st y \<Longrightarrow> searched st x (insert y Y) r"
  by (auto simp: searched_def failed_skip split: option.splits)

lemma searched_slack:
  "searched st x Y r \<Longrightarrow> gp st x y \<noteq> 0 \<Longrightarrow> km_slack st y \<le> gp st x y \<Longrightarrow> searched st x (insert y Y) r"
  by (auto simp: searched_def failed_slack split: option.splits)

lemma searched_update:
  assumes "searched st1 x Y r" and st1: "st1 = st\<lparr>km_slack := (km_slack st)(y := gp st x y)\<rparr>"
    and "gp st x y \<noteq> 0" "km_slack st y > gp st x y" "km_visx st x"
  shows "searched st x (insert y Y) r"
proof -
  have sg: "same_graph st st1" by (simp add: st1 same_graph_def)
  have eq: "km_link st1 = km_link st" "km_visy st1 = km_visy st" "km_slack st1 y = gp st x y" by (simp_all add: st1)
  have "searched st1 x (insert y Y) r"
    using searched_slack [OF assms(1)] assms(3) same_graph_simps(5) [OF sg] eq by simp
  moreover have "frame st st'" if "frame st1 st'" for st' using that sg eq by (simp add: frame_def same_graph_def)
  moreover have "found st x st'" if "found st1 x st'" for st'
    using that eq by (simp add: found_def cnt_def same_graph_simps [OF sg])
  ultimately show ?thesis using failed_update [OF _ st1 assms(4,5)] by (auto simp: searched_def split: option.splits)
qed

lemma searched_assign:
  assumes "links_ok st" "x \<in> rows st" "y \<in> cols st" "\<not> km_visy st y" "gp st x y = 0" "km_link st y = -1"
  shows "searched st x Y (Some (True, st\<lparr>km_visy := (km_visy st)(y := True), km_link := (km_link st)(y := int x)\<rparr>))"
proof -
  let ?st = "st\<lparr>km_visy := (km_visy st)(y := True), km_link := (km_link st)(y := int x)\<rparr>"
  have "frame st ?st" using assms(4) by (auto simp: frame_def same_graph_def)
  moreover have "links_ok ?st" using assign_links_ok(1) [OF assms(1,2,5)] by simp
  moreover have "found st x ?st" using assms(6) cnt_assign [OF assms(3), of x] by (auto simp: found_def cnt_def cols_def)
  ultimately show ?thesis by (simp add: searched_def)
qed

lemma found_recurse:
  assumes "links_ok st2" "x \<in> rows st" and y: "y \<in> cols st" "\<not> km_visy st y" "gp st x y = 0" "km_link st y = int x'"
    and st1: "st1 = st\<lparr>km_visy := (km_visy st)(y := True), km_visx := (km_visx st)(x' := True)\<rparr>"
    and r: "frame st1 st2" "found st1 x' st2"
  shows "searched st x Y (Some (True, st2\<lparr>km_link := (km_link st2)(y := int x)\<rparr>))"
proof -
  let ?st = "st2\<lparr>km_link := (km_link st2)(y := int x)\<rparr>"
  have sg: "same_graph st st2" and lk: "km_link st1 = km_link st" "km_link st2 y = int x'"
    using r(1) y(4) by (auto simp: frame_def same_graph_def st1)
  note [simp] = same_graph_simps [OF sg]
  have c1: "cnt st1 z = cnt st z" for z by (simp add: cnt_def lk) (simp add: st1 cols_def)
  have "cnt ?st z = cnt st z + (if z = x then 1 else 0)" for z
    using cnt_assign [of y st2 x z] y(1) r(2) lk(2) c1 by (simp add: found_def)
  moreover have "km_link ?st z \<noteq> -1" if "km_link st z \<noteq> -1" for z using r(2) that by (simp add: found_def lk)
  moreover have "frame st ?st" using r(1) y(2) by (auto simp: frame_def same_graph_def st1)
  moreover have "links_ok ?st" using assign_links_ok(2) [OF assms(1), of x y] assms(2) y(3) by simp
  ultimately show ?thesis by (simp add: searched_def found_def)
qed

lemma searched_recurse:
  assumes y: "y \<in> cols st" "gp st x y = 0" "km_link st y = int x'" "x' \<in> rows st"
    and st1: "st1 = st\<lparr>km_visy := (km_visy st)(y := True), km_visx := (km_visx st)(x' := True)\<rparr>"
    and r: "frame st1 st2" "failed st1 x' (cols st) st2" and l: "searched st2 x Y r"
  shows "searched st x (insert y Y) r"
proof -
  obtain ok st' where st': "r = Some (ok, st')" "frame st2 st'" "links_ok st'" "ok \<longrightarrow> found st2 x st'"
    "\<not> ok \<longrightarrow> failed st2 x Y st'" using l by (rule searchedE)
  have sg: "same_graph st st2" and lk: "km_link st2 = km_link st"
    using r failedD(1) [OF r(2)] by (simp_all add: frame_def same_graph_def st1)
  have "frame st st2" using r(1) by (auto simp: frame_def st1 same_graph_def)
  then have "frame st st'" using st'(2) by (rule frame_trans)
  moreover have "found st x st'" if ok using st'(4) that by (simp add: found_def cnt_def same_graph_simps [OF sg] lk)
  moreover have "failed st x (insert y Y) st'" if "\<not> ok" using failed_recurse [OF y st1 r st'(2)] st'(5) that by simp
  ultimately show ?thesis using st'(1,3) by (auto simp: searched_def)
qed

text \<open>
  The search with enough depth: it returns, and either assigns one more column to \<open>x\<close> or shows why
  no column can be assigned.
\<close>

lemma search_ys_spec:
  assumes "links_ok st" "no_overflow st" "x \<in> rows st" "km_visx st x" "set ys \<subseteq> cols st"
    and "card {y \<in> cols st. \<not> km_visy st y} \<le> depth"
  shows "searched st x (set ys) (search_ys depth x ys st)"
  using assms
proof (induction depth arbitrary: x ys st rule: less_induct)
  case (less depth)
  from less.prems show ?case
  proof (induction ys arbitrary: st)
    case Nil
    then show ?case by (simp add: searched_def failed_Nil frame_def same_graph_def)
  next
    case (Cons y ys)
    have yc: "y \<in> cols st" "set ys \<subseteq> cols st" using Cons.prems(5) by auto
    have gap: "km_gap st x y = Some (gp st x y)" using Cons.prems(2,3) yc by (simp add: no_overflow_def)
    consider "km_visy st y" | "\<not> km_visy st y" "gp st x y \<noteq> 0" "km_slack st y \<le> gp st x y"
      | "\<not> km_visy st y" "gp st x y \<noteq> 0" "km_slack st y > gp st x y"
      | "\<not> km_visy st y" "gp st x y = 0" "km_link st y = -1"
      | "\<not> km_visy st y" "gp st x y = 0" "km_link st y \<noteq> -1" by linarith
    then show ?case
    proof cases
      case 1
      then show ?thesis using searched_skip [OF Cons.IH [OF Cons.prems(1-4) yc(2) Cons.prems(6)]] by simp
    next
      case 2
      then show ?thesis using searched_slack [OF Cons.IH [OF Cons.prems(1-4) yc(2) Cons.prems(6)]] gap by simp
    next
      case 3
      let ?st = "st\<lparr>km_slack := (km_slack st)(y := gp st x y)\<rparr>"
      have sg: "same_graph st ?st" by (simp add: same_graph_def)
      have "links_ok ?st" using Cons.prems(1) by (simp add: links_ok_def same_graph_simps [OF sg])
      then have "searched ?st x (set ys) (search_ys depth x ys ?st)"
        using Cons.prems yc(2) by (intro Cons.IH) (simp_all add: same_graph_simps [OF sg])
      then show ?thesis using searched_update [OF _ refl 3(2,3) Cons.prems(4)] 3 gap by simp
    next
      case 4
      then show ?thesis using searched_assign [OF Cons.prems(1,3) yc(1) 4] gap by simp
    next
      case 5
      from Cons.prems(1) 5(3) yc obtain x' where x': "x' \<in> rows st" "km_link st y = int x'"
        by (auto simp: links_ok_def)
      let ?U = "{y \<in> cols st. \<not> km_visy st y}"
      have "card (?U - {y}) < card ?U" using yc 5(1) by (intro psubset_card_mono) auto
      then obtain d where d: "depth = Suc d" "card (?U - {y}) \<le> d" using Cons.prems(6) by (cases depth) auto
      define st1 where "st1 = st\<lparr>km_visy := (km_visy st)(y := True), km_visx := (km_visx st)(x' := True)\<rparr>"
      have sg: "same_graph st st1" and lk: "km_link st1 = km_link st" by (simp_all add: st1_def same_graph_def)
      note [simp] = same_graph_simps [OF sg]
      have all: "set (one_to (km_ny st1)) = cols st" by simp
      have "searched st1 x' (set (one_to (km_ny st1))) (search_ys d x' (one_to (km_ny st1)) st1)"
      proof (rule less.IH)
        show "links_ok st1" using Cons.prems(1) by (simp add: links_ok_def lk)
        have "{y' \<in> cols st1. \<not> km_visy st1 y'} = ?U - {y}" by (auto simp: st1_def cols_def)
        then show "card {y' \<in> cols st1. \<not> km_visy st1 y'} \<le> d" using d(2) by simp
        show "km_visx st1 x'" by (simp add: st1_def)
      qed (use d x'(1) Cons.prems(2) in auto)
      then obtain ok st2 where st2: "search_ys d x' (one_to (km_ny st1)) st1 = Some (ok, st2)" "frame st1 st2" "links_ok st2"
        "ok \<longrightarrow> found st1 x' st2" "\<not> ok \<longrightarrow> failed st1 x' (cols st) st2"
        by (rule searchedE) (simp only: all)
      have step: "search_ys depth x (y # ys) st = (if ok then Some (True, st2\<lparr>km_link := (km_link st2)(y := int x)\<rparr>)
        else search_ys depth x ys st2)"
        using 5 gap d(1) x'(2) st2(1) by (simp add: st1_def Let_def)
      show ?thesis
      proof (cases ok)
        case True
        then show ?thesis
          using found_recurse [OF st2(3) Cons.prems(3) yc(1) 5(1,2) x'(2) st1_def st2(2)] st2(4) step by simp
      next
        case False
        then have f: "failed st1 x' (cols st) st2" using st2(5) by simp
        have sg2: "same_graph st1 st2" and mono: "km_visy st u \<Longrightarrow> km_visy st2 u" for u
          using st2(2) by (auto simp: frame_def st1_def)
        have "card {y \<in> cols st. \<not> km_visy st2 y} \<le> card ?U" using mono by (intro card_mono) auto
        moreover have "km_visx st2 x" using failedD(2) [OF f] Cons.prems(4) by (simp add: st1_def)
        ultimately have "searched st2 x (set ys) (search_ys depth x ys st2)"
          using Cons.prems(2,3,6) yc(2) st2(3) by (intro Cons.IH) (simp_all add: same_graph_simps [OF sg2])
        then show ?thesis using searched_recurse [OF yc(1) 5(2) x'(2,1) st1_def st2(2) f] step False by simp
      qed
    qed
  qed
qed

section \<open>Relabelling\<close>

lemma slack_min_le: "slack_min st is d \<le> d"
proof (induction "is" arbitrary: d)
  case (Cons j js)
  show ?case using Cons.IH [of "if \<not> km_visy st j \<and> d > km_slack st j then km_slack st j else d"]
    by (auto split: if_splits)
qed simp

lemma slack_min_lower: "i \<in> set is \<Longrightarrow> \<not> km_visy st i \<Longrightarrow> slack_min st is d \<le> km_slack st i"
proof (induction "is" arbitrary: d)
  case (Cons j js)
  show ?case
  proof (cases "i = j")
    case True
    then show ?thesis using Cons.prems(2) slack_min_le [of st js d] slack_min_le [of st js "km_slack st j"] by auto
  qed (use Cons in auto)
qed simp

lemma slack_min_cases:
  "slack_min st is d = d \<or> (\<exists>i \<in> set is. \<not> km_visy st i \<and> slack_min st is d = km_slack st i)"
proof (induction "is" arbitrary: d)
  case (Cons j js)
  show ?case using Cons.IH [of "if \<not> km_visy st j \<and> d > km_slack st j then km_slack st j else d"]
    by (auto split: if_splits)
qed simp

lemma lower_lx_spec:
  assumes "distinct is" "\<forall>i \<in> set is. km_visx st i \<longrightarrow> ck_int (km_lx st i - d) = Some (km_lx st i - d)"
  shows "lower_lx d is st = Some (st\<lparr>km_lx := (\<lambda>i. if i \<in> set is \<and> km_visx st i then km_lx st i - d else km_lx st i)\<rparr>)"
  using assms
proof (induction "is" arbitrary: st)
  case (Cons j js)
  show ?case
  proof (cases "km_visx st j")
    case True
    let ?st = "st\<lparr>km_lx := (km_lx st)(j := km_lx st j - d)\<rparr>"
    have "\<forall>i \<in> set js. km_visx ?st i \<longrightarrow> ck_int (km_lx ?st i - d) = Some (km_lx ?st i - d)" using Cons.prems by auto
    from Cons.IH [OF _ this] Cons.prems True show ?thesis by (auto simp: fun_eq_iff intro!: arg_cong [where f = "\<lambda>f. st\<lparr>km_lx := f\<rparr>"])
  next
    case False
    have "\<forall>i \<in> set js. km_visx st i \<longrightarrow> ck_int (km_lx st i - d) = Some (km_lx st i - d)" using Cons.prems by auto
    from Cons.IH [OF _ this] Cons.prems False show ?thesis by (auto simp: fun_eq_iff intro!: arg_cong [where f = "\<lambda>f. st\<lparr>km_lx := f\<rparr>"])
  qed
qed simp

lemma raise_ly_spec:
  assumes "distinct is" "\<forall>i \<in> set is. if km_visy st i then ck_int (km_ly st i + d) = Some (km_ly st i + d)
    else ck_int (km_slack st i - d) = Some (km_slack st i - d)"
  shows "raise_ly d is st = Some (st\<lparr>km_ly := (\<lambda>i. if i \<in> set is \<and> km_visy st i then km_ly st i + d else km_ly st i),
     km_slack := (\<lambda>i. if i \<in> set is \<and> \<not> km_visy st i then km_slack st i - d else km_slack st i)\<rparr>)"
  using assms
proof (induction "is" arbitrary: st)
  case (Cons j js)
  show ?case
  proof (cases "km_visy st j")
    case True
    let ?st = "st\<lparr>km_ly := (km_ly st)(j := km_ly st j + d)\<rparr>"
    have "\<forall>i \<in> set js. if km_visy ?st i then ck_int (km_ly ?st i + d) = Some (km_ly ?st i + d)
      else ck_int (km_slack ?st i - d) = Some (km_slack ?st i - d)" using Cons.prems by auto
    from Cons.IH [OF _ this] Cons.prems True show ?thesis
      by (auto simp: fun_eq_iff intro!: arg_cong2 [where f = "\<lambda>f g. st\<lparr>km_ly := f, km_slack := g\<rparr>"])
  next
    case False
    let ?st = "st\<lparr>km_slack := (km_slack st)(j := km_slack st j - d)\<rparr>"
    have "\<forall>i \<in> set js. if km_visy ?st i then ck_int (km_ly ?st i + d) = Some (km_ly ?st i + d)
      else ck_int (km_slack ?st i - d) = Some (km_slack ?st i - d)" using Cons.prems by auto
    from Cons.IH [OF _ this] Cons.prems False show ?thesis
      by (auto simp: fun_eq_iff intro!: arg_cong2 [where f = "\<lambda>f g. st\<lparr>km_ly := f, km_slack := g\<rparr>"])
  qed
qed simp

text \<open>
  The weights are bounded so that no label, slack or sum of the run leaves the \<open>int\<close> range:
  \<open>309 * KM_BOUND\<close> is below \<open>INT_MAX\<close>.
\<close>

definition KM_BOUND :: int where "KM_BOUND = 6900000"

definition labels_ok :: "km \<Rightarrow> bool" where
  "labels_ok st \<longleftrightarrow> (\<forall>x \<in> rows st. \<forall>y \<in> cols st. \<bar>km_w st x y\<bar> \<le> KM_BOUND \<and> 0 \<le> gp st x y)
     \<and> (\<forall>x \<in> rows st. \<bar>km_lx st x\<bar> \<le> KM_BOUND)
     \<and> (\<forall>y \<in> cols st. 0 \<le> km_ly st y \<and> km_ly st y \<le> 2 * KM_BOUND \<and> (km_link st y = -1 \<longrightarrow> km_ly st y = 0))"

definition km_inv :: "nat \<Rightarrow> km \<Rightarrow> bool" where
  "km_inv n st \<longleftrightarrow> km_nx st = n \<and> km_ny st = n \<and> n < MAXN \<and> labels_ok st \<and> links_ok st \<and> (\<forall>z. cnt st z \<le> 1)"

lemma km_inv_cong:
  assumes "same_graph st st'" "km_link st' = km_link st"
  shows "km_inv n st' = km_inv n st"
proof -
  have "cnt st' = cnt st" by (simp add: cnt_def fun_eq_iff same_graph_simps [OF assms(1)] assms(2))
  then show ?thesis by (simp add: km_inv_def labels_ok_def links_ok_def same_graph_simps [OF assms(1)] assms(2))
qed

lemma ck_int_small: "\<bar>i\<bar> \<le> 8 * KM_BOUND \<Longrightarrow> ck_int i = Some i"
  unfolding ck_int_def INT_MAX_def KM_BOUND_def by (simp add: abs_le_iff)

lemma labels_no_overflow: "labels_ok st \<Longrightarrow> no_overflow st"
  unfolding no_overflow_def
proof (intro ballI)
  fix x y assume l: "labels_ok st" "x \<in> rows st" "y \<in> cols st"
  then have b: "\<bar>km_w st x y\<bar> \<le> KM_BOUND" "\<bar>km_lx st x\<bar> \<le> KM_BOUND" "0 \<le> km_ly st y" "km_ly st y \<le> 2 * KM_BOUND"
    by (auto simp: labels_ok_def)
  then show "km_gap st x y = Some (gp st x y)"
    unfolding km_gap_def gp_def by (subst ck_int_small, arith) (auto intro!: ck_int_small)
qed

lemma labels_gp_less:
  assumes "labels_ok st" "x \<in> rows st" "y \<in> cols st"
  shows "gp st x y < KM_INF"
proof -
  have "\<bar>km_w st x y\<bar> \<le> KM_BOUND" "\<bar>km_lx st x\<bar> \<le> KM_BOUND" "km_ly st y \<le> 2 * KM_BOUND"
    using assms by (simp_all add: labels_ok_def)
  then show ?thesis by (simp add: gp_def KM_INF_def KM_BOUND_def abs_le_iff)
qed

text \<open>The state of the rounds for one row \<open>x\<close>: what the rounds before have visited, and the state after a failed search.\<close>

definition phase :: "km \<Rightarrow> nat \<Rightarrow> nat set \<Rightarrow> nat set \<Rightarrow> bool" where
  "phase st x VX VY \<longleftrightarrow> x \<in> rows st \<and> cnt st x = 0 \<and> VY \<subseteq> cols st
     \<and> (\<forall>y \<in> cols st - VY. km_slack st y = KM_INF \<or> (\<exists>z \<in> VX. km_slack st y = gp st z y))
     \<and> (\<forall>S T. x \<in> S \<longrightarrow> closed_sets st S T \<longrightarrow> VX \<subseteq> S \<and> VY \<subseteq> T)"

definition stuck :: "km \<Rightarrow> nat \<Rightarrow> nat set \<Rightarrow> nat set \<Rightarrow> bool" where
  "stuck st x VX VY \<longleftrightarrow> VX = Collect (km_visx st) \<and> VY = Collect (km_visy st)
     \<and> x \<in> VX \<and> VX \<subseteq> rows st \<and> cnt st x = 0 \<and> VY \<subset> cols st \<and> closed_sets st VX VY
     \<and> (\<forall>y \<in> VY. km_link st y \<noteq> -1)
     \<and> (\<forall>y \<in> cols st - VY. (\<exists>z \<in> VX. km_slack st y = gp st z y) \<and> (\<forall>z \<in> VX. km_slack st y \<le> gp st z y))
     \<and> (\<forall>S T. x \<in> S \<longrightarrow> closed_sets st S T \<longrightarrow> VX \<subseteq> S \<and> VY \<subseteq> T)"

text \<open>A closed set of visited rows has one row more than columns, so some column is not visited.\<close>

lemma visited_fewer:
  assumes "km_inv n st" "x \<in> VX" "VX \<subseteq> rows st" "cnt st x = 0" "VY \<subseteq> cols st"
    and "\<forall>y \<in> VY. km_link st y \<noteq> -1 \<and> nat (km_link st y) \<in> VX"
  shows "VY \<subset> cols st"
proof -
  define f where "f y = nat (km_link st y)" for y
  have lk: "km_link st y = int (f y)" if "y \<in> VY" for y
  proof -
    have "links_ok st" using assms(1) by (simp add: km_inv_def)
    moreover have "y \<in> cols st" "km_link st y \<noteq> -1" using that assms(5,6) by auto
    ultimately have "\<exists>z. km_link st y = int z" unfolding links_ok_def by blast
    then show ?thesis unfolding f_def by fastforce
  qed
  have one: "y = y'" if y: "y \<in> VY" "y' \<in> VY" "f y = f y'" for y y'
  proof (rule ccontr)
    assume "y \<noteq> y'"
    then have "card {y, y'} = 2" by simp
    moreover have "{y, y'} \<subseteq> {u \<in> cols st. km_link st u = int (f y)}" using y lk assms(5) by auto
    then have "card {y, y'} \<le> cnt st (f y)" unfolding cnt_def by (intro card_mono) simp_all
    moreover have "cnt st (f y) \<le> 1" using assms(1) by (simp add: km_inv_def)
    ultimately show False by linarith
  qed
  have nx: "f y \<noteq> x" if "y \<in> VY" for y
  proof
    assume "f y = x"
    then have "y \<in> {u \<in> cols st. km_link st u = int x}" using lk [OF that] that assms(5) by auto
    moreover have "{u \<in> cols st. km_link st u = int x} = {}" using assms(4) unfolding cnt_def by (simp add: card_eq_0_iff)
    ultimately show False by simp
  qed
  have "f y \<in> VX" if "y \<in> VY" for y using assms(6) that unfolding f_def by blast
  then have "f ` VY \<subseteq> VX - {x}" using nx by blast
  moreover have fin: "finite VX" using assms(3) finite_cols(2) by (rule finite_subset)
  ultimately have "card (f ` VY) \<le> card (VX - {x})" by (intro card_mono) simp_all
  moreover have "card (f ` VY) = card VY" using one by (intro card_image inj_onI)
  moreover have "card (VX - {x}) < card VX" using fin assms(2) by (rule card_Diff1_less)
  moreover have "card VX \<le> card (rows st)" using assms(3) by (intro card_mono) simp_all
  moreover have "card (rows st) = card (cols st)" using assms(1) by (simp add: rows_def cols_def km_inv_def)
  ultimately have "card VY < card (cols st)" by simp
  then show ?thesis using assms(5) by auto
qed

text \<open>A failed search from a row without a column leaves a stuck state.\<close>

lemma failed_stuck:
  assumes inv: "km_inv n st" and ph: "phase st x VX VY"
    and st0: "st0 = st\<lparr>km_visx := (\<lambda>_. False)(x := True), km_visy := (\<lambda>_. False)\<rparr>"
    and f: "frame st0 st1" "failed st0 x (cols st) st1" "links_ok st1"
  shows "km_inv n st1 \<and> (\<exists>VX1 VY1. stuck st1 x VX1 VY1 \<and> VY \<subseteq> VY1)"
proof -
  let ?X = "Collect (km_visx st1)" and ?Y = "Collect (km_visy st1)"
  have g0: "same_graph st st0" by (simp add: st0 same_graph_def)
  have g1: "same_graph st st1" using f(1) g0 by (simp add: frame_def same_graph_def)
  note [simp] = same_graph_simps [OF g1] same_graph_simps [OF g0]
  note d = failedD [OF f(2)]
  have lk: "km_link st1 = km_link st" "km_link st0 = km_link st" using d(1) by (simp_all add: st0)
  have cl: "closed_sets st1 S T = closed_sets st S T" "closed_sets st0 S T = closed_sets st S T" for S T
    using closed_sets_cong [OF g1 lk(1)] closed_sets_cong [OF g0 lk(2)] by simp_all
  have cnt: "cnt st1 z = cnt st z" for z by (simp add: cnt_def lk)
  have inv1: "km_inv n st1" using inv f(3) by (simp add: km_inv_def labels_ok_def cnt lk)
  have v0: "km_visx st0 z \<longleftrightarrow> z = x" "\<not> km_visy st0 z" for z by (simp_all add: st0)
  have x: "x \<in> rows st" "cnt st x = 0" "x \<in> ?X" using ph d(2) [of x] v0(1) by (simp_all add: phase_def)
  have rows: "?X \<subseteq> rows st" using d(5) v0(1) x(1) by auto
  have vy: "y \<in> cols st \<and> km_link st y \<noteq> -1 \<and> nat (km_link st y) \<in> ?X" if "y \<in> ?Y" for y
    using d(6) [of y] that v0(2) lk by simp
  have sc: "scanned st1 z (cols st)" if "z \<in> ?X" for z using d(4,5) that v0(1) by (cases "z = x") auto
  have gap: "0 \<le> gp st z y" if "z \<in> rows st" "y \<in> cols st" for z y using inv that by (simp add: km_inv_def labels_ok_def)
  have closed: "closed_sets st ?X ?Y"
    unfolding closed_sets_def using sc vy unfolding scanned_def by fastforce
  have all: "?X \<subseteq> S \<and> ?Y \<subseteq> T" if "x \<in> S" "closed_sets st S T" for S T
  proof -
    have "closed_sets st0 S T" using that(2) cl by simp
    from stays_inD [OF d(8) that(1) this, unfolded v0(1)] v0(2) that(1) show ?thesis by blast
  qed
  have sub: "VX \<subseteq> ?X" "VY \<subseteq> ?Y" using ph closed x(3) unfolding phase_def by blast+
  have le: "km_slack st1 y \<le> gp st z y" if "y \<in> cols st - ?Y" "z \<in> ?X" for y z
    using sc [OF that(2)] that(1) by (auto simp: scanned_def)
  moreover have "\<exists>z \<in> ?X. km_slack st1 y = gp st z y" if y: "y \<in> cols st - ?Y" for y
  proof -
    have "gp st x y < KM_INF" using labels_gp_less [of st x y] inv x(1) y by (simp add: km_inv_def)
    then have "km_slack st1 y \<noteq> KM_INF" using le [OF y x(3)] by simp
    moreover have "km_slack st y = KM_INF \<or> (\<exists>z \<in> VX. km_slack st y = gp st z y)"
      using ph y sub(2) unfolding phase_def by blast
    moreover have "km_slack st0 = km_slack st" by (simp add: st0)
    ultimately show ?thesis using d(7) [of y] sub(1) by auto
  qed
  moreover have "?Y \<subset> cols st" using visited_fewer [OF inv x(3) rows x(2)] vy by blast
  moreover note le
  ultimately have "stuck st1 x ?X ?Y" unfolding stuck_def using x rows closed all vy by (simp add: cl cnt lk) 
  then show ?thesis using inv1 sub by blast
qed

text \<open>The least slack of the columns not visited is attained on an edge from a visited row.\<close>

lemma stuckD:
  assumes "stuck st x VX VY"
  shows "VX = Collect (km_visx st)" "VY = Collect (km_visy st)" "x \<in> VX" "VX \<subseteq> rows st" "cnt st x = 0" "VY \<subset> cols st"
    "closed_sets st VX VY" "y \<in> VY \<Longrightarrow> km_link st y \<noteq> -1"
    "y \<in> cols st \<Longrightarrow> y \<notin> VY \<Longrightarrow> \<exists>z \<in> VX. km_slack st y = gp st z y"
    "y \<in> cols st \<Longrightarrow> y \<notin> VY \<Longrightarrow> z \<in> VX \<Longrightarrow> km_slack st y \<le> gp st z y"
    "x \<in> S \<Longrightarrow> closed_sets st S T \<Longrightarrow> VX \<subseteq> S \<and> VY \<subseteq> T"
  using assms unfolding stuck_def by blast+

lemma stuck_min:
  assumes "km_inv n st" "stuck st x VX VY"
  defines "d \<equiv> slack_min st (one_to (km_ny st)) KM_INF"
  obtains y z where "y \<in> cols st" "y \<notin> VY" "z \<in> VX" "d = km_slack st y" "d = gp st z y" "0 \<le> d"
    "\<And>u. u \<in> cols st \<Longrightarrow> u \<notin> VY \<Longrightarrow> d \<le> km_slack st u"
proof -
  note k = stuckD [OF assms(2)]
  have lab: "labels_ok st" using assms(1) by (simp add: km_inv_def)
  have le: "d \<le> km_slack st u" if "u \<in> cols st" "u \<notin> VY" for u
    unfolding d_def using that k(2) by (intro slack_min_lower) auto
  obtain y0 where y0: "y0 \<in> cols st" "y0 \<notin> VY" using k(6) by blast
  then obtain z0 where "z0 \<in> VX" "km_slack st y0 = gp st z0 y0" using k(9) by blast
  then have "d < KM_INF" using le [OF y0] labels_gp_less [OF lab, of z0 y0] y0(1) k(4) by fastforce
  then have "\<exists>i \<in> set (one_to (km_ny st)). \<not> km_visy st i \<and> d = km_slack st i"
    using slack_min_cases [of st "(one_to (km_ny st))" KM_INF] unfolding d_def by simp
  then obtain y where y: "y \<in> cols st" "y \<notin> VY" "d = km_slack st y" using k(2) by auto
  then obtain z where z: "z \<in> VX" "d = gp st z y" using k(9) by auto
  moreover have "0 \<le> gp st z y" using lab z(1) k(4) y(1) unfolding labels_ok_def by blast
  ultimately show ?thesis using that y le by simp
qed

definition relabelled :: "int \<Rightarrow> km \<Rightarrow> km" where
  "relabelled d st = st\<lparr>km_lx := (\<lambda>i. if i \<in> rows st \<and> km_visx st i then km_lx st i - d else km_lx st i),
     km_ly := (\<lambda>i. if i \<in> cols st \<and> km_visy st i then km_ly st i + d else km_ly st i),
     km_slack := (\<lambda>i. if i \<in> cols st \<and> \<not> km_visy st i then km_slack st i - d else km_slack st i)\<rparr>"

lemma relabelled_simps [simp]:
  "km_nx (relabelled d st) = km_nx st" "km_ny (relabelled d st) = km_ny st" "km_w (relabelled d st) = km_w st"
  "km_link (relabelled d st) = km_link st" "rows (relabelled d st) = rows st" "cols (relabelled d st) = cols st"
  "cnt (relabelled d st) = cnt st"
  by (auto simp: relabelled_def rows_def cols_def cnt_def)

lemma label_relabelled:
  "i \<in> rows st \<Longrightarrow> km_visx st i \<Longrightarrow> km_lx (relabelled d st) i = km_lx st i - d"
  "i \<in> cols st \<Longrightarrow> km_visy st i \<Longrightarrow> km_ly (relabelled d st) i = km_ly st i + d"
  by (simp_all add: relabelled_def)

lemma gp_relabelled:
  "z \<in> rows st \<Longrightarrow> y \<in> cols st \<Longrightarrow>
   gp (relabelled d st) z y = gp st z y - (if km_visx st z then d else 0) + (if km_visy st y then d else 0)"
  by (simp add: relabelled_def gp_def)

lemma relabel_eq:
  assumes "\<And>i. i \<in> rows st \<Longrightarrow> km_visx st i \<Longrightarrow> ck_int (km_lx st i - d) = Some (km_lx st i - d)"
    and "\<And>i. i \<in> cols st \<Longrightarrow> km_visy st i \<Longrightarrow> ck_int (km_ly st i + d) = Some (km_ly st i + d)"
    and "\<And>i. i \<in> cols st \<Longrightarrow> \<not> km_visy st i \<Longrightarrow> ck_int (km_slack st i - d) = Some (km_slack st i - d)"
    and d: "d = slack_min st (one_to (km_ny st)) KM_INF"
  shows "relabel st = Some (relabelled d st)"
proof -
  have "lower_lx d (one_to (km_nx st)) st
    = Some (st\<lparr>km_lx := (\<lambda>i. if i \<in> rows st \<and> km_visx st i then km_lx st i - d else km_lx st i)\<rparr>)"
    using lower_lx_spec [of "(one_to (km_nx st))" st d] assms(1) by simp
  then show ?thesis
    unfolding relabel_def relabelled_def d [symmetric]
    using assms(2,3) raise_ly_spec [of "one_to (km_ny st)"] by (simp cong: if_cong)
qed

text \<open>As long as a row has no column, some column has no row, and its label is still 0.\<close>

lemma free_column:
  assumes "km_inv n st" "x \<in> rows st" "cnt st x = 0"
  obtains y where "y \<in> cols st" "km_link st y = -1"
proof -
  let ?M = "{y \<in> cols st. km_link st y \<noteq> -1}"
  have "nat (km_link st y) \<in> rows st" if "y \<in> ?M" for y
    using assms(1) that unfolding km_inv_def links_ok_def by fastforce
  then have "?M \<subset> cols st" using assms by (intro visited_fewer [of n st x "rows st"]) auto
  then show ?thesis using that by blast
qed

lemma relabelled_labels:
  assumes inv: "km_inv n st" and k: "stuck st x VX VY" and d: "0 \<le> d" "\<And>u. u \<in> cols st \<Longrightarrow> u \<notin> VY \<Longrightarrow> d \<le> km_slack st u"
  shows "labels_ok (relabelled d st)" and "links_ok (relabelled d st)"
proof -
  note k = stuckD [OF k]
  let ?st = "relabelled d st"
  have lab: "labels_ok st" and lk: "links_ok st" using inv by (simp_all add: km_inv_def)
  have vis: "km_visx st z \<longleftrightarrow> z \<in> VX" "km_visy st z \<longleftrightarrow> z \<in> VY" for z using k(1,2) by auto
  have g: "gp ?st z y = gp st z y - (if z \<in> VX then d else 0) + (if y \<in> VY then d else 0)"
    if "z \<in> rows st" "y \<in> cols st" for z y using gp_relabelled [OF that] vis by simp
  have dle: "d \<le> gp st z y" if "y \<in> cols st" "y \<notin> VY" "z \<in> VX" for z y
    using d(2) [OF that(1,2)] k(10) [OF that] by linarith
  have pos: "0 \<le> gp st z y" if "z \<in> rows st" "y \<in> cols st" for z y using lab that by (simp add: labels_ok_def)
  have feas: "0 \<le> gp ?st z y" if "z \<in> rows st" "y \<in> cols st" for z y
    using g [OF that] pos [OF that] dle [OF that(2)] d(1) by auto
  have w: "\<bar>km_w st z y\<bar> \<le> KM_BOUND" if "z \<in> rows st" "y \<in> cols st" for z y using lab that by (simp add: labels_ok_def)
  have "x \<in> rows st" using k(3,4) by blast
  then obtain y0 where y0: "y0 \<in> cols st" "km_link st y0 = -1" by (rule free_column [OF inv _ k(5)])
  then have ly0: "km_ly ?st y0 = 0" using lab k(8) vis by (auto simp: relabelled_def labels_ok_def)
  have lx: "\<bar>km_lx ?st z\<bar> \<le> KM_BOUND" if z: "z \<in> rows st" for z
  proof -
    have "km_lx ?st z \<le> km_lx st z" using d(1) by (simp add: relabelled_def)
    moreover have "km_lx st z \<le> KM_BOUND" using lab z by (simp add: labels_ok_def abs_le_iff)
    moreover have "km_w st z y0 \<le> km_lx ?st z" using feas [OF z y0(1)] ly0 by (simp add: gp_def)
    ultimately show ?thesis using w [OF z y0(1)] by linarith
  qed
  have tight: "\<exists>z \<in> rows st. km_link st y = int z \<and> gp ?st z y = 0" if y: "y \<in> cols st" "km_link st y \<noteq> -1" for y
  proof -
    obtain z where z: "z \<in> rows st" "km_link st y = int z" "gp st z y = 0" using lk y unfolding links_ok_def by blast
    have "z \<in> VX" if "y \<in> VY" using k(7) that y(2) z(2) unfolding closed_sets_def by force
    moreover have "y \<in> VY" if "z \<in> VX" using k(7) that y(1) z(3) unfolding closed_sets_def by blast
    ultimately show ?thesis using g [OF z(1) y(1)] z by auto
  qed
  then show "links_ok ?st" by (auto simp: links_ok_def)
  have ly: "0 \<le> km_ly ?st y \<and> km_ly ?st y \<le> 2 * KM_BOUND \<and> (km_link st y = -1 \<longrightarrow> km_ly ?st y = 0)" if y: "y \<in> cols st" for y
  proof (cases "km_link st y = -1")
    case True
    then have "km_ly ?st y = 0" using lab k(8) vis y by (auto simp: relabelled_def labels_ok_def)
    then show ?thesis by (simp add: KM_BOUND_def)
  next
    case False
    then obtain z where z: "z \<in> rows st" "gp ?st z y = 0" using tight y by blast
    have "km_ly ?st y = km_w st z y - km_lx ?st z" using z(2) by (simp add: gp_def)
    moreover have "0 \<le> km_ly ?st y" using lab y d(1) by (simp add: relabelled_def labels_ok_def)
    ultimately show ?thesis using lx [OF z(1)] w [OF z(1) y] False by (simp add: abs_le_iff)
  qed
  show "labels_ok ?st" unfolding labels_ok_def using feas w lx ly by simp
qed

lemma relabelled_phase:
  assumes k: "stuck st x VX VY" and y: "y \<in> cols st" "y \<notin> VY" "z \<in> VX" "d = gp st z y"
  shows "phase (relabelled d st) x VX (insert y VY)"
proof -
  note k = stuckD [OF k]
  let ?st = "relabelled d st"
  have vis: "km_visx st u \<longleftrightarrow> u \<in> VX" "km_visy st u \<longleftrightarrow> u \<in> VY" for u using k(1,2) by auto
  have g: "gp ?st u v = gp st u v - (if u \<in> VX then d else 0) + (if v \<in> VY then d else 0)"
    if "u \<in> rows st" "v \<in> cols st" for u v using gp_relabelled [OF that] vis by simp
  have sl: "\<exists>u \<in> VX. km_slack ?st v = gp ?st u v" if v: "v \<in> cols st - insert y VY" for v
  proof -
    have "v \<in> cols st" "v \<notin> VY" using v by auto
    from k(9) [OF this] obtain u where u: "u \<in> VX" "km_slack st v = gp st u v" by blast
    have "u \<in> rows st" using u(1) k(4) by blast
    then have "km_slack ?st v = gp ?st u v" using g [of u v] u v vis by (simp add: relabelled_def)
    then show ?thesis using u(1) by blast
  qed
  have reach: "VX \<subseteq> S \<and> insert y VY \<subseteq> T" if S: "x \<in> S" "closed_sets ?st S T" for S T
  proof -
    have "v \<in> T \<inter> VY" if u: "u \<in> S \<inter> VX" "v \<in> cols st" "gp st u v = 0" for u v
    proof -
      have v: "v \<in> VY" using k(7) u unfolding closed_sets_def by blast
      moreover have "u \<in> rows st" using u(1) k(4) by blast
      ultimately have "gp ?st u v = 0" using g [of u v] u by simp
      then have "v \<in> T" using S(2) u unfolding closed_sets_def relabelled_simps by blast
      then show ?thesis using v by blast
    qed
    moreover have "nat (km_link st v) \<in> S \<inter> VX" if "v \<in> T \<inter> VY" "km_link st v \<noteq> -1" for v
      using k(7) S(2) that unfolding closed_sets_def by simp
    ultimately have "closed_sets st (S \<inter> VX) (T \<inter> VY)" unfolding closed_sets_def by blast
    then have sub: "VX \<subseteq> S" "VY \<subseteq> T" using k(11) [of "S \<inter> VX" "T \<inter> VY"] k(3) S(1) by auto
    have "z \<in> rows st" using y(3) k(4) by blast
    then have "gp ?st z y = 0" using g [of z y] y by simp
    then have "y \<in> T" using S(2) sub(1) y(1,3) unfolding closed_sets_def by auto
    then show ?thesis using sub by simp
  qed
  show ?thesis unfolding phase_def using sl reach k(3,4,5,6) y(1) by auto
qed

lemma relabel_spec:
  assumes "km_inv n st" "stuck st x VX VY"
  shows "\<exists>st' y. relabel st = Some st' \<and> km_inv n st' \<and> km_w st' = km_w st \<and> cnt st' = cnt st \<and> y \<notin> VY \<and> phase st' x VX (insert y VY)"
proof -
  define d where "d = slack_min st (one_to (km_ny st)) KM_INF"
  obtain y z where y: "y \<in> cols st" "y \<notin> VY" "z \<in> VX" "d = km_slack st y" "d = gp st z y" "0 \<le> d"
    and le: "\<And>u. u \<in> cols st \<Longrightarrow> u \<notin> VY \<Longrightarrow> d \<le> km_slack st u"
    using stuck_min [OF assms, folded d_def] by metis
  note k = stuckD [OF assms(2)] and l = relabelled_labels [OF assms y(6) le]
  let ?st = "relabelled d st"
  have "relabel st = Some ?st"
  proof (rule relabel_eq [OF _ _ _ d_def])
    fix i
    show "ck_int (km_lx st i - d) = Some (km_lx st i - d)" if "i \<in> rows st" "km_visx st i"
    proof -
      have "\<bar>km_lx ?st i\<bar> \<le> KM_BOUND" using l(1) that(1) by (simp add: labels_ok_def)
      then show ?thesis unfolding label_relabelled(1) [OF that] by (intro ck_int_small) (simp add: KM_BOUND_def)
    qed
    show "ck_int (km_ly st i + d) = Some (km_ly st i + d)" if "i \<in> cols st" "km_visy st i"
    proof -
      have "\<bar>km_ly ?st i\<bar> \<le> 2 * KM_BOUND" using l(1) that(1) by (simp add: labels_ok_def)
      then show ?thesis unfolding label_relabelled(2) [OF that] by (intro ck_int_small) (simp add: KM_BOUND_def)
    qed
    show "ck_int (km_slack st i - d) = Some (km_slack st i - d)" if i: "i \<in> cols st" "\<not> km_visy st i"
    proof -
      have iv: "i \<notin> VY" using i(2) k(2) by simp
      have "x \<in> rows st" using k(3,4) by blast
      then have "km_slack st i < KM_INF"
        using k(10) [OF i(1) iv k(3)] labels_gp_less [of st x i] assms(1) i(1) by (simp add: km_inv_def)
      then show ?thesis using le [OF i(1) iv] y(6) by (intro ck_int_ok) (simp_all add: KM_INF_def INT_MAX_def)
    qed
  qed
  moreover have "km_inv n ?st" using assms(1) l by (simp add: km_inv_def)
  ultimately show ?thesis
    using relabelled_phase [OF assms(2) y(1,2,3,5)] y(2) by (intro exI [of _ ?st] exI [of _ y]) simp
qed

section \<open>The run\<close>

lemma augment_spec:
  assumes "km_inv n st" "phase st x VX VY" "n < fuel + card VY"
  shows "\<exists>st'. augment fuel x st = Some st' \<and> km_inv n st' \<and> km_w st' = km_w st
    \<and> (\<forall>z. cnt st' z = cnt st z + (if z = x then 1 else 0))"
  using assms
proof (induction fuel arbitrary: st VX VY)
  case 0
  then have "card VY \<le> card (cols st)" by (intro card_mono) (auto simp: phase_def)
  then show ?case using 0 by (simp add: cols_def km_inv_def)
next
  case (Suc fuel)
  define st0 where "st0 = st\<lparr>km_visx := (\<lambda>_. False)(x := True), km_visy := (\<lambda>_. False)\<rparr>"
  have g: "same_graph st st0" by (simp add: st0_def same_graph_def)
  note [simp] = same_graph_simps [OF g]
  have lk: "km_link st0 = km_link st" by (simp add: st0_def)
  have "links_ok st" "labels_ok st" using Suc.prems(1) by (simp_all add: km_inv_def)
  then have "links_ok st0" "no_overflow st0" using labels_no_overflow [of st] by (simp_all add: links_ok_def lk)
  moreover have "x \<in> rows st0" using Suc.prems(2) by (simp add: phase_def)
  moreover have "km_visx st0 x" by (simp add: st0_def)
  moreover have "card {y \<in> cols st0. \<not> km_visy st0 y} \<le> card (cols st)" by (intro card_mono) auto
  moreover have "card (cols st) = km_ny st" by (simp add: cols_def)
  moreover have "set (one_to (km_ny st)) \<subseteq> cols st0" by simp
  ultimately have "searched st0 x (cols st) (search_ys (km_ny st) x (one_to (km_ny st)) st0)"
    using search_ys_spec [of st0 x "one_to (km_ny st)" "km_ny st", unfolded set_one_to] by simp
  then obtain ok st1 where st1: "search_ys (km_ny st) x (one_to (km_ny st)) st0 = Some (ok, st1)" "frame st0 st1"
    "links_ok st1" "ok \<longrightarrow> found st0 x st1" "\<not> ok \<longrightarrow> failed st0 x (cols st) st1" by (rule searchedE)
  have step: "augment (Suc fuel) x st = (if ok then Some st1 else do { st2 \<leftarrow> relabel st1; augment fuel x st2 })"
  proof -
    have "st\<lparr>km_visy := \<lambda>_. False, km_visx := (\<lambda>_. False)(x := True)\<rparr> = st0" unfolding st0_def by (cases st) simp
    then show ?thesis using st1(1) by (simp add: search_def)
  qed
  have g1: "same_graph st st1" using st1(2) by (simp add: frame_def same_graph_def st0_def)
  show ?case
  proof (cases ok)
    case True
    then have f: "found st0 x st1" using st1(4) by simp
    have c: "cnt st1 z = cnt st z + (if z = x then 1 else 0)" for z using f by (simp add: found_def cnt_def lk)
    have "labels_ok st1"
      using \<open>labels_ok st\<close> f by (auto simp: labels_ok_def same_graph_simps [OF g1] found_def lk)
    moreover have "cnt st1 z \<le> 1" for z using c Suc.prems(1,2) by (simp add: km_inv_def phase_def)
    ultimately have "km_inv n st1" using Suc.prems(1) st1(3) by (simp add: km_inv_def same_graph_simps [OF g1])
    then show ?thesis using step True c same_graph_simps(6) [OF g1] by auto
  next
    case False
    then have f: "failed st0 x (cols st) st1" using st1(5) by simp
    obtain VX1 VY1 where k: "km_inv n st1" "stuck st1 x VX1 VY1" "VY \<subseteq> VY1"
      using failed_stuck [OF Suc.prems(1,2) st0_def st1(2) f st1(3)] by blast
    from relabel_spec [OF k(1,2)] obtain st2 y where st2: "relabel st1 = Some st2" "km_inv n st2" "km_w st2 = km_w st1"
      "cnt st2 = cnt st1" "y \<notin> VY1" "phase st2 x VX1 (insert y VY1)" by blast
    have "finite VY1" using st2(6) finite_cols(1) finite_subset unfolding phase_def by (metis finite_insert)
    then have "n < fuel + card (insert y VY1)" using Suc.prems(3) card_mono [OF _ k(3)] st2(5) by simp
    from Suc.IH [OF st2(2,6) this] obtain st' where "augment fuel x st2 = Some st'" "km_inv n st'" "km_w st' = km_w st2"
      "\<forall>z. cnt st' z = cnt st2 z + (if z = x then 1 else 0)" by blast
    moreover have "cnt st1 = cnt st" using failedD(1) [OF f] by (simp add: cnt_def fun_eq_iff lk same_graph_simps [OF g1])
    ultimately show ?thesis using step False st2 same_graph_simps(6) [OF g1] by simp
  qed
qed

lemma reset_slack_eq:
  "reset_slack is st = st\<lparr>km_slack := (\<lambda>i. if i \<in> set is then KM_INF else km_slack st i)\<rparr>"
  by (induction "is" arbitrary: st) (auto simp: fun_eq_iff intro!: arg_cong [where f = "\<lambda>f. st\<lparr>km_slack := f\<rparr>" for st])

lemma run_xs_spec:
  assumes "km_inv n st" "distinct xs" "set xs \<subseteq> rows st" "\<forall>x \<in> set xs. cnt st x = 0"
  shows "\<exists>st'. run_xs xs st = Some st' \<and> km_inv n st' \<and> km_w st' = km_w st
    \<and> (\<forall>z. cnt st' z = cnt st z + (if z \<in> set xs then 1 else 0))"
  using assms
proof (induction xs arbitrary: st)
  case (Cons x xs)
  let ?st = "reset_slack (one_to (km_ny st)) st"
  have g: "same_graph st ?st" and lk: "km_link ?st = km_link st" and sl: "y \<in> cols st \<Longrightarrow> km_slack ?st y = KM_INF" for y
    by (simp_all add: reset_slack_eq same_graph_def)
  have c: "cnt ?st = cnt st" by (simp add: cnt_def fun_eq_iff same_graph_simps [OF g] lk)
  have inv: "km_inv n ?st" using km_inv_cong [OF g lk] Cons.prems(1) by simp
  have "phase ?st x {} {}"
    using Cons.prems sl by (simp add: phase_def same_graph_simps [OF g] c)
  then obtain st1 where st1: "augment (Suc (km_ny st)) x ?st = Some st1" "km_inv n st1" "km_w st1 = km_w st"
    "\<forall>z. cnt st1 z = cnt st z + (if z = x then 1 else 0)"
    using augment_spec [OF inv, of x "{}" "{}" "Suc (km_ny st)"] Cons.prems(1) c same_graph_simps(6) [OF g]
    by (auto simp: km_inv_def)
  have zero: "\<forall>u \<in> set xs. cnt st1 u = 0" using st1(4) Cons.prems(2,4) by auto
  have "rows st1 = rows st" using st1(2) Cons.prems(1) by (simp add: rows_def km_inv_def)
  then obtain st' where "run_xs xs st1 = Some st'" "km_inv n st'" "km_w st' = km_w st1"
    "\<forall>z. cnt st' z = cnt st1 z + (if z \<in> set xs then 1 else 0)"
    using Cons.IH [OF st1(2)] Cons.prems zero by auto
  then show ?case using st1 Cons.prems(2) by auto
qed simp

lemma row_max_ge: "m \<le> row_max r js m"
proof (induction js arbitrary: m)
  case (Cons k ks)
  show ?case using Cons.IH [of "if r k > m then r k else m"] by (auto split: if_splits)
qed simp

lemma row_max_upper: "j \<in> set js \<Longrightarrow> r j \<le> row_max r js m"
proof (induction js arbitrary: m)
  case (Cons k ks)
  then show ?case using row_max_ge [of "if r k > m then r k else m" r ks] by (auto split: if_splits)
qed simp

lemma row_max_cases: "row_max r js m = m \<or> (\<exists>j \<in> set js. row_max r js m = r j)"
proof (induction js arbitrary: m)
  case (Cons k ks)
  show ?case using Cons.IH [of "if r k > m then r k else m"] by (auto split: if_splits)
qed simp

lemma init_lx_eq:
  "init_lx is st = st\<lparr>km_lx := (\<lambda>i. if i \<in> set is then row_max (km_w st i) (one_to (km_ny st)) (- KM_INF) else km_lx st i)\<rparr>"
  by (induction "is" arbitrary: st) (auto simp: fun_eq_iff intro!: arg_cong [where f = "\<lambda>f. st\<lparr>km_lx := f\<rparr>" for st])

lemma init_inv:
  assumes "km_nx st = n" "km_ny st = n" "n < MAXN" and w: "\<forall>x \<in> {1..n}. \<forall>y \<in> {1..n}. \<bar>km_w st x y\<bar> \<le> KM_BOUND"
    and st1: "st1 = init_lx (one_to (km_nx st)) (st\<lparr>km_link := (\<lambda>_. -1), km_ly := (\<lambda>_. 0)\<rparr>)"
  shows "km_inv n st1" "cnt st1 z = 0"
proof -
  have eq: "rows st1 = {1..n}" "cols st1 = {1..n}" "km_w st1 = km_w st" "km_ly st1 y = 0" "km_link st1 y = -1" for y
    using assms(1,2) by (simp_all add: st1 init_lx_eq rows_def cols_def)
  have lx: "km_lx st1 x = row_max (km_w st x) (one_to n) (- KM_INF)" if "x \<in> {1..n}" for x
    using that set_one_to(2) [of st] assms(1,2) by (simp add: st1 init_lx_eq rows_def)
  have js: "set (one_to n) = {1..n}" by (auto simp: one_to_def)
  show c: "cnt st1 z = 0" for z by (simp add: cnt_def eq)
  have lo: "km_w st x y \<le> km_lx st1 x" if "x \<in> {1..n}" "y \<in> {1..n}" for x y
    using row_max_upper [of y "one_to n" "km_w st x"] js that lx by simp
  have b: "\<bar>km_lx st1 x\<bar> \<le> KM_BOUND" if x: "x \<in> {1..n}" for x
  proof -
    have "\<bar>km_w st x x\<bar> \<le> KM_BOUND" using w x by blast
    then have "- KM_INF < km_lx st1 x" using lo [OF x x] by (simp add: KM_INF_def KM_BOUND_def abs_le_iff)
    then obtain j where "j \<in> {1..n}" "km_lx st1 x = km_w st x j"
      using row_max_cases [of "km_w st x" "one_to n" "- KM_INF"] lx [OF x] js by auto
    then show ?thesis using w x by simp
  qed
  have "labels_ok st1" unfolding labels_ok_def using w lo b by (simp add: eq gp_def KM_BOUND_def)
  then show "km_inv n st1" using assms(1-3) by (simp add: km_inv_def links_ok_def eq c) (simp add: st1 init_lx_eq)
qed

lemma result_loop_spec:
  assumes "\<forall>i \<in> set is. km_link st i = int (f i) \<and> \<bar>km_w st (f i) i\<bar> \<le> KM_BOUND"
    and "\<bar>res\<bar> + int (length is) * KM_BOUND \<le> INT_MAX"
  shows "\<exists>t. result_loop is st res s = Some (res + (\<Sum>i\<leftarrow>is. km_w st (f i) i), t)"
  using assms
proof (induction "is" arbitrary: res s)
  case (Cons i "is")
  let ?r = "res + km_w st (f i) i"
  have w: "km_link st i = int (f i)" "\<bar>km_w st (f i) i\<bar> \<le> KM_BOUND" using Cons.prems(1) by auto
  have b: "\<bar>?r\<bar> + int (length is) * KM_BOUND \<le> INT_MAX"
    using Cons.prems(2) w(2) by (simp add: algebra_simps)
  moreover have "0 \<le> int (length is) * KM_BOUND" by (simp add: KM_BOUND_def)
  ultimately have "\<bar>?r\<bar> \<le> INT_MAX" by linarith
  then have "ck_int ?r = Some ?r" by (intro ck_int_ok) (simp_all add: abs_le_iff)
  then show ?case using Cons.IH [of ?r] Cons.prems(1) b w by (simp add: algebra_simps)
qed simp

lemma perfect_matching:
  assumes "km_inv n st" "\<forall>z \<in> rows st. cnt st z = 1"
  shows "bij_betw (\<lambda>y. nat (km_link st y)) {1..n} {1..n}" "y \<in> {1..n} \<Longrightarrow> km_link st y \<noteq> -1"
proof -
  have eq: "rows st = {1..n}" "cols st = {1..n}" using assms(1) by (simp_all add: km_inv_def rows_def cols_def)
  have "\<exists>y. y \<in> {1..n} \<and> km_link st y = int z" if "z \<in> {1..n}" for z
    using assms(2) that eq card_eq_SucD [of "{y \<in> cols st. km_link st y = int z}" 0] unfolding cnt_def by auto
  then obtain g where g: "\<And>z. z \<in> {1..n} \<Longrightarrow> g z \<in> {1..n} \<and> km_link st (g z) = int z" by metis
  have "inj_on g {1..n}" by (rule inj_onI) (metis g of_nat_eq_iff)
  moreover have "g ` {1..n} \<subseteq> {1..n}" using g by blast
  ultimately have im: "g ` {1..n} = {1..n}" by (simp add: endo_inj_surj)
  have z: "\<exists>z \<in> {1..n}. y = g z \<and> km_link st y = int z" if "y \<in> {1..n}" for y
  proof -
    from that im obtain z where "z \<in> {1..n}" "y = g z" by blast
    then show ?thesis using g by blast
  qed
  show "km_link st y \<noteq> -1" if "y \<in> {1..n}" using z [OF that] by auto
  have "nat (km_link st (g z)) = z" if "z \<in> {1..n}" for z using g [OF that] by simp
  moreover have "g (nat (km_link st y)) = y \<and> nat (km_link st y) \<in> {1..n}" if "y \<in> {1..n}" for y
    using z [OF that] by auto
  ultimately show "bij_betw (\<lambda>y. nat (km_link st y)) {1..n} {1..n}"
    using im by (intro bij_betw_byWitness [where f' = g]) blast+
qed

lemma matched_tight:
  assumes "km_inv n st" "\<forall>z \<in> rows st. cnt st z = 1" "y \<in> {1..n}"
  shows "km_link st y = int (nat (km_link st y))" "nat (km_link st y) \<in> {1..n}" "gp st (nat (km_link st y)) y = 0"
proof -
  have "y \<in> cols st" "rows st = {1..n}" using assms(1,3) by (simp_all add: km_inv_def cols_def rows_def)
  moreover have "links_ok st" using assms(1) by (simp add: km_inv_def)
  ultimately obtain x where "x \<in> {1..n}" "km_link st y = int x" "gp st x y = 0"
    using perfect_matching(2) [OF assms] unfolding links_ok_def by blast
  then show "km_link st y = int (nat (km_link st y))" "nat (km_link st y) \<in> {1..n}" "gp st (nat (km_link st y)) y = 0"
    by simp_all
qed

text \<open>The labels bound every assignment, and the assignment of tight edges attains the bound.\<close>

lemma matching_optimal:
  assumes inv: "km_inv n st" and c: "\<forall>z \<in> rows st. cnt st z = 1" and p: "bij_betw p {1..n} {1..n}"
  shows "(\<Sum>y \<in> {1..n}. km_w st (p y) y) \<le> (\<Sum>y \<in> {1..n}. km_w st (nat (km_link st y)) y)"
proof -
  let ?f = "\<lambda>y. nat (km_link st y)" and ?X = "{1..n}"
  let ?lab = "(\<Sum>x \<in> ?X. km_lx st x) + (\<Sum>y \<in> ?X. km_ly st y)"
  have sum: "(\<Sum>y \<in> ?X. km_lx st (q y) + km_ly st y) = ?lab" if "bij_betw q ?X ?X" for q
    by (simp only: sum.distrib sum.reindex_bij_betw [OF that])
  have "rows st = ?X" "cols st = ?X" using inv by (simp_all add: km_inv_def cols_def rows_def)
  then have "km_w st x y \<le> km_lx st x + km_ly st y" if "x \<in> ?X" "y \<in> ?X" for x y
    using inv that by (auto simp: km_inv_def labels_ok_def gp_def)
  then have "(\<Sum>y \<in> ?X. km_w st (p y) y) \<le> (\<Sum>y \<in> ?X. km_lx st (p y) + km_ly st y)"
    using p by (intro sum_mono) (blast dest: bij_betw_apply)
  also have "\<dots> = (\<Sum>y \<in> ?X. km_lx st (?f y) + km_ly st y)"
    using sum [OF p] sum [OF perfect_matching(1) [OF inv c]] by simp
  also have "\<dots> = (\<Sum>y \<in> ?X. km_w st (?f y) y)"
    using matched_tight(3) [OF inv c] by (intro sum.cong) (simp_all add: gp_def)
  finally show ?thesis .
qed

lemma KM_run_result:
  assumes "km_nx st = n" "km_ny st = n" "n < MAXN" "\<forall>x \<in> {1..n}. \<forall>y \<in> {1..n}. \<bar>km_w st x y\<bar> \<le> KM_BOUND"
  shows "\<exists>out st'. KM_run st = Some ((\<Sum>y \<in> {1..n}. km_w st (nat (km_link st' y)) y, out), st')
    \<and> km_inv n st' \<and> km_w st' = km_w st \<and> (\<forall>z \<in> rows st'. cnt st' z = 1)"
proof -
  define st1 where "st1 = init_lx (one_to (km_nx st)) (st\<lparr>km_link := (\<lambda>_. -1), km_ly := (\<lambda>_. 0)\<rparr>)"
  note i = init_inv [OF assms st1_def]
  have w1: "km_w st1 = km_w st" by (simp add: st1_def init_lx_eq)
  have "\<exists>st2. run_xs (one_to (km_nx st1)) st1 = Some st2 \<and> km_inv n st2 \<and> km_w st2 = km_w st1
    \<and> (\<forall>z. cnt st2 z = cnt st1 z + (if z \<in> set (one_to (km_nx st1)) then 1 else 0))"
    using i by (intro run_xs_spec) simp_all
  then obtain st2 where st2: "run_xs (one_to (km_nx st1)) st1 = Some st2" "km_inv n st2" "km_w st2 = km_w st"
    "\<forall>z \<in> rows st1. cnt st2 z = 1" using i(2) w1 by auto
  have rows: "rows st1 = rows st2" "km_ny st2 = n" using i(1) st2(2) by (simp_all add: rows_def km_inv_def)
  note c = st2(4) [unfolded rows(1)]
  let ?f = "\<lambda>y. nat (km_link st2 y)"
  have js: "set (one_to n) = {1..n}" "length (one_to n) = n" by (auto simp: one_to_def)
  have "int n * KM_BOUND \<le> INT_MAX" using assms(3) by (simp add: MAXN_def KM_BOUND_def INT_MAX_def)
  then have "\<exists>t. result_loop (one_to n) st2 0 [] = Some (0 + (\<Sum>i\<leftarrow>one_to n. km_w st2 (?f i) i), t)"
    using matched_tight(1,2) [OF st2(2) c] assms(4) st2(3) js by (intro result_loop_spec) auto
  moreover have "(\<Sum>i\<leftarrow>one_to n. km_w st2 (?f i) i) = (\<Sum>y \<in> {1..n}. km_w st (?f y) y)"
    using sum_list_distinct_conv_sum_set [of "one_to n"] st2(3) js by simp
  ultimately obtain t where "result_loop (one_to n) st2 0 [] = Some (\<Sum>y \<in> {1..n}. km_w st (?f y) y, t)" by auto
  then have "KM_run st = Some ((\<Sum>y \<in> {1..n}. km_w st (?f y) y, t), st2)"
    unfolding KM_run_def Let_def st1_def [symmetric] using assms(1-3) st2(1) rows(2) by simp
  then show ?thesis using st2 c by blast
qed

text \<open>
  C8. \<open>KM::run\<close> solves the assignment problem: for up to 309 rows and columns and weights within
  \<open>KM_BOUND\<close> it returns, without \<open>int\<close> overflow, the weight of the assignment left in \<open>link\<close>, which
  gives every row one column, and no assignment weighs more.
\<close>

theorem km_run_optimal:
  assumes "km_nx st = n" "km_ny st = n" "n < MAXN" "\<forall>x \<in> {1..n}. \<forall>y \<in> {1..n}. \<bar>km_w st x y\<bar> \<le> KM_BOUND"
  shows "\<exists>res out st'. KM_run st = Some ((res, out), st')
    \<and> bij_betw (\<lambda>y. nat (km_link st' y)) {1..n} {1..n}
    \<and> res = (\<Sum>y \<in> {1..n}. km_w st (nat (km_link st' y)) y)
    \<and> (\<forall>p. bij_betw p {1..n} {1..n} \<longrightarrow> (\<Sum>y \<in> {1..n}. km_w st (p y) y) \<le> res)"
proof -
  from KM_run_result [OF assms] obtain out st' where r:
    "KM_run st = Some ((\<Sum>y \<in> {1..n}. km_w st (nat (km_link st' y)) y, out), st')"
    "km_inv n st'" "km_w st' = km_w st" "\<forall>z \<in> rows st'. cnt st' z = 1" by blast
  from matching_optimal [OF r(2,4)] perfect_matching(1) [OF r(2,4)] r(1,3) show ?thesis by auto
qed

text \<open>Two rows and two columns, where the greedy choice of the heaviest edge is not optimal.\<close>

definition two_by_two :: km where
  "two_by_two = \<lparr>km_nx = 2, km_ny = 2, km_w = (\<lambda>x y. if x = 1 then (if y = 1 then 5 else 4) else (if y = 1 then 4 else 0)),
     km_lx = (\<lambda>_. 0), km_ly = (\<lambda>_. 0), km_link = (\<lambda>_. 0), km_visx = (\<lambda>_. False), km_visy = (\<lambda>_. False),
     km_slack = (\<lambda>_. 0)\<rparr>"

theorem km_run_optimal_witness:
  "\<exists>res out st'. KM_run two_by_two = Some ((res, out), st') \<and> 8 \<le> res"
proof -
  have b: "bij_betw (\<lambda>y. 3 - y) {1..2::nat} {1..2}"
    by (rule bij_betw_byWitness [where f' = "\<lambda>y. 3 - y"]) auto
  have s: "(\<Sum>y \<in> {1..2::nat}. km_w two_by_two (3 - y) y) = 8"
    by (simp add: numeral_2_eq_2 two_by_two_def)
  have "\<forall>x \<in> {1..2::nat}. \<forall>y \<in> {1..2::nat}. \<bar>km_w two_by_two x y\<bar> \<le> KM_BOUND"
    by (simp add: two_by_two_def KM_BOUND_def)
  moreover have "km_nx two_by_two = 2" "km_ny two_by_two = 2" "(2::nat) < MAXN"
    by (simp_all add: two_by_two_def MAXN_def)
  ultimately obtain res out st' where "KM_run two_by_two = Some ((res, out), st')"
    "\<forall>p. bij_betw p {1..2} {1..2} \<longrightarrow> (\<Sum>y \<in> {1..2}. km_w two_by_two (p y) y) \<le> res"
    using km_run_optimal [of two_by_two 2] by blast
  then show ?thesis using b s by fastforce
qed

end
