(* ===== verification/Mosito_Analysis.thy ===== *)
theory Mosito_Analysis
  imports Mosito_Buffer Mosito_Schema
begin

text \<open>
  The rest of \<^verbatim>\<open>analysis/\<close>: the partition strategy of \<^verbatim>\<open>m_par_strategy.cpp\<close>, a dynamic program
  that cuts a sequence of loads into consecutive parts, and the histograms of \<^verbatim>\<open>m_histogram.cpp\<close>.
\<close>

section \<open>The partition strategy\<close>

definition PS_N :: nat where "PS_N = 10"

definition PS_P :: nat where "PS_P = 3"

text \<open>
  The two-dimensional arrays: an index outside the declared rows and columns is undefined. The declared
  size of \<open>state\<close> and \<open>new_state\<close> is a part of the object, so that the theorems can speak about the
  declared arrays, \<open>[N][P]\<close>, and about arrays with one more row and column.
\<close>

type_synonym ps_table = "nat \<Rightarrow> nat \<Rightarrow> int"

definition tbl_set :: "nat \<Rightarrow> nat \<Rightarrow> ps_table \<Rightarrow> nat \<Rightarrow> nat \<Rightarrow> int \<Rightarrow> ps_table option" where
  "tbl_set rows cols t i j v = (if i < rows \<and> j < cols then Some (t(i := (t i)(j := v))) else None)"

definition tbl_get :: "nat \<Rightarrow> nat \<Rightarrow> ps_table \<Rightarrow> nat \<Rightarrow> nat \<Rightarrow> int option" where
  "tbl_get rows cols t i j = (if i < rows \<and> j < cols then Some (t i j) else None)"

record par_strategy =
  ps_a :: "int list"
  ps_b :: "int list"
  ps_a_expect :: int
  ps_b_expect :: int
  ps_nrows :: nat
  ps_ncols :: nat
  ps_state :: ps_table
  ps_new_state :: ps_table

fun range_sum :: "int list \<Rightarrow> nat list \<Rightarrow> int \<Rightarrow> int option" where
  "range_sum xs [] s = Some s"
| "range_sum xs (i # is) s =
     (if i < length xs then do { s' \<leftarrow> ck_int (s + xs ! i); range_sum xs is s' } else None)"

text \<open>The constructor: the loads, the expected loads, and the loops \<open>i<=N\<close>, \<open>j<=P\<close> that clear the tables.\<close>

fun ps_clear :: "(nat \<times> nat) list \<Rightarrow> par_strategy \<Rightarrow> par_strategy option" where
  "ps_clear [] ps = Some ps"
| "ps_clear ((i, j) # ijs) ps = do {
     s \<leftarrow> tbl_set (ps_nrows ps) (ps_ncols ps) (ps_state ps) i j INT_MAX;
     t \<leftarrow> tbl_set (ps_nrows ps) (ps_ncols ps) (ps_new_state ps) i j 0;
     ps_clear ijs (ps\<lparr>ps_state := s, ps_new_state := t\<rparr>)
   }"

definition ps_loads :: "(int list \<times> int list)" where
  "ps_loads = ([42, 42, 34, 28, 16, 8, 16, 10, 8, 12], [6, 12, 8, 6, 12, 6, 22, 16, 20, 24])"

definition mk_ParStrategy :: "nat \<Rightarrow> nat \<Rightarrow> ps_table \<Rightarrow> ps_table \<Rightarrow> par_strategy option" where
  "mk_ParStrategy rows cols junk1 junk2 = do {
     let (a, b) = ps_loads;
     a_sum \<leftarrow> range_sum a [0..<PS_N] 0;
     b_sum \<leftarrow> range_sum b [0..<PS_N] 0;
     ps_clear (List.product [0..<Suc PS_N] [0..<Suc PS_P])
       \<lparr>ps_a = a, ps_b = b, ps_a_expect = a_sum div int PS_P, ps_b_expect = b_sum div int PS_P,
        ps_nrows = rows, ps_ncols = cols, ps_state = junk1, ps_new_state = junk2\<rparr>
   }"

definition variance :: "par_strategy \<Rightarrow> nat \<Rightarrow> nat \<Rightarrow> int option" where
  "variance ps m n = do {
     a_i \<leftarrow> range_sum (ps_a ps) [m..<n] 0;
     b_i \<leftarrow> range_sum (ps_b ps) [m..<n] 0;
     da \<leftarrow> ck_int (a_i - ps_a_expect ps);
     db \<leftarrow> ck_int (b_i - ps_b_expect ps);
     a2 \<leftarrow> ck_int (da * da);
     b2 \<leftarrow> ck_int (db * db);
     ck_int (a2 + b2)
   }"

text \<open>
  \<open>eval\<close>, for \<open>n\<close> loads and \<open>p\<close> parts: the local table \<open>int matrix[N+1][P+1]\<close> with its first column, then for
  every \<open>k\<close> and \<open>j\<close> the least value over the last cut \<open>l\<close>, which \<open>new_state[j][k]\<close> records; \<open>state\<close> is a copy of
  \<open>matrix\<close>.
\<close>

fun ps_first :: "nat \<Rightarrow> nat \<Rightarrow> nat list \<Rightarrow> ps_table \<times> par_strategy \<Rightarrow> (ps_table \<times> par_strategy) option" where
  "ps_first n p [] (mx, ps) = Some (mx, ps)"
| "ps_first n p (i # is) (mx, ps) = do {
     v \<leftarrow> variance ps 0 i;
     mx' \<leftarrow> tbl_set (Suc n) (Suc p) mx i 1 v;
     s \<leftarrow> tbl_set (ps_nrows ps) (ps_ncols ps) (ps_state ps) i 1 v;
     ps_first n p is (mx', ps\<lparr>ps_state := s\<rparr>)
   }"

fun ps_min :: "nat \<Rightarrow> nat \<Rightarrow> ps_table \<Rightarrow> nat \<Rightarrow> nat \<Rightarrow> nat list \<Rightarrow> int \<Rightarrow> par_strategy \<Rightarrow> (int \<times> par_strategy) option" where
  "ps_min n p mx k j [] mn ps = Some (mn, ps)"
| "ps_min n p mx k j (l # ls) mn ps = do {
     x \<leftarrow> tbl_get (Suc n) (Suc p) mx l (k - 1);
     v \<leftarrow> variance ps l j;
     c \<leftarrow> ck_int (x + v);
     if c < mn then do {
       t \<leftarrow> tbl_set (ps_nrows ps) (ps_ncols ps) (ps_new_state ps) j k (int l);
       ps_min n p mx k j ls c (ps\<lparr>ps_new_state := t\<rparr>)
     }
     else ps_min n p mx k j ls mn ps
   }"

fun ps_rows :: "nat \<Rightarrow> nat \<Rightarrow> nat \<Rightarrow> nat list \<Rightarrow> ps_table \<times> par_strategy \<Rightarrow> (ps_table \<times> par_strategy) option" where
  "ps_rows n p k [] (mx, ps) = Some (mx, ps)"
| "ps_rows n p k (j # js) (mx, ps) = do {
     (mn, ps') \<leftarrow> ps_min n p mx k j [k - 1..<j] INT_MAX ps;
     mx' \<leftarrow> tbl_set (Suc n) (Suc p) mx j k mn;
     s \<leftarrow> tbl_set (ps_nrows ps') (ps_ncols ps') (ps_state ps') j k mn;
     ps_rows n p k js (mx', ps'\<lparr>ps_state := s\<rparr>)
   }"

fun ps_cols :: "nat \<Rightarrow> nat \<Rightarrow> nat list \<Rightarrow> ps_table \<times> par_strategy \<Rightarrow> (ps_table \<times> par_strategy) option" where
  "ps_cols n p [] st = Some st"
| "ps_cols n p (k # ks) st = do { st' \<leftarrow> ps_rows n p k [2..<Suc n] st; ps_cols n p ks st' }"

text \<open>The rest of \<open>eval\<close>: the values printed, and for every column but the last the row of its least entry.\<close>

definition ps_show :: "nat \<Rightarrow> nat \<Rightarrow> par_strategy \<Rightarrow> ps_table \<Rightarrow> int list option" where
  "ps_show n p ps t = those (map (\<lambda>(i, j). tbl_get (ps_nrows ps) (ps_ncols ps) t j i) (List.product [1..<Suc p] [1..<Suc n]))"

fun ps_argmin :: "par_strategy \<Rightarrow> nat \<Rightarrow> nat list \<Rightarrow> int \<Rightarrow> nat \<Rightarrow> nat option" where
  "ps_argmin ps i [] mn pi = Some pi"
| "ps_argmin ps i (j # js) mn pi = do {
     s \<leftarrow> tbl_get (ps_nrows ps) (ps_ncols ps) (ps_state ps) j i;
     if s < mn then ps_argmin ps i js s j else ps_argmin ps i js mn pi
   }"

record ps_result =
  pr_obj :: par_strategy
  pr_state :: "int list"
  pr_last :: int
  pr_new_state :: "int list"
  pr_p :: "nat list"

definition ParStrategy_eval :: "nat \<Rightarrow> nat \<Rightarrow> par_strategy \<Rightarrow> ps_result option" where
  "ParStrategy_eval n p ps = do {
     st1 \<leftarrow> ps_first n p [1..<Suc n] (\<lambda>_ _. 0, ps);
     (mx, ps2) \<leftarrow> ps_cols n p [2..<Suc p] st1;
     shown \<leftarrow> ps_show n p ps2 (ps_state ps2);
     at_last \<leftarrow> tbl_get (Suc n) (Suc p) mx n p;
     ps_p \<leftarrow> those (map (\<lambda>i. ps_argmin ps2 i [1..<Suc n] INT_MAX 0) [1..<p]);
     shown' \<leftarrow> ps_show n p ps2 (ps_new_state ps2);
     Some \<lparr>pr_obj = ps2, pr_state = shown, pr_last = at_last, pr_new_state = shown', pr_p = ps_p\<rparr>
   }"

section \<open>Histograms\<close>

text \<open>
  The blocks read from the file; \<open>new Block(BLOCK_SIZE)\<close> leaves their tuple size indeterminate, so the
  tuple size is part of the given blocks. The product \<open>value*HIST_SIZE\<close> is an \<open>unsigned long\<close>.
\<close>

definition hist_index :: "bytes \<Rightarrow> nat option" where
  "hist_index t = map_option (\<lambda>value. wrap64 (value * HIST_SIZE) div 10000000) (tuple_key t)"

fun hist_count :: "bytes list \<Rightarrow> (nat \<Rightarrow> int) \<Rightarrow> (nat \<Rightarrow> int) option" where
  "hist_count [] h = Some h"
| "hist_count (t # ts) h = do {
     i \<leftarrow> hist_index t;
     if i < HIST_SIZE then do { c \<leftarrow> ck_int (h i + 1); hist_count ts (h(i := c)) } else None
   }"

definition Histogram_eval :: "block list \<Rightarrow> (nat \<Rightarrow> int) option" where
  "Histogram_eval blocks = do {
     tss \<leftarrow> those (map block_tuples blocks);
     hist_count (concat tss) (\<lambda>_. 0)
   }"

fun bound_loop :: "bytes list \<Rightarrow> nat \<Rightarrow> nat \<Rightarrow> (nat \<times> nat) option" where
  "bound_loop [] start end' = Some (start, end')"
| "bound_loop (t # ts) start end' = do {
     value \<leftarrow> tuple_key t;
     bound_loop ts (if value < start then value else start) (if value > end' then value else end')
   }"

definition Histogram_getbound :: "block list \<Rightarrow> nat \<Rightarrow> nat \<Rightarrow> (nat \<times> nat) option" where
  "Histogram_getbound blocks start end' = do {
     tss \<leftarrow> those (map block_tuples blocks);
     bound_loop (concat tss) start end'
   }"

text \<open>\<open>Histogram1\<close>: a thread with index \<open>i\<close> goes over the blocks \<open>i, i+CPU_CORE, ...\<close>; the counters are unsigned.\<close>

function stride :: "nat \<Rightarrow> nat \<Rightarrow> nat list" where
  "stride i n = (if i < n then i # stride (i + CPU_CORE) n else [])"
  by pat_completeness auto
termination
  by (relation "measure (\<lambda>(i, n). n - i)") (auto simp: CPU_CORE_def)

definition pthread_e :: "block list \<Rightarrow> nat \<Rightarrow> bytes list option" where
  "pthread_e blocks i = map_option concat (those (map (\<lambda>j. block_tuples (blocks ! j)) (stride i (length blocks))))"

text \<open>\<open>Hist::increase\<close>, under the lock of the counter.\<close>

definition increase :: "nat \<Rightarrow> (nat \<Rightarrow> nat) \<Rightarrow> nat \<Rightarrow> nat" where
  "increase i c = c(i := wrap32 (c i + 1))"

text \<open>
  \<open>pthreads_eval\<close>: iteration \<open>t\<close> of the creating loop stores \<open>t\<close> in the variable \<open>ag\<close> of the loop body and passes
  \<open>&ag\<close> to thread \<open>t\<close>. The thread reads its index from there when it starts (\<open>h1_arg\<close>), and the pointer \<open>ts\<close> again
  at every round. All iterations use the same memory (\<open>h1_slot\<close> is its contents), and \<open>ag\<close> lives only until its
  iteration ends (\<open>h1_alive\<close>). By the C++ standard (\<open>strict\<close>) any later access of the thread is undefined;
  otherwise it reads what the memory holds, and \<open>ts\<close> is the same in all iterations.
\<close>

record hist1 =
  h1_created :: nat
  h1_alive :: "nat option"
  h1_slot :: nat
  h1_arg :: "nat \<Rightarrow> nat option"
  h1_q :: "nat \<Rightarrow> bytes list"
  h1_exited :: "nat \<Rightarrow> bool"
  h1_count :: "nat \<Rightarrow> nat"

definition hist_start :: "nat \<Rightarrow> hist1" where
  "hist_start junk = \<lparr>h1_created = 0, h1_alive = None, h1_slot = junk, h1_arg = (\<lambda>_. None), h1_q = (\<lambda>_. []),
     h1_exited = (\<lambda>_. False), h1_count = (\<lambda>_. 0)\<rparr>"

definition args_live :: "bool \<Rightarrow> hist1 \<Rightarrow> nat \<Rightarrow> bool" where
  "args_live strict s t \<longleftrightarrow> \<not> strict \<or> h1_alive s = Some t"

text \<open>A step leads to a state, or to \<open>None\<close> when it is undefined.\<close>

inductive hist_step :: "bool \<Rightarrow> block list \<Rightarrow> hist1 \<Rightarrow> hist1 option \<Rightarrow> bool" for strict blocks where
  create: "\<lbrakk>h1_created s < CPU_CORE; h1_alive s = None\<rbrakk> \<Longrightarrow> hist_step strict blocks s
    (Some (s\<lparr>h1_slot := h1_created s, h1_alive := Some (h1_created s), h1_created := Suc (h1_created s)\<rparr>))"
| leave: "h1_alive s = Some t \<Longrightarrow> hist_step strict blocks s (Some (s\<lparr>h1_alive := None\<rparr>))"
| begin_thread: "\<lbrakk>t < h1_created s; h1_arg s t = None; args_live strict s t; pthread_e blocks (h1_slot s) = Some ts\<rbrakk>
    \<Longrightarrow> hist_step strict blocks s (Some (s\<lparr>h1_arg := (h1_arg s)(t := Some (h1_slot s)), h1_q := (h1_q s)(t := ts)\<rparr>))"
| count: "\<lbrakk>h1_q s t = x # xs; args_live strict s t; hist_index x = Some i; wrap32 i < HIST_SIZE\<rbrakk>
    \<Longrightarrow> hist_step strict blocks s (Some (s\<lparr>h1_q := (h1_q s)(t := xs), h1_count := increase (wrap32 i) (h1_count s)\<rparr>))"
| exit: "\<lbrakk>h1_arg s t = Some j; \<not> h1_exited s t; h1_q s t = []; args_live strict s t\<rbrakk>
    \<Longrightarrow> hist_step strict blocks s (Some (s\<lparr>h1_exited := (h1_exited s)(t := True)\<rparr>))"
| dead: "\<lbrakk>t < h1_created s; \<not> h1_exited s t; \<not> args_live strict s t\<rbrakk> \<Longrightarrow> hist_step strict blocks s None"

definition hist_next :: "bool \<Rightarrow> block list \<Rightarrow> hist1 option \<Rightarrow> hist1 option \<Rightarrow> bool" where
  "hist_next strict blocks a b \<longleftrightarrow> (\<exists>s. a = Some s \<and> hist_step strict blocks s b)"

definition hist_done :: "hist1 \<Rightarrow> bool" where
  "hist_done s \<longleftrightarrow> (\<forall>t < CPU_CORE. h1_exited s t)"

section \<open>Optimal partitions\<close>

text \<open>
  What a part from load \<open>m\<close> up to load \<open>n\<close> costs, in unbounded integers. A partition of the first \<open>j\<close> loads
  into \<open>k\<close> parts is the list of the ends of the parts.
\<close>

definition part_cost :: "par_strategy \<Rightarrow> nat \<Rightarrow> nat \<Rightarrow> int" where
  "part_cost ps m n =
     (sum_list (map ((!) (ps_a ps)) [m..<n]) - ps_a_expect ps)\<^sup>2 + (sum_list (map ((!) (ps_b ps)) [m..<n]) - ps_b_expect ps)\<^sup>2"

inductive segs :: "nat \<Rightarrow> nat \<Rightarrow> nat list \<Rightarrow> bool" where
  one: "0 < j \<Longrightarrow> segs (Suc 0) j [j]"
| more: "segs k l cs \<Longrightarrow> l < j \<Longrightarrow> segs (Suc k) j (cs @ [j])"

fun seg_cost :: "par_strategy \<Rightarrow> nat \<Rightarrow> nat list \<Rightarrow> int" where
  "seg_cost ps m [] = 0"
| "seg_cost ps m (c # cs) = part_cost ps m c + seg_cost ps c cs"

definition optimal :: "par_strategy \<Rightarrow> nat \<Rightarrow> nat \<Rightarrow> int \<Rightarrow> bool" where
  "optimal ps k j v \<longleftrightarrow> (\<exists>cs. segs k j cs \<and> v = seg_cost ps 0 cs) \<and> (\<forall>cs. segs k j cs \<longrightarrow> v \<le> seg_cost ps 0 cs)"

text \<open>\<open>c\<close> is the last cut of a partition of cost \<open>v\<close>.\<close>

definition cut_at :: "par_strategy \<Rightarrow> nat \<Rightarrow> nat \<Rightarrow> int \<Rightarrow> int \<Rightarrow> bool" where
  "cut_at ps k j v c \<longleftrightarrow> (\<exists>l ds. c = int l \<and> segs (k - 1) l ds \<and> l < j \<and> v = seg_cost ps 0 (ds @ [j]))"

lemma seg_cost_snoc: "cs \<noteq> [] \<Longrightarrow> seg_cost ps m (cs @ [j]) = seg_cost ps m cs + part_cost ps (last cs) j"
  by (induction cs arbitrary: m) auto

lemma segs_last: "segs k j cs \<Longrightarrow> cs \<noteq> [] \<and> last cs = j \<and> 0 < k \<and> k \<le> j"
  by (induction rule: segs.induct) auto

lemma segs_one: "segs (Suc 0) j cs \<longleftrightarrow> cs = [j] \<and> 0 < j"
  by (auto intro: segs.one elim: segs.cases dest: segs_last)

lemma segs_Suc: "0 < k \<Longrightarrow> segs (Suc k) j cs \<longleftrightarrow> (\<exists>l ds. cs = ds @ [j] \<and> segs k l ds \<and> l < j)"
proof
  assume k: "0 < k" and "segs (Suc k) j cs"
  from this(2) show "\<exists>l ds. cs = ds @ [j] \<and> segs k l ds \<and> l < j" by cases (use k in auto)
qed (auto intro: segs.more)

lemma part_cost_nonneg: "0 \<le> part_cost ps m n"
  by (simp add: part_cost_def)

lemma seg_cost_nonneg: "0 \<le> seg_cost ps m cs"
  by (induction cs arbitrary: m) (auto simp: part_cost_nonneg)

text \<open>When \<open>variance\<close> has a value it is the cost.\<close>

lemma range_sum_value: "range_sum xs is s = Some v \<Longrightarrow> v = s + sum_list (map ((!) xs) is)"
proof (induction "is" arbitrary: s)
  case (Cons i js)
  then have "range_sum xs js (s + xs ! i) = Some v" by (auto simp: bind_iff ck_int_def split: if_splits)
  from Cons.IH [OF this] show ?case by simp
qed simp

lemma variance_cost: "variance ps m n = Some v \<Longrightarrow> v = part_cost ps m n"
  by (auto simp: variance_def bind_iff part_cost_def ck_int_def power2_eq_square split: if_splits dest!: range_sum_value)

lemma variance_cong [simp]:
  "variance (ps\<lparr>ps_state := s\<rparr>) = variance ps" "variance (ps\<lparr>ps_new_state := s\<rparr>) = variance ps"
  "variance (ps\<lparr>ps_nrows := r\<rparr>) = variance ps" "variance (ps\<lparr>ps_ncols := r\<rparr>) = variance ps"
  by (simp_all add: variance_def fun_eq_iff)

lemma part_cost_cong [simp]:
  "part_cost (ps\<lparr>ps_state := s\<rparr>) = part_cost ps" "part_cost (ps\<lparr>ps_new_state := s\<rparr>) = part_cost ps"
  "part_cost (ps\<lparr>ps_nrows := r\<rparr>) = part_cost ps" "part_cost (ps\<lparr>ps_ncols := r\<rparr>) = part_cost ps"
  by (simp_all add: part_cost_def fun_eq_iff)

definition small_loads :: "par_strategy \<Rightarrow> nat \<Rightarrow> int \<Rightarrow> bool" where
  "small_loads ps n V \<longleftrightarrow> (\<forall>l i. l < i \<longrightarrow> i \<le> n \<longrightarrow> (\<exists>v. variance ps l i = Some v \<and> v \<le> V))"

lemma small_loadsD:
  assumes "small_loads ps n V" "l < i" "i \<le> n"
  shows "variance ps l i = Some (part_cost ps l i)" "part_cost ps l i \<le> V"
  using assms variance_cost unfolding small_loads_def by blast+

lemma small_loads_cong [simp]:
  "small_loads (ps\<lparr>ps_state := s\<rparr>) = small_loads ps" "small_loads (ps\<lparr>ps_new_state := s\<rparr>) = small_loads ps"
  "small_loads (ps\<lparr>ps_nrows := r\<rparr>) = small_loads ps" "small_loads (ps\<lparr>ps_ncols := r\<rparr>) = small_loads ps"
  by (simp_all add: small_loads_def fun_eq_iff)

lemma segs_cost:
  assumes "segs k j cs" and "small_loads ps n V" and "j \<le> n"
  shows "seg_cost ps 0 cs \<le> int k * V"
  using assms
proof (induction rule: segs.induct)
  case (more k l cs j)
  then have "seg_cost ps 0 cs \<le> int k * V" "part_cost ps l j \<le> V" using small_loadsD [of ps n V l j] by auto
  then show ?case using segs_last [OF more(1)] by (simp add: seg_cost_snoc algebra_simps)
qed (use small_loadsD in auto)

lemma optimal_bounds:
  assumes "optimal ps k j v" "small_loads ps n V" "j \<le> n"
  shows "0 \<le> v" "v \<le> int k * V"
  using assms segs_cost seg_cost_nonneg unfolding optimal_def by blast+

section \<open>The tables\<close>

text \<open>The entry for \<open>k\<close> parts and \<open>j\<close> loads that the inner loop computes from the column before.\<close>

definition best :: "par_strategy \<Rightarrow> ps_table \<Rightarrow> nat \<Rightarrow> nat \<Rightarrow> int \<Rightarrow> int \<Rightarrow> bool" where
  "best ps mx k j v c \<longleftrightarrow> (\<forall>l \<in> {k - 1..<j}. v \<le> mx l (k - 1) + part_cost ps l j)
     \<and> (v = INT_MAX \<or> (\<exists>l \<in> {k - 1..<j}. v = mx l (k - 1) + part_cost ps l j \<and> c = int l))"

lemma ps_min_run:
  assumes "small_loads ps n V" "j \<le> n" "1 \<le> k" "k \<le> p" "ps_nrows ps = Suc n" "ps_ncols ps = Suc p"
    and "\<forall>l \<in> set ls. l < j \<and> 0 \<le> mx l (k - 1) \<and> mx l (k - 1) + V \<le> INT_MAX"
  shows "\<exists>mn' t. ps_min n p mx k j ls mn ps = Some (mn', ps\<lparr>ps_new_state := t\<rparr>) \<and> mn' \<le> mn
    \<and> (\<forall>l \<in> set ls. mn' \<le> mx l (k - 1) + part_cost ps l j)
    \<and> (\<forall>i k'. i \<noteq> j \<or> k' \<noteq> k \<longrightarrow> t i k' = ps_new_state ps i k')
    \<and> (mn' = mn \<and> t = ps_new_state ps \<or> (\<exists>l \<in> set ls. mn' = mx l (k - 1) + part_cost ps l j \<and> t j k = int l))"
  using assms
proof (induction ls arbitrary: mn ps)
  case Nil
  then show ?case by (intro exI [of _ mn] exI [of _ "ps_new_state ps"]) simp
next
  case (Cons l ls)
  let ?c = "mx l (k - 1) + part_cost ps l j"
  have v: "variance ps l j = Some (part_cost ps l j)" "part_cost ps l j \<le> V"
    using small_loadsD [OF Cons.prems(1) _ Cons.prems(2)] Cons.prems(7) by auto
  have c: "ck_int ?c = Some ?c"
    using Cons.prems(7) v(2) part_cost_nonneg [of ps l j] by (intro ck_int_ok) (auto simp: INT_MAX_def)
  have g: "tbl_get (Suc n) (Suc p) mx l (k - 1) = Some (mx l (k - 1))"
    using Cons.prems(2,4,7) by (auto simp: tbl_get_def)
  have pre: "\<forall>l \<in> set ls. l < j \<and> 0 \<le> mx l (k - 1) \<and> mx l (k - 1) + V \<le> INT_MAX" using Cons.prems(7) by simp
  show ?case
  proof (cases "?c < mn")
    case True
    let ?t = "(ps_new_state ps)(j := (ps_new_state ps j)(k := int l))"
    have s: "tbl_set (ps_nrows ps) (ps_ncols ps) (ps_new_state ps) j k (int l) = Some ?t"
      using Cons.prems(2,4-6) by (simp add: tbl_set_def)
    have step: "ps_min n p mx k j (l # ls) mn ps = ps_min n p mx k j ls ?c (ps\<lparr>ps_new_state := ?t\<rparr>)"
      using g v(1) c s True by simp
    define ps1 where "ps1 = ps\<lparr>ps_new_state := ?t\<rparr>"
    have new: "ps_new_state ps1 = ?t" "\<And>t. ps1\<lparr>ps_new_state := t\<rparr> = ps\<lparr>ps_new_state := t\<rparr>" "part_cost ps1 = part_cost ps"
      by (simp_all add: ps1_def)
    have "small_loads ps1 n V" "ps_nrows ps1 = Suc n" "ps_ncols ps1 = Suc p" using Cons.prems by (simp_all add: ps1_def)
    from Cons.IH [OF this(1) Cons.prems(2-4) this(2,3) pre, of ?c, unfolded new]
    obtain mn' t where r: "ps_min n p mx k j ls ?c ps1 = Some (mn', ps\<lparr>ps_new_state := t\<rparr>)" "mn' \<le> ?c"
      "\<forall>l \<in> set ls. mn' \<le> mx l (k - 1) + part_cost ps l j" "\<forall>i k'. i \<noteq> j \<or> k' \<noteq> k \<longrightarrow> t i k' = ?t i k'"
      "mn' = ?c \<and> t = ?t \<or> (\<exists>l \<in> set ls. mn' = mx l (k - 1) + part_cost ps l j \<and> t j k = int l)"
      by blast
    have "mn' \<le> mn" using r(2) True by simp
    moreover have "\<forall>l \<in> set (l # ls). mn' \<le> mx l (k - 1) + part_cost ps l j" using r(2,3) by simp
    moreover have "\<forall>i k'. i \<noteq> j \<or> k' \<noteq> k \<longrightarrow> t i k' = ps_new_state ps i k'" using r(4) by simp
    moreover have "\<exists>l \<in> set (l # ls). mn' = mx l (k - 1) + part_cost ps l j \<and> t j k = int l" using r(5) by auto
    ultimately show ?thesis unfolding step ps1_def [symmetric] r(1) by blast
  next
    case False
    then have step: "ps_min n p mx k j (l # ls) mn ps = ps_min n p mx k j ls mn ps" using g v(1) c by simp
    from Cons.IH [OF Cons.prems(1-6) pre, of mn]
    obtain mn' t where r: "ps_min n p mx k j ls mn ps = Some (mn', ps\<lparr>ps_new_state := t\<rparr>)" "mn' \<le> mn"
      "\<forall>l \<in> set ls. mn' \<le> mx l (k - 1) + part_cost ps l j" "\<forall>i k'. i \<noteq> j \<or> k' \<noteq> k \<longrightarrow> t i k' = ps_new_state ps i k'"
      "mn' = mn \<and> t = ps_new_state ps \<or> (\<exists>l \<in> set ls. mn' = mx l (k - 1) + part_cost ps l j \<and> t j k = int l)"
      by blast
    have "\<forall>l \<in> set (l # ls). mn' \<le> mx l (k - 1) + part_cost ps l j" using r(2,3) False by simp
    moreover have "mn' = mn \<and> t = ps_new_state ps \<or> (\<exists>l \<in> set (l # ls). mn' = mx l (k - 1) + part_cost ps l j \<and> t j k = int l)"
      using r(5) by auto
    ultimately show ?thesis unfolding step r(1) using r(2,4) by blast
  qed
qed

lemma best_cong: "(\<And>l. mx l (k - 1) = mx' l (k - 1)) \<Longrightarrow> best ps mx k j v c = best ps mx' k j v c"
  by (simp add: best_def)

text \<open>A column: \<open>matrix\<close>, \<open>state\<close> and \<open>new_state\<close> get the entries of the column and keep all others.\<close>

lemma ps_rows_run:
  assumes "small_loads ps n V" "2 \<le> k" "k \<le> p" "ps_nrows ps = Suc n" "ps_ncols ps = Suc p" "distinct js"
    and "\<forall>j \<in> set js. j \<le> n" "\<forall>l. k - 1 \<le> l \<longrightarrow> l < n \<longrightarrow> 0 \<le> mx l (k - 1) \<and> mx l (k - 1) + V \<le> INT_MAX"
  shows "\<exists>mx' s t. ps_rows n p k js (mx, ps) = Some (mx', ps\<lparr>ps_state := s, ps_new_state := t\<rparr>)
    \<and> (\<forall>i k'. k' \<noteq> k \<or> i \<notin> set js \<longrightarrow> mx' i k' = mx i k' \<and> t i k' = ps_new_state ps i k')
    \<and> (\<forall>j \<in> set js. best ps mx k j (mx' j k) (t j k))"
  using assms
proof (induction js arbitrary: mx ps)
  case Nil
  then show ?case by (intro exI [of _ mx] exI [of _ "ps_state ps"] exI [of _ "ps_new_state ps"]) simp
next
  case (Cons j js)
  have "\<exists>mn t. ps_min n p mx k j [k - 1..<j] INT_MAX ps = Some (mn, ps\<lparr>ps_new_state := t\<rparr>) \<and> mn \<le> INT_MAX
    \<and> (\<forall>l \<in> set [k - 1..<j]. mn \<le> mx l (k - 1) + part_cost ps l j)
    \<and> (\<forall>i k'. i \<noteq> j \<or> k' \<noteq> k \<longrightarrow> t i k' = ps_new_state ps i k')
    \<and> (mn = INT_MAX \<and> t = ps_new_state ps \<or> (\<exists>l \<in> set [k - 1..<j]. mn = mx l (k - 1) + part_cost ps l j \<and> t j k = int l))"
    using Cons.prems by (intro ps_min_run [where V = V]) auto
  then obtain mn t where mn: "ps_min n p mx k j [k - 1..<j] INT_MAX ps = Some (mn, ps\<lparr>ps_new_state := t\<rparr>)"
    "best ps mx k j mn (t j k)" "\<forall>i k'. i \<noteq> j \<or> k' \<noteq> k \<longrightarrow> t i k' = ps_new_state ps i k'"
    unfolding best_def atLeastLessThan_upt by blast
  define mx1 where "mx1 = mx(j := (mx j)(k := mn))"
  define ps1 where "ps1 = ps\<lparr>ps_new_state := t, ps_state := (ps_state ps)(j := (ps_state ps j)(k := mn))\<rparr>"
  have upd: "ps1\<lparr>ps_state := s, ps_new_state := t'\<rparr> = ps\<lparr>ps_state := s, ps_new_state := t'\<rparr>" for s t'
    unfolding ps1_def by (rule par_strategy.equality) simp_all
  have col: "mx1 l (k - 1) = mx l (k - 1)" for l using Cons.prems(2) by (cases k) (auto simp: mx1_def)
  have step: "ps_rows n p k (j # js) (mx, ps) = ps_rows n p k js (mx1, ps1)"
    using mn(1) Cons.prems(2-7) by (simp add: tbl_set_def mx1_def ps1_def)
  have "\<exists>mx' s t. ps_rows n p k js (mx1, ps1) = Some (mx', ps1\<lparr>ps_state := s, ps_new_state := t\<rparr>)
    \<and> (\<forall>i k'. k' \<noteq> k \<or> i \<notin> set js \<longrightarrow> mx' i k' = mx1 i k' \<and> t i k' = ps_new_state ps1 i k')
    \<and> (\<forall>j \<in> set js. best ps1 mx1 k j (mx' j k) (t j k))"
    using Cons.prems col by (intro Cons.IH) (simp_all add: ps1_def)
  then obtain mx' s t' where r: "ps_rows n p k js (mx1, ps1) = Some (mx', ps1\<lparr>ps_state := s, ps_new_state := t'\<rparr>)"
    "\<forall>i k'. k' \<noteq> k \<or> i \<notin> set js \<longrightarrow> mx' i k' = mx1 i k' \<and> t' i k' = t i k'"
    "\<forall>j \<in> set js. best ps mx k j (mx' j k) (t' j k)"
    using best_cong [of mx1 k mx, OF col] by (auto simp: ps1_def best_def)
  have "mx' j k = mn" "t' j k = t j k" using r(2) Cons.prems(6) by (simp_all add: mx1_def)
  then have "best ps mx k i (mx' i k) (t' i k)" if "i \<in> set (j # js)" for i using that r(3) mn(2) by auto
  moreover have "mx' i k' = mx i k' \<and> t' i k' = ps_new_state ps i k'" if "k' \<noteq> k \<or> i \<notin> set (j # js)" for i k'
    using that r(2) mn(3) by (auto simp: mx1_def)
  ultimately show ?case unfolding step r(1) by (intro exI [of _ mx'] exI [of _ s] exI [of _ t']) (simp add: upd)
qed

text \<open>One entry: the least value over the last cut is the optimum with one more part.\<close>

lemma best_optimal:
  assumes "0 < k" "Suc k \<le> j" "j \<le> n" and opt: "\<forall>l. k \<le> l \<longrightarrow> l < j \<longrightarrow> optimal ps k l (mx l k)"
    and V: "small_loads ps n V" "int (Suc k) * V < INT_MAX" and v: "best ps mx (Suc k) j v c"
  shows "optimal ps (Suc k) j v \<and> cut_at ps (Suc k) j v c"
proof -
  have att: "\<exists>ds. segs k l ds \<and> mx l k + part_cost ps l j = seg_cost ps 0 (ds @ [j])" if l: "k \<le> l" "l < j" for l
  proof -
    obtain ds where ds: "segs k l ds" "mx l k = seg_cost ps 0 ds" using opt l unfolding optimal_def by blast
    then show ?thesis using segs_last [OF ds(1)] by (intro exI [of _ ds]) (simp add: seg_cost_snoc)
  qed
  have le: "v \<le> seg_cost ps 0 cs" if cs: "segs (Suc k) j cs" for cs
  proof -
    obtain l ds where ds: "cs = ds @ [j]" "segs k l ds" "l < j" using cs assms(1) by (auto simp: segs_Suc)
    then have "k \<le> l" "ds \<noteq> []" "last ds = l" using segs_last by auto
    moreover have "mx l k \<le> seg_cost ps 0 ds" using opt ds(2,3) \<open>k \<le> l\<close> unfolding optimal_def by blast
    ultimately show ?thesis using v ds by (force simp: best_def seg_cost_snoc)
  qed
  have "v \<noteq> INT_MAX"
  proof -
    obtain ds where "segs k k ds" using att [of k] assms(2) by auto
    then have "segs (Suc k) j (ds @ [j])" using assms(2) by (intro segs.more) auto
    then show ?thesis using le segs_cost [OF _ V(1) assms(3)] V(2) by fastforce
  qed
  then obtain l where l: "k \<le> l" "l < j" "v = mx l k + part_cost ps l j" "c = int l"
    using v by (auto simp: best_def)
  obtain ds where "segs k l ds" "v = seg_cost ps 0 (ds @ [j])" using att [OF l(1,2)] l(3) by auto
  then show ?thesis using le l(2,4) unfolding optimal_def cut_at_def by (auto intro: segs.more)
qed

definition cols_ok :: "par_strategy \<Rightarrow> nat \<Rightarrow> nat \<Rightarrow> ps_table \<Rightarrow> ps_table \<Rightarrow> bool" where
  "cols_ok ps n k mx t \<longleftrightarrow> (\<forall>k' j. 0 < k' \<longrightarrow> k' \<le> k \<longrightarrow> k' \<le> j \<longrightarrow> j \<le> n \<longrightarrow>
     optimal ps k' j (mx j k') \<and> (2 \<le> k' \<longrightarrow> cut_at ps k' j (mx j k') (t j k')))"

lemma ps_col_step:
  assumes "small_loads ps n V" "0 < k" "Suc k \<le> p" "int (Suc k) * V < INT_MAX"
    and "ps_nrows ps = Suc n" "ps_ncols ps = Suc p" "cols_ok ps n k mx (ps_new_state ps)"
  shows "\<exists>mx' s t. ps_rows n p (Suc k) [2..<Suc n] (mx, ps) = Some (mx', ps\<lparr>ps_state := s, ps_new_state := t\<rparr>)
    \<and> cols_ok ps n (Suc k) mx' t"
proof -
  have opt: "optimal ps k l (mx l k)" if "k \<le> l" "l \<le> n" for l using assms(2,7) that by (auto simp: cols_ok_def)
  have "0 \<le> mx l k \<and> mx l k + V \<le> INT_MAX" if "k \<le> l" "l < n" for l
    using optimal_bounds [OF opt assms(1)] that assms(4) by (force simp: algebra_simps)
  then have "\<exists>mx' s t. ps_rows n p (Suc k) [2..<Suc n] (mx, ps) = Some (mx', ps\<lparr>ps_state := s, ps_new_state := t\<rparr>)
    \<and> (\<forall>i k'. k' \<noteq> Suc k \<or> i \<notin> set [2..<Suc n] \<longrightarrow> mx' i k' = mx i k' \<and> t i k' = ps_new_state ps i k')
    \<and> (\<forall>j \<in> set [2..<Suc n]. best ps mx (Suc k) j (mx' j (Suc k)) (t j (Suc k)))"
    using assms by (intro ps_rows_run) auto
  then obtain mx' s t where r: "ps_rows n p (Suc k) [2..<Suc n] (mx, ps) = Some (mx', ps\<lparr>ps_state := s, ps_new_state := t\<rparr>)"
    "\<And>i k'. k' \<noteq> Suc k \<Longrightarrow> mx' i k' = mx i k' \<and> t i k' = ps_new_state ps i k'"
    "\<And>j. 2 \<le> j \<Longrightarrow> j \<le> n \<Longrightarrow> best ps mx (Suc k) j (mx' j (Suc k)) (t j (Suc k))"
    unfolding set_upt by (metis atLeastLessThan_iff less_Suc_eq_le)
  have "optimal ps k' j (mx' j k') \<and> (2 \<le> k' \<longrightarrow> cut_at ps k' j (mx' j k') (t j k'))"
    if k': "0 < k'" "k' \<le> Suc k" "k' \<le> j" "j \<le> n" for k' j
  proof (cases "k' = Suc k")
    case True
    have "optimal ps (Suc k) j (mx' j (Suc k)) \<and> cut_at ps (Suc k) j (mx' j (Suc k)) (t j (Suc k))"
      using k' True assms(2) opt by (intro best_optimal [OF _ _ _ _ assms(1,4) r(3)]) auto
    then show ?thesis using True by simp
  next
    case False
    then have "k' \<le> k" using k'(2) by simp
    then show ?thesis using False r(2) [OF False] k' assms(7) by (simp add: cols_ok_def)
  qed
  then show ?thesis using r(1) by (auto simp: cols_ok_def)
qed

lemma ps_cols_run:
  assumes "small_loads ps n V" "0 < k" "k + m \<le> p" "int p * V < INT_MAX" "0 \<le> V"
    and "ps_nrows ps = Suc n" "ps_ncols ps = Suc p" "cols_ok ps n k mx (ps_new_state ps)"
  shows "\<exists>mx' s t. ps_cols n p [Suc k..<Suc (k + m)] (mx, ps) = Some (mx', ps\<lparr>ps_state := s, ps_new_state := t\<rparr>)
    \<and> cols_ok ps n (k + m) mx' t"
  using assms
proof (induction m arbitrary: k mx ps)
  case 0
  then show ?case by (intro exI [of _ mx] exI [of _ "ps_state ps"] exI [of _ "ps_new_state ps"]) simp
next
  case (Suc m)
  have "int (Suc k) * V \<le> int p * V" using Suc.prems(3,5) by (intro mult_right_mono) simp_all
  then have "\<exists>mx' s t. ps_rows n p (Suc k) [2..<Suc n] (mx, ps) = Some (mx', ps\<lparr>ps_state := s, ps_new_state := t\<rparr>)
    \<and> cols_ok ps n (Suc k) mx' t"
    using Suc.prems by (intro ps_col_step) auto
  then obtain mx1 s1 t1 where st: "ps_rows n p (Suc k) [2..<Suc n] (mx, ps) = Some (mx1, ps\<lparr>ps_state := s1, ps_new_state := t1\<rparr>)"
    "cols_ok ps n (Suc k) mx1 t1" by blast
  let ?ps = "ps\<lparr>ps_state := s1, ps_new_state := t1\<rparr>"
  have cong: "cols_ok ?ps = cols_ok ps"
  proof -
    have "seg_cost ?ps m cs = seg_cost ps m cs" for m cs by (induction cs arbitrary: m) auto
    then show ?thesis by (simp add: cols_ok_def optimal_def cut_at_def fun_eq_iff)
  qed
  have "\<exists>mx' s t. ps_cols n p [Suc (Suc k)..<Suc (Suc k + m)] (mx1, ?ps) = Some (mx', ?ps\<lparr>ps_state := s, ps_new_state := t\<rparr>)
    \<and> cols_ok ?ps n (Suc k + m) mx' t"
    using Suc.prems st(2) by (intro Suc.IH) (auto simp: cong)
  moreover have "[Suc k..<Suc (k + Suc m)] = Suc k # [Suc (Suc k)..<Suc (Suc k + m)]"
    by (simp add: upt_conv_Cons del: upt_Suc)
  ultimately show ?case using st(1) cong by (simp del: upt_Suc)
qed

lemma ps_first_run:
  assumes "small_loads ps n V" "ps_nrows ps = Suc n" "ps_ncols ps = Suc p" "1 \<le> p" "\<forall>i \<in> set is. 0 < i \<and> i \<le> n"
  shows "\<exists>mx' s. ps_first n p is (mx, ps) = Some (mx', ps\<lparr>ps_state := s\<rparr>)
    \<and> (\<forall>i. mx' i 1 = (if i \<in> set is then part_cost ps 0 i else mx i 1))"
  using assms
proof (induction "is" arbitrary: mx ps)
  case Nil
  then show ?case by (intro exI [of _ mx] exI [of _ "ps_state ps"]) simp
next
  case (Cons i js)
  let ?v = "part_cost ps 0 i"
  let ?mx = "mx(i := (mx i)(1 := ?v))" and ?ps = "ps\<lparr>ps_state := (ps_state ps)(i := (ps_state ps i)(1 := ?v))\<rparr>"
  have "ps_first n p (i # js) (mx, ps) = ps_first n p js (?mx, ?ps)"
    using Cons.prems small_loadsD(1) [OF Cons.prems(1), of 0 i] by (simp add: tbl_set_def)
  moreover have "\<exists>mx' s. ps_first n p js (?mx, ?ps) = Some (mx', ?ps\<lparr>ps_state := s\<rparr>)
    \<and> (\<forall>i. mx' i 1 = (if i \<in> set js then part_cost ?ps 0 i else ?mx i 1))"
    using Cons.prems by (intro Cons.IH) simp_all
  then obtain mx' s where "ps_first n p js (?mx, ?ps) = Some (mx', ?ps\<lparr>ps_state := s\<rparr>)"
    "\<And>i. mx' i 1 = (if i \<in> set js then part_cost ?ps 0 i else ?mx i 1)" by blast
  ultimately show ?case by (intro exI [of _ mx'] exI [of _ s]) simp
qed

lemma ps_first_overrun: "\<lbrakk>i \<in> set is; ps_nrows ps \<le> i\<rbrakk> \<Longrightarrow> ps_first n p is (mx, ps) = None"
proof (induction "is" arbitrary: mx ps)
  case (Cons j js)
  show ?case
  proof (cases "i = j")
    case True
    then show ?thesis using Cons.prems by (auto simp: tbl_set_def bind_iff)
  next
    case False
    then have "ps_first n p js (mx', ps\<lparr>ps_state := s\<rparr>) = None" for mx' s using Cons.IH [of "ps\<lparr>ps_state := s\<rparr>" mx'] Cons.prems by simp
    then show ?thesis by (auto simp: bind_iff)
  qed
qed simp

text \<open>The loops after the table only read entries inside the arrays.\<close>

lemma ps_tail_defined:
  assumes "ps_nrows ps = Suc n" "ps_ncols ps = Suc p"
  shows "\<exists>xs. ps_show n p ps t = Some xs" and "\<exists>qs. those (map (\<lambda>i. ps_argmin ps i [1..<Suc n] INT_MAX 0) [1..<p]) = Some qs"
proof -
  have "ps_show n p ps t = Some (map (\<lambda>(i, j). t j i) (List.product [1..<Suc p] [1..<Suc n]))"
    unfolding ps_show_def using assms by (intro those_map_Some) (auto simp: tbl_get_def)
  then show "\<exists>xs. ps_show n p ps t = Some xs" by blast
  have "\<exists>q. ps_argmin ps i js mn pi = Some q" if "\<forall>j \<in> set js. j \<le> n" "i \<le> p" for i js mn pi
    using that assms by (induction js arbitrary: mn pi) (auto simp: tbl_get_def)
  then have "\<forall>i \<in> set [1..<p]. ps_argmin ps i [1..<Suc n] INT_MAX 0 = Some (the (ps_argmin ps i [1..<Suc n] INT_MAX 0))"
    by (intro ballI) (force simp del: upt_Suc)
  then show "\<exists>qs. those (map (\<lambda>i. ps_argmin ps i [1..<Suc n] INT_MAX 0) [1..<p]) = Some qs"
    using those_map_Some [of "[1..<p]" "\<lambda>i. ps_argmin ps i [1..<Suc n] INT_MAX 0" "\<lambda>i. the (ps_argmin ps i [1..<Suc n] INT_MAX 0)"] by blast
qed

text \<open>
  C18. The dynamic program of \<open>ParStrategy::eval\<close>, for \<open>n\<close> loads, \<open>p\<close> parts and loads for which every variance is
  computed without overflow and at most \<open>V\<close>, with \<open>p * V\<close> below \<open>INT_MAX\<close>. With the arrays the class declares,
  \<open>[N][P]\<close>, it is undefined: it writes row \<open>N\<close>. With one more row and column it returns, the value it prints
  at last, \<open>matrix[N][P]\<close>, is the cost of some partition of the loads into \<open>p\<close> consecutive non-empty parts, no such
  partition costs less, and \<open>new_state[N][P]\<close> is the last cut of a partition of that cost.
\<close>

theorem par_matrix_optimal:
  assumes "2 \<le> p" "p \<le> n" "int p * V < INT_MAX"
    and "\<forall>l i. l < i \<longrightarrow> i \<le> n \<longrightarrow> (\<exists>v. variance ps l i = Some v \<and> v \<le> V)"
  shows "ParStrategy_eval n p (ps\<lparr>ps_nrows := n, ps_ncols := p\<rparr>) = None
    \<and> (\<exists>r. ParStrategy_eval n p (ps\<lparr>ps_nrows := Suc n, ps_ncols := Suc p\<rparr>) = Some r
      \<and> (\<exists>cs. segs p n cs \<and> pr_last r = seg_cost ps 0 cs) \<and> (\<forall>cs. segs p n cs \<longrightarrow> pr_last r \<le> seg_cost ps 0 cs)
      \<and> (\<exists>l ds. ps_new_state (pr_obj r) n p = int l \<and> segs p n (ds @ [l, n]) \<and> pr_last r = seg_cost ps 0 (ds @ [l, n])))"
proof -
  let ?ps = "ps\<lparr>ps_nrows := Suc n, ps_ncols := Suc p\<rparr>"
  have small: "small_loads ?ps n V" using assms(4) by (simp add: small_loads_def)
  have "part_cost ?ps 0 n \<le> V" using small_loadsD(2) [OF small, of 0 n] assms(1,2) by simp
  then have V: "0 \<le> V" using part_cost_nonneg [of ?ps 0 n] by linarith
  obtain mx s where f: "ps_first n p [1..<Suc n] (\<lambda>_ _. 0, ?ps) = Some (mx, ?ps\<lparr>ps_state := s\<rparr>)"
    "\<forall>i. mx i 1 = (if i \<in> set [1..<Suc n] then part_cost ?ps 0 i else 0)"
    using ps_first_run [OF small, of p "[1..<Suc n]" "\<lambda>_ _. 0"] assms(1) by (auto simp del: upt_Suc)
  let ?ps1 = "?ps\<lparr>ps_state := s\<rparr>"
  have "optimal ?ps1 1 j (mx j 1)" if "1 \<le> j" "j \<le> n" for j
    using that f(2) by (auto simp: optimal_def segs_one)
  then have "cols_ok ?ps1 n 1 mx (ps_new_state ?ps1)"
    unfolding cols_ok_def by (metis One_nat_def Suc_1 Suc_leI le_antisym not_less_eq_eq)
  then have "\<exists>mx' s' t. ps_cols n p [Suc 1..<Suc (1 + (p - 1))] (mx, ?ps1) = Some (mx', ?ps1\<lparr>ps_state := s', ps_new_state := t\<rparr>)
    \<and> cols_ok ?ps1 n (1 + (p - 1)) mx' t"
    using small V assms(1,3) by (intro ps_cols_run) auto
  then obtain mx' s' t where c: "ps_cols n p [2..<Suc p] (mx, ?ps1) = Some (mx', ?ps1\<lparr>ps_state := s', ps_new_state := t\<rparr>)"
    "cols_ok ?ps1 n p mx' t" using assms(1) by (auto simp: numeral_2_eq_2 simp del: upt_Suc)
  let ?ps2 = "?ps1\<lparr>ps_state := s', ps_new_state := t\<rparr>"
  have d: "ps_nrows ?ps2 = Suc n" "ps_ncols ?ps2 = Suc p" by simp_all
  obtain xs ys qs where "ps_show n p ?ps2 (ps_state ?ps2) = Some xs" "ps_show n p ?ps2 (ps_new_state ?ps2) = Some ys"
    "those (map (\<lambda>i. ps_argmin ?ps2 i [1..<Suc n] INT_MAX 0) [1..<p]) = Some qs"
    using ps_tail_defined [OF d] by blast
  then have ev: "ParStrategy_eval n p ?ps = Some \<lparr>pr_obj = ?ps2, pr_state = xs, pr_last = mx' n p, pr_new_state = ys, pr_p = qs\<rparr>"
    using f(1) c(1) by (simp add: ParStrategy_eval_def tbl_get_def del: upt_Suc)
  have cost: "seg_cost ?ps1 m cs = seg_cost ps m cs" for m cs by (induction cs arbitrary: m) auto
  have best: "optimal ps p n (mx' n p)" "cut_at ps p n (mx' n p) (t n p)"
    using c(2) assms(1,2) by (auto simp: cols_ok_def optimal_def cut_at_def cost)
  then obtain l ds where l: "t n p = int l" "segs (p - 1) l ds" "l < n" "mx' n p = seg_cost ps 0 (ds @ [n])"
    unfolding cut_at_def by blast
  have "ds = butlast ds @ [l]" using segs_last [OF l(2)] by (metis append_butlast_last_id)
  moreover have "segs p n (ds @ [n])" using segs.more [OF l(2,3)] assms(1) by (cases p) auto
  ultimately have "segs p n (butlast ds @ [l, n]) \<and> mx' n p = seg_cost ps 0 (butlast ds @ [l, n])"
    using l(4) by (metis append_Cons append_Nil append_assoc)
  moreover have "ParStrategy_eval n p (ps\<lparr>ps_nrows := n, ps_ncols := p\<rparr>) = None"
    using ps_first_overrun [of n "[1..<Suc n]" "ps\<lparr>ps_nrows := n, ps_ncols := p\<rparr>" n p] assms(1,2)
    by (simp add: ParStrategy_eval_def)
  ultimately show ?thesis using ev l(1) best(1) unfolding optimal_def by fastforce
qed

text \<open>
  The constructor, too, writes outside its tables: \<open>state\<close> and \<open>new_state\<close> have \<open>N\<close> rows and \<open>P\<close> columns,
  and the clearing loops run to \<open>N\<close> and \<open>P\<close> inclusive.
\<close>

lemma par_strategy_overflow: "mk_ParStrategy PS_N PS_P junk1 junk2 = None"
proof -
  have "ps_clear ijs ps = None" if "(0, ps_ncols ps) \<in> set ijs" for ijs ps
    using that by (induction ijs ps rule: ps_clear.induct) (auto simp: bind_iff tbl_set_def)
  then show ?thesis by (auto simp: mk_ParStrategy_def bind_iff Let_def ps_loads_def PS_N_def PS_P_def)
qed

text \<open>The loads of the constructor, with every variance far below the bound.\<close>

definition ps_sample :: par_strategy where
  "ps_sample = \<lparr>ps_a = fst ps_loads, ps_b = snd ps_loads, ps_a_expect = 72, ps_b_expect = 44,
     ps_nrows = 0, ps_ncols = 0, ps_state = (\<lambda>_ _. INT_MAX), ps_new_state = (\<lambda>_ _. 0)\<rparr>"

lemma ps_sample_variance: "\<forall>l i. l < i \<longrightarrow> i \<le> PS_N \<longrightarrow> (\<exists>v. variance ps_sample l i = Some v \<and> v \<le> 100000)"
proof -
  have "list_all (\<lambda>i. list_all (\<lambda>l. case variance ps_sample l i of None \<Rightarrow> False | Some v \<Rightarrow> v \<le> 100000) [0..<i]) [0..<11]"
    by code_simp
  then have "case variance ps_sample l i of None \<Rightarrow> False | Some v \<Rightarrow> v \<le> 100000" if "l < i" "i \<le> PS_N" for l i
    using that by (auto simp: list_all_iff PS_N_def)
  then show ?thesis by (force split: option.splits)
qed

theorem par_matrix_optimal_witness:
  "ParStrategy_eval PS_N PS_P (ps_sample\<lparr>ps_nrows := PS_N, ps_ncols := PS_P\<rparr>) = None
    \<and> (\<exists>r cs. ParStrategy_eval PS_N PS_P (ps_sample\<lparr>ps_nrows := Suc PS_N, ps_ncols := Suc PS_P\<rparr>) = Some r
      \<and> segs PS_P PS_N cs \<and> pr_last r = seg_cost ps_sample 0 cs)"
proof -
  have "2 \<le> PS_P" "PS_P \<le> PS_N" "int PS_P * 100000 < INT_MAX" by (simp_all add: PS_P_def PS_N_def INT_MAX_def)
  from par_matrix_optimal [OF this ps_sample_variance] show ?thesis by blast
qed

section \<open>Counting with threads\<close>

declare stride.simps [simp del]

text \<open>The strides of the threads cover every block once.\<close>

lemma stride_set: "j \<in> set (stride i n) \<longleftrightarrow> i \<le> j \<and> j < n \<and> j mod CPU_CORE = i mod CPU_CORE"
proof (induction i n rule: stride.induct)
  case (1 i n)
  show ?case
  proof (cases "i < n")
    case True
    have "i + CPU_CORE \<le> j" if m: "j mod CPU_CORE = i mod CPU_CORE" "i \<le> j" "j \<noteq> i"
    proof -
      obtain q where "j = i + CPU_CORE * q" using m(1,2) by (metis mod_eq_nat1E)
      then show ?thesis using m(3) by (cases q) auto
    qed
    then show ?thesis using 1 [OF True] True by (subst stride.simps) auto
  qed (auto simp: stride.simps)
qed

lemma stride_distinct: "distinct (stride i n)"
proof (induction i n rule: stride.induct)
  case (1 i n)
  then show ?case by (subst stride.simps) (auto simp: stride_set CPU_CORE_def)
qed

lemma strides_cover: "mset (concat (map (\<lambda>i. stride i n) [0..<CPU_CORE])) = mset [0..<n]"
proof (rule set_eq_iff_mset_eq_distinct [THEN iffD1])
  show "distinct (concat (map (\<lambda>i. stride i n) [0..<CPU_CORE]))"
  proof -
    have "[0..<CPU_CORE] = [0, 1, 2, 3]" by (simp add: CPU_CORE_def upt_rec)
    moreover have "set (stride a n) \<inter> set (stride b n) = {}" if "a < CPU_CORE" "b < CPU_CORE" "a \<noteq> b" for a b
      using that by (auto simp: stride_set)
    ultimately show ?thesis by (simp add: stride_distinct CPU_CORE_def Int_Un_distrib)
  qed
  have "j \<in> set (stride (j mod CPU_CORE) n)" "j mod CPU_CORE < CPU_CORE" if "j < n" for j
    using that by (simp_all add: stride_set CPU_CORE_def)
  then show "set (concat (map (\<lambda>i. stride i n) [0..<CPU_CORE])) = set [0..<n]"
    by (fastforce simp: stride_set)
qed simp

lemma concat_map_concat: "concat (map f (concat xss)) = concat (map (\<lambda>xs. concat (map f xs)) xss)"
  by (induction xss) auto

definition rest :: "(nat \<Rightarrow> bytes list) \<Rightarrow> bytes list" where
  "rest q = concat (map q [0..<CPU_CORE])"

lemma rest_start:
  assumes tss: "those (map block_tuples blocks) = Some tss" and "\<forall>t < CPU_CORE. pthread_e blocks t = Some (q t)"
  shows "mset (rest q) = mset (concat tss)"
proof -
  have len: "length tss = length blocks" and nth: "\<forall>j < length blocks. block_tuples (blocks ! j) = Some (tss ! j)"
    using tss nth_map [of _ tss Some] nth_map [of _ blocks block_tuples] by (auto simp: those_iff dest: map_eq_imp_length_eq)
  have q: "q t = concat (map ((!) tss) (stride t (length blocks)))" if "t < CPU_CORE" for t
  proof -
    have "those (map (\<lambda>j. block_tuples (blocks ! j)) (stride t (length blocks)))
      = Some (map ((!) tss) (stride t (length blocks)))"
      using nth by (intro those_map_Some) (auto simp: stride_set)
    then show ?thesis using assms(2) that by (auto simp: pthread_e_def)
  qed
  have "rest q = concat (map ((!) tss) (concat (map (\<lambda>i. stride i (length blocks)) [0..<CPU_CORE])))"
    unfolding rest_def concat_map_concat using q by (auto simp: comp_def intro!: arg_cong [where f = concat])
  then have "mset (rest q) = mset (concat (map ((!) tss) [0..<length tss]))"
    using strides_cover [of "length blocks"] len by (simp add: mset_concat_map)
  then show ?thesis by (simp add: map_nth)
qed

definition num :: "nat \<Rightarrow> bytes list \<Rightarrow> nat" where
  "num i ts = length (filter (\<lambda>t. hist_index t = Some i) ts)"

definition countable_tuples :: "bytes list \<Rightarrow> bool" where
  "countable_tuples ts \<longleftrightarrow> (\<forall>t \<in> set ts. \<exists>i < HIST_SIZE. hist_index t = Some i)"

lemma num_mset: "mset ts = mset ts' \<Longrightarrow> num i ts = num i ts'"
  unfolding num_def by (metis mset_filter size_mset)

lemma num_Cons: "num i (t # ts) = (if hist_index t = Some i then Suc (num i ts) else num i ts)"
  by (simp add: num_def)

lemma num_le: "num i ts \<le> length ts"
  by (simp add: num_def)

lemma hist_count_spec:
  assumes "countable_tuples ts" and "\<forall>i. 0 \<le> h i \<and> h i + int (length ts) \<le> INT_MAX"
  shows "hist_count ts h = Some (\<lambda>i. h i + int (num i ts))"
  using assms
proof (induction ts arbitrary: h)
  case (Cons t ts)
  obtain i where i: "hist_index t = Some i" "i < HIST_SIZE" using Cons.prems(1) by (auto simp: countable_tuples_def)
  have "ck_int (h i + 1) = Some (h i + 1)"
    using Cons.prems(2) by (intro ck_int_ok) (auto simp: INT_MAX_def dest: spec [of _ i])
  moreover have "0 \<le> (h(i := h i + 1)) j \<and> (h(i := h i + 1)) j + int (length ts) \<le> INT_MAX" for j
    using spec [OF Cons.prems(2), of j] by auto
  then have "hist_count ts (h(i := h i + 1)) = Some (\<lambda>j. (h(i := h i + 1)) j + int (num j ts))"
    using Cons.prems(1) by (intro Cons.IH) (simp_all add: countable_tuples_def)
  ultimately show ?case using i by (auto simp: num_Cons fun_eq_iff)
qed (simp add: num_def)

text \<open>The tuples of the blocks of one stride, and what the threads have read and have still to count.\<close>

definition stride_tuples :: "block list \<Rightarrow> nat \<Rightarrow> bytes list" where
  "stride_tuples blocks j = the (pthread_e blocks j)"

definition read_num :: "block list \<Rightarrow> nat \<Rightarrow> nat option \<Rightarrow> nat" where
  "read_num blocks i a = (case a of None \<Rightarrow> 0 | Some j \<Rightarrow> num i (stride_tuples blocks j))"

definition hist_inv :: "bool \<Rightarrow> block list \<Rightarrow> hist1 \<Rightarrow> bool" where
  "hist_inv strict blocks s \<longleftrightarrow> h1_created s \<le> CPU_CORE
     \<and> (\<forall>t. h1_alive s = Some t \<longrightarrow> h1_slot s = t \<and> t < h1_created s)
     \<and> (0 < h1_created s \<longrightarrow> h1_slot s < CPU_CORE)
     \<and> (\<forall>t j. h1_arg s t = Some j \<longrightarrow> t < h1_created s \<and> j < CPU_CORE \<and> (strict \<longrightarrow> j = t))
     \<and> (\<forall>t. h1_arg s t = None \<longrightarrow> h1_q s t = [] \<and> \<not> h1_exited s t)
     \<and> (\<forall>t. h1_exited s t \<longrightarrow> h1_q s t = [])
     \<and> (\<forall>t. countable_tuples (h1_q s t))
     \<and> (\<forall>i. h1_count s i < 2 ^ 32
          \<and> wrap32 (h1_count s i + (\<Sum>t < CPU_CORE. num i (h1_q s t))) = wrap32 (\<Sum>t < CPU_CORE. read_num blocks i (h1_arg s t)))"

lemma stride_tuples_eq:
  assumes "those (map block_tuples blocks) = Some tss"
  shows "pthread_e blocks j = Some (stride_tuples blocks j)" "set (stride_tuples blocks j) \<subseteq> set (concat tss)"
proof -
  have "\<forall>i < length blocks. block_tuples (blocks ! i) = Some (tss ! i)" and len: "length tss = length blocks"
    using assms nth_map [of _ tss Some] nth_map [of _ blocks block_tuples] by (auto simp: those_iff dest: map_eq_imp_length_eq)
  then have "those (map (\<lambda>j. block_tuples (blocks ! j)) (stride j (length blocks))) = Some (map ((!) tss) (stride j (length blocks)))"
    by (intro those_map_Some) (auto simp: stride_set)
  then have e: "pthread_e blocks j = Some (concat (map ((!) tss) (stride j (length blocks))))" by (simp add: pthread_e_def)
  then show "pthread_e blocks j = Some (stride_tuples blocks j)" by (simp add: stride_tuples_def)
  have "\<forall>i \<in> set (stride j (length blocks)). tss ! i \<in> set tss" using len by (auto simp: stride_set)
  then show "set (stride_tuples blocks j) \<subseteq> set (concat tss)" using e by (auto simp: stride_tuples_def)
qed

text \<open>Changing one thread's entry changes one summand.\<close>

lemma sum_upd:
  assumes "t < (n :: nat)"
  shows "(\<Sum>u < n. g ((f(t := x)) u)) + g (f t) = (\<Sum>u < n. g (f u)) + (g x :: nat)"
proof -
  have "(\<Sum>u < n. g ((f(t := x)) u)) = g x + (\<Sum>u \<in> {..<n} - {t}. g (f u))"
    using assms by (subst sum.remove [of _ t]) (auto intro!: sum.cong)
  moreover have "(\<Sum>u < n. g (f u)) = g (f t) + (\<Sum>u \<in> {..<n} - {t}. g (f u))"
    using assms by (intro sum.remove) auto
  ultimately show ?thesis by simp
qed

lemma hist_counts_begin:
  assumes "wrap32 (c + P) = wrap32 R" "P' = P + k" "R' = R + (k::nat)"
  shows "wrap32 (c + P') = wrap32 R'"
  using assms by (metis add.assoc mod_add_left_eq)

lemma hist_counts_step:
  assumes "wrap32 (c + P) = wrap32 R" "P = Suc P'"
  shows "wrap32 (wrap32 (c + 1) + P') = wrap32 R"
  using assms by (simp add: mod_add_left_eq)

lemma hist_step_inv:
  assumes st: "hist_step strict blocks s (Some s')" and inv: "hist_inv strict blocks s"
    and tss: "those (map block_tuples blocks) = Some tss" "countable_tuples (concat tss)"
  shows "hist_inv strict blocks s'"
  using st
proof cases
  case create
  then show ?thesis using inv by (auto simp: hist_inv_def less_Suc_eq)
next
  case leave
  then show ?thesis using inv by (auto simp: hist_inv_def)
next
  case (begin_thread t ts)
  have ts: "ts = stride_tuples blocks (h1_slot s)" using begin_thread(5) stride_tuples_eq(1) [OF tss(1)] by simp
  have t: "t < CPU_CORE" and slot: "h1_slot s < CPU_CORE" "strict \<longrightarrow> h1_slot s = t" and q: "h1_q s t = []" "\<not> h1_exited s t"
    using begin_thread(2-4) inv by (auto simp: hist_inv_def args_live_def)
  have ct: "countable_tuples ts" using tss(2) stride_tuples_eq(2) [OF tss(1)] unfolding ts countable_tuples_def by blast
  have "wrap32 (h1_count s i + (\<Sum>u < CPU_CORE. num i (((h1_q s)(t := ts)) u)))
      = wrap32 (\<Sum>u < CPU_CORE. read_num blocks i (((h1_arg s)(t := Some (h1_slot s))) u))" for i
  proof (rule hist_counts_begin)
    show "wrap32 (h1_count s i + (\<Sum>t < CPU_CORE. num i (h1_q s t))) = wrap32 (\<Sum>t < CPU_CORE. read_num blocks i (h1_arg s t))"
      using inv by (simp add: hist_inv_def)
    show "(\<Sum>u < CPU_CORE. num i (((h1_q s)(t := ts)) u)) = (\<Sum>t < CPU_CORE. num i (h1_q s t)) + num i ts"
      using sum_upd [OF t, of "num i" "h1_q s" ts] q(1) by (simp add: num_def)
    show "(\<Sum>u < CPU_CORE. read_num blocks i (((h1_arg s)(t := Some (h1_slot s))) u))
        = (\<Sum>t < CPU_CORE. read_num blocks i (h1_arg s t)) + num i ts"
      using sum_upd [OF t, of "read_num blocks i" "h1_arg s" "Some (h1_slot s)"] begin_thread(3) by (simp add: read_num_def ts)
  qed
  then show ?thesis using inv begin_thread(1,2) slot q ct by (auto simp: hist_inv_def)
next
  case (count t x xs i)
  have t: "t < CPU_CORE" using inv count(2) unfolding hist_inv_def by (metis list.distinct(1) not_None_eq order_less_le_trans)
  have ct: "countable_tuples (x # xs)" using inv count(2) by (metis hist_inv_def)
  then have i: "wrap32 i = i" "i < HIST_SIZE" using count(4) by (auto simp: countable_tuples_def HIST_SIZE_def)
  have P: "(\<Sum>u < CPU_CORE. num j (h1_q s u)) = (\<Sum>u < CPU_CORE. num j (((h1_q s)(t := xs)) u)) + (if j = i then 1 else 0)" for j
    using sum_upd [OF t, of "num j" "h1_q s" xs] count(2,4) by (auto simp: num_Cons)
  have old: "wrap32 (h1_count s j + (\<Sum>u < CPU_CORE. num j (h1_q s u))) = wrap32 (\<Sum>u < CPU_CORE. read_num blocks j (h1_arg s u))" for j
    using inv by (simp add: hist_inv_def)
  have "wrap32 (increase i (h1_count s) j + (\<Sum>u < CPU_CORE. num j (((h1_q s)(t := xs)) u)))
      = wrap32 (\<Sum>u < CPU_CORE. read_num blocks j (h1_arg s u))" for j
    using old [of j] P [of j] hist_counts_step [of "h1_count s i" _ _ "\<Sum>u < CPU_CORE. num i (((h1_q s)(t := xs)) u)"]
    by (cases "j = i") (simp_all add: increase_def)
  moreover have "increase i (h1_count s) j < 2 ^ 32" for j using inv by (simp add: increase_def hist_inv_def)
  moreover have "h1_arg s t \<noteq> None" "\<not> h1_exited s t" using inv count(2) by (auto simp: hist_inv_def)
  ultimately show ?thesis using inv count(1) ct i(1) unfolding hist_inv_def
    by (auto simp: countable_tuples_def)
next
  case (exit t j)
  then show ?thesis using inv by (auto simp: hist_inv_def)
qed

lemma hist_reach_inv:
  assumes "(hist_next strict blocks)\<^sup>*\<^sup>* (Some (hist_start junk)) (Some s)"
    and "those (map block_tuples blocks) = Some tss" "countable_tuples (concat tss)"
  shows "hist_inv strict blocks s"
proof -
  have "\<forall>s. a = Some s \<longrightarrow> hist_inv strict blocks s" if "(hist_next strict blocks)\<^sup>*\<^sup>* (Some (hist_start junk)) a" for a
    using that
  proof (induction rule: rtranclp_induct)
    case base
    show ?case by (simp add: hist_inv_def hist_start_def countable_tuples_def num_def read_num_def)
  next
    case (step a b)
    then show ?case using hist_step_inv [OF _ _ assms(2,3)] by (auto simp: hist_next_def)
  qed
  then show ?thesis using assms(1) by blast
qed

text \<open>Until all threads have exited something can happen.\<close>

lemma hist_progress:
  assumes inv: "hist_inv strict blocks s" and tss: "those (map block_tuples blocks) = Some tss" and "\<not> hist_done s"
  shows "\<exists>r. hist_step strict blocks s r"
proof (cases "h1_created s < CPU_CORE")
  case True
  then show ?thesis by (cases "h1_alive s") (blast intro: hist_step.intros)+
next
  case False
  then obtain t where t: "t < h1_created s" "\<not> h1_exited s t" using assms(3) inv by (auto simp: hist_done_def hist_inv_def)
  show ?thesis
  proof (cases "args_live strict s t")
    case live: True
    show ?thesis
    proof (cases "h1_arg s t")
      case None
      then show ?thesis using hist_step.begin_thread [OF t(1) None live stride_tuples_eq(1) [OF tss]] by blast
    next
      case (Some j)
      show ?thesis
      proof (cases "h1_q s t")
        case Nil
        then show ?thesis using hist_step.exit [OF Some t(2) Nil live] by blast
      next
        case (Cons x xs)
        have "countable_tuples (x # xs)" using inv Cons by (metis hist_inv_def)
        then obtain i where "hist_index x = Some i" "wrap32 i < HIST_SIZE" by (auto simp: countable_tuples_def HIST_SIZE_def)
        then show ?thesis using hist_step.count [OF Cons live] by blast
      qed
    qed
  qed (use t hist_step.dead in blast)
qed

text \<open>When every thread has read its own index the strides add up to all tuples.\<close>

lemma own_total:
  assumes "those (map block_tuples blocks) = Some tss" "\<forall>t < CPU_CORE. a t = Some t"
  shows "(\<Sum>t < CPU_CORE. read_num blocks i (a t)) = num i (concat tss)"
proof -
  have "mset (rest (stride_tuples blocks)) = mset (concat tss)"
    using rest_start [OF assms(1)] stride_tuples_eq(1) [OF assms(1)] by blast
  then have "num i (concat tss) = num i (rest (stride_tuples blocks))" by (rule num_mset [OF sym])
  also have "\<dots> = (\<Sum>t < CPU_CORE. num i (stride_tuples blocks t))"
    by (simp add: rest_def num_def CPU_CORE_def upt_rec lessThan_Suc numeral_eq_Suc)
  finally show ?thesis using assms(2) by (simp add: read_num_def)
qed

text \<open>Thread 0 starts after the second iteration has stored its index, or after its own iteration has ended.\<close>

lemma late_read:
  assumes "those (map block_tuples blocks) = Some tss"
  shows "\<exists>s. (hist_next False blocks)\<^sup>*\<^sup>* (Some (hist_start junk)) (Some s) \<and> h1_arg s 0 = Some 1"
    and "(hist_next True blocks)\<^sup>*\<^sup>* (Some (hist_start junk)) None"
proof -
  let ?s = "hist_start junk"
  let ?s1 = "?s\<lparr>h1_slot := 0, h1_alive := Some 0, h1_created := 1\<rparr>"
  let ?s2 = "?s1\<lparr>h1_alive := None\<rparr>"
  let ?s3 = "?s2\<lparr>h1_slot := 1, h1_alive := Some 1, h1_created := 2\<rparr>"
  have c: "(0::nat) < CPU_CORE" "1 < CPU_CORE" by (simp_all add: CPU_CORE_def)
  have 1: "hist_next b blocks (Some ?s) (Some ?s1)" for b
    using hist_step.create [of ?s b blocks] c(1) by (simp add: hist_next_def hist_start_def)
  have 2: "hist_next b blocks (Some ?s1) (Some ?s2)" for b
    using hist_step.leave [of ?s1 0 b blocks] by (simp add: hist_next_def)
  have 3: "hist_next b blocks (Some ?s2) (Some ?s3)" for b
    using hist_step.create [of ?s2 b blocks] c(2) by (simp add: hist_next_def numeral_2_eq_2)
  have "hist_step False blocks ?s3 (Some (?s3\<lparr>h1_arg := (h1_arg ?s3)(0 := Some 1), h1_q := (h1_q ?s3)(0 := stride_tuples blocks 1)\<rparr>))"
    using hist_step.begin_thread [of 0 ?s3 False blocks "stride_tuples blocks 1"] stride_tuples_eq(1) [OF assms]
    by (simp add: args_live_def hist_start_def)
  then have "\<exists>s. hist_next False blocks (Some ?s3) (Some s) \<and> h1_arg s 0 = Some 1" by (auto simp: hist_next_def)
  then show "\<exists>s. (hist_next False blocks)\<^sup>*\<^sup>* (Some (hist_start junk)) (Some s) \<and> h1_arg s 0 = Some 1"
    using 1 2 3 by (meson r_into_rtranclp rtranclp.rtrancl_into_rtrancl)
  have "hist_step True blocks ?s2 None"
    using hist_step.dead [of 0 ?s2 True blocks] by (simp add: args_live_def hist_start_def)
  then have "hist_next True blocks (Some ?s2) None" by (simp add: hist_next_def)
  then show "(hist_next True blocks)\<^sup>*\<^sup>* (Some (hist_start junk)) None"
    using 1 2 by (meson r_into_rtranclp rtranclp.rtrancl_into_rtrancl)
qed

text \<open>
  C29. The threaded histogram, for keys in range and fewer than \<open>2^31\<close> tuples. Until all threads have exited
  some step is possible, and in every run, whatever the interleaving, in which each thread has read its own index, the
  counters are at the end those of \<open>Histogram::eval\<close>. The code does not make sure of that: each thread gets the
  address of the same loop variable, and there are runs in which thread 0 reads the index of thread 1. By
  the C++ standard (\<open>strict\<close>) such a read is undefined: then a run that ends has the right counters, and undefined
  runs exist.
\<close>

theorem histogram_threads_equiv:
  assumes "those (map block_tuples blocks) = Some tss" and "countable_tuples (concat tss)"
    and "length (concat tss) < 2 ^ 31"
  shows "\<exists>h. Histogram_eval blocks = Some h
    \<and> (\<forall>strict s. (hist_next strict blocks)\<^sup>*\<^sup>* (Some (hist_start junk)) (Some s) \<longrightarrow>
        (if hist_done s then strict \<or> (\<forall>t < CPU_CORE. h1_arg s t = Some t) \<longrightarrow> (\<forall>i. h i = int (h1_count s i))
         else \<exists>r. hist_step strict blocks s r))
    \<and> (\<exists>s. (hist_next False blocks)\<^sup>*\<^sup>* (Some (hist_start junk)) (Some s) \<and> h1_arg s 0 = Some 1)
    \<and> (hist_next True blocks)\<^sup>*\<^sup>* (Some (hist_start junk)) None"
proof -
  let ?h = "\<lambda>i. int (num i (concat tss))"
  have h: "Histogram_eval blocks = Some ?h"
    using hist_count_spec [OF assms(2), of "\<lambda>_. 0"] assms(1,3) by (simp add: Histogram_eval_def INT_MAX_def)
  have run: "if hist_done s then strict \<or> (\<forall>t < CPU_CORE. h1_arg s t = Some t) \<longrightarrow> (\<forall>i. ?h i = int (h1_count s i))
      else \<exists>r. hist_step strict blocks s r"
    if "(hist_next strict blocks)\<^sup>*\<^sup>* (Some (hist_start junk)) (Some s)" for strict s
  proof -
    note inv = hist_reach_inv [OF that assms(1,2)]
    have "?h i = int (h1_count s i)" if d: "hist_done s" "strict \<or> (\<forall>t < CPU_CORE. h1_arg s t = Some t)" for i
    proof -
      have "h1_arg s t \<noteq> None" if "t < CPU_CORE" for t using inv d(1) that by (auto simp: hist_inv_def hist_done_def)
      then have "\<forall>t < CPU_CORE. h1_arg s t = Some t" using d(2) inv by (fastforce simp: hist_inv_def)
      from own_total [OF assms(1) this] inv have "wrap32 (h1_count s i + (\<Sum>t < CPU_CORE. num i (h1_q s t))) = wrap32 (num i (concat tss))"
        by (simp add: hist_inv_def)
      moreover have "num i (h1_q s t) = 0" if "t < CPU_CORE" for t using inv d(1) that by (simp add: hist_inv_def hist_done_def num_def)
      moreover have "num i (concat tss) < 2 ^ 32" using num_le [of i "concat tss"] assms(3) by simp
      moreover have "h1_count s i < 2 ^ 32" using inv by (simp add: hist_inv_def)
      ultimately show ?thesis by simp
    qed
    then show ?thesis using hist_progress [OF inv assms(1)] by auto
  qed
  show ?thesis using h run late_read [OF assms(1)] by blast
qed

text \<open>Two tuples in one block.\<close>

theorem histogram_threads_equiv_witness:
  "\<exists>h. Histogram_eval [kv_image [] [kv_tuple 1 5, kv_tuple 2 77]] = Some h
    \<and> (\<exists>s. (hist_next False [kv_image [] [kv_tuple 1 5, kv_tuple 2 77]])\<^sup>*\<^sup>* (Some (hist_start 0)) (Some s) \<and> h1_arg s 0 = Some 1)
    \<and> (\<exists>r. hist_step True [kv_image [] [kv_tuple 1 5, kv_tuple 2 77]] (hist_start 0) r)"
proof -
  let ?ts = "[kv_tuple 1 5, kv_tuple 2 77]"
  let ?b = "kv_image [] ?ts"
  have b: "those (map block_tuples [?b]) = Some [?ts]" using block_tuples_image [of ?ts "[]"] by simp
  have ix: "hist_index (kv_tuple v k) = Some (k * HIST_SIZE div 10000000)" if "k < 1000" for v k
    using that by (simp add: hist_index_def HIST_SIZE_def)
  have ct: "countable_tuples (concat [?ts])" by (simp add: countable_tuples_def ix HIST_SIZE_def)
  have len: "length (concat [?ts]) < 2 ^ 31" by simp
  have nd: "\<not> hist_done (hist_start 0)" by (auto simp: hist_done_def hist_start_def CPU_CORE_def intro: exI [of _ 0])
  obtain h where h: "Histogram_eval [?b] = Some h"
    "\<exists>s. (hist_next False [?b])\<^sup>*\<^sup>* (Some (hist_start 0)) (Some s) \<and> h1_arg s 0 = Some 1"
    and run: "\<And>strict s. (hist_next strict [?b])\<^sup>*\<^sup>* (Some (hist_start 0)) (Some s) \<Longrightarrow>
      if hist_done s then strict \<or> (\<forall>t < CPU_CORE. h1_arg s t = Some t) \<longrightarrow> (\<forall>i. h i = int (h1_count s i))
      else \<exists>r. hist_step strict [?b] s r"
    using histogram_threads_equiv [OF b ct len, of 0] by blast
  have "\<exists>r. hist_step True [?b] (hist_start 0) r" using run [of True "hist_start 0"] nd by simp
  then show ?thesis using h by blast
qed

end
