(* ===== verification/Mosito_Threads.thy ===== *)
theory Mosito_Threads
  imports Mosito_Queue
begin

text \<open>
  The synchronisation of \<^verbatim>\<open>common/m_synchronize.h\<close> and the thread pool of
  \<^verbatim>\<open>common/m_thread_pool.cpp\<close>, as step relations: a step is one atomic action of one thread, and the
  scheduler is arbitrary. \<open>Lock\<close>, \<open>RWLock\<close> and \<open>Semaphore\<close> only wrap the pthread calls.
\<close>

section \<open>The spin lock\<close>

datatype spin_pc = Outside | Spinning | Inside

record spin =
  sp_l :: bool
  sp_pc :: "nat \<Rightarrow> spin_pc"

definition SpineLock :: spin where
  "SpineLock = \<lparr>sp_l = False, sp_pc = (\<lambda>_. Outside)\<rparr>"

text \<open>\<open>tas\<close> exchanges the lock byte with 1 and returns the old value.\<close>

definition tas :: "spin \<Rightarrow> bool \<times> spin" where
  "tas s = (sp_l s, s\<lparr>sp_l := True\<rparr>)"

definition fakelock :: "spin \<Rightarrow> nat" where
  "fakelock s = (if sp_l s then 1 else 0)"

inductive spin_step :: "spin \<Rightarrow> spin \<Rightarrow> bool" where
  call: "sp_pc s i = Outside \<Longrightarrow> spin_step s (s\<lparr>sp_pc := (sp_pc s)(i := Spinning)\<rparr>)"
| spin: "\<lbrakk>sp_pc s i = Spinning; tas s = (True, s')\<rbrakk> \<Longrightarrow> spin_step s s'"
| acquire: "\<lbrakk>sp_pc s i = Spinning; tas s = (False, s')\<rbrakk> \<Longrightarrow> spin_step s (s'\<lparr>sp_pc := (sp_pc s')(i := Inside)\<rparr>)"
| try_lock: "\<lbrakk>sp_pc s i = Outside; tas s = (r, s')\<rbrakk>
    \<Longrightarrow> spin_step s (s'\<lparr>sp_pc := (sp_pc s')(i := if r then Outside else Inside)\<rparr>)"
| release: "sp_pc s i = Inside \<Longrightarrow> spin_step s (s\<lparr>sp_l := False, sp_pc := (sp_pc s)(i := Outside)\<rparr>)"

definition spin_inv :: "spin \<Rightarrow> bool" where
  "spin_inv s \<longleftrightarrow> (if sp_l s then \<exists>!i. sp_pc s i = Inside else \<forall>i. sp_pc s i \<noteq> Inside)"

lemma spin_step_inv: "spin_step s s' \<Longrightarrow> spin_inv s \<Longrightarrow> spin_inv s'"
  by (induction rule: spin_step.induct)
    (auto simp: spin_inv_def tas_def split: if_splits, (metis spin_pc.distinct)+)

lemma spin_reach_inv: "spin_step\<^sup>*\<^sup>* SpineLock s \<Longrightarrow> spin_inv s"
proof (induction rule: rtranclp_induct)
  case base
  show ?case by (simp add: spin_inv_def SpineLock_def)
qed (rule spin_step_inv)

text \<open>
  C28. The spin lock excludes: in every state the threads can reach, at most one thread is between
  \<open>acquire\<close> and \<open>release\<close>, and when none is, any thread that spins gets the lock with its next \<open>tas\<close>.
\<close>

theorem spin_lock_excludes:
  assumes "spin_step\<^sup>*\<^sup>* SpineLock s"
  shows "(\<forall>i j. sp_pc s i = Inside \<longrightarrow> sp_pc s j = Inside \<longrightarrow> i = j)
    \<and> ((\<forall>i. sp_pc s i \<noteq> Inside) \<longrightarrow> (\<forall>i. sp_pc s i = Spinning \<longrightarrow> (\<exists>s'. spin_step s s' \<and> sp_pc s' i = Inside)))"
proof -
  have inv: "spin_inv s" using spin_reach_inv [OF assms] .
  moreover have "\<exists>s'. spin_step s s' \<and> sp_pc s' i = Inside" if "\<forall>i. sp_pc s i \<noteq> Inside" "sp_pc s i = Spinning" for i
  proof -
    have "\<not> sp_l s" using inv that(1) by (auto simp: spin_inv_def split: if_splits)
    then have "spin_step s (s\<lparr>sp_l := True, sp_pc := (sp_pc s)(i := Inside)\<rparr>)"
      using spin_step.acquire [OF that(2), of "s\<lparr>sp_l := True\<rparr>"] by (simp add: tas_def)
    then show ?thesis by (intro exI) auto
  qed
  ultimately show ?thesis by (auto simp: spin_inv_def split: if_splits)
qed

theorem spin_lock_excludes_witness:
  "\<exists>s. spin_step\<^sup>*\<^sup>* SpineLock s \<and> sp_pc s 1 = Inside \<and> (\<forall>j. sp_pc s j = Inside \<longrightarrow> 1 = j)"
proof -
  let ?s = "SpineLock\<lparr>sp_l := True, sp_pc := (sp_pc SpineLock)(1 := Inside)\<rparr>"
  have "spin_step SpineLock ?s"
    using spin_step.try_lock [of SpineLock 1 False "SpineLock\<lparr>sp_l := True\<rparr>"] by (simp add: SpineLock_def tas_def)
  then have r: "spin_step\<^sup>*\<^sup>* SpineLock ?s" by blast
  moreover have "sp_pc ?s 1 = Inside" by simp
  ultimately show ?thesis using spin_lock_excludes [OF r] by blast
qed

section \<open>The thread pool\<close>

text \<open>
  A worker runs \<open>single_thread\<close>: it locks, waits on the condition while the queue is empty, pops,
  unlocks and runs the task. A producer runs \<open>add_into_thread_pool\<close>: it locks and pushes until the
  push succeeds, signals and unlocks. \<open>pthread_cond_wait\<close> releases the mutex and locks it again when it
  is woken, by a signal or without one.
\<close>

datatype 'a pool_pc =
    WTop | WLocked | WWaiting | WWoken | WPopped 'a | WRun 'a
  | PTop 'a | PPush 'a | PPushed | PDone

record 'a pool =
  tp_pc :: "nat \<Rightarrow> 'a pool_pc"
  tp_lock :: "nat option"
  tp_queue :: "'a circle_queue"
  tp_ran :: "'a list"

inductive pool_step :: "'a pool \<Rightarrow> 'a pool \<Rightarrow> bool" where
  w_lock: "\<lbrakk>tp_pc s i = WTop; tp_lock s = None\<rbrakk>
    \<Longrightarrow> pool_step s (s\<lparr>tp_pc := (tp_pc s)(i := WLocked), tp_lock := Some i\<rparr>)"
| w_wait: "\<lbrakk>tp_pc s i = WLocked; cq_empty (tp_queue s)\<rbrakk>
    \<Longrightarrow> pool_step s (s\<lparr>tp_pc := (tp_pc s)(i := WWaiting), tp_lock := None\<rparr>)"
| w_spurious: "tp_pc s i = WWaiting \<Longrightarrow> pool_step s (s\<lparr>tp_pc := (tp_pc s)(i := WWoken)\<rparr>)"
| w_relock: "\<lbrakk>tp_pc s i = WWoken; tp_lock s = None\<rbrakk>
    \<Longrightarrow> pool_step s (s\<lparr>tp_pc := (tp_pc s)(i := WLocked), tp_lock := Some i\<rparr>)"
| w_pop: "\<lbrakk>tp_pc s i = WLocked; \<not> cq_empty (tp_queue s); cq_pop (tp_queue s) = Some (Some t, q)\<rbrakk>
    \<Longrightarrow> pool_step s (s\<lparr>tp_pc := (tp_pc s)(i := WPopped t), tp_queue := q\<rparr>)"
| w_unlock: "tp_pc s i = WPopped t \<Longrightarrow> pool_step s (s\<lparr>tp_pc := (tp_pc s)(i := WRun t), tp_lock := None\<rparr>)"
| w_run: "tp_pc s i = WRun t \<Longrightarrow> pool_step s (s\<lparr>tp_pc := (tp_pc s)(i := WTop), tp_ran := tp_ran s @ [t]\<rparr>)"
| p_lock: "\<lbrakk>tp_pc s i = PTop t; tp_lock s = None\<rbrakk>
    \<Longrightarrow> pool_step s (s\<lparr>tp_pc := (tp_pc s)(i := PPush t), tp_lock := Some i\<rparr>)"
| p_signal: "\<lbrakk>tp_pc s i = PPush t; cq_push t (tp_queue s) = Some (True, q); tp_pc s j = WWaiting\<rbrakk>
    \<Longrightarrow> pool_step s (s\<lparr>tp_pc := (tp_pc s)(i := PPushed, j := WWoken), tp_queue := q\<rparr>)"
| p_no_waiter: "\<lbrakk>tp_pc s i = PPush t; cq_push t (tp_queue s) = Some (True, q); \<forall>j. tp_pc s j \<noteq> WWaiting\<rbrakk>
    \<Longrightarrow> pool_step s (s\<lparr>tp_pc := (tp_pc s)(i := PPushed), tp_queue := q\<rparr>)"
| p_full: "\<lbrakk>tp_pc s i = PPush t; cq_push t (tp_queue s) = Some (False, q)\<rbrakk>
    \<Longrightarrow> pool_step s (s\<lparr>tp_queue := q\<rparr>)"
| p_unlock: "tp_pc s i = PPushed \<Longrightarrow> pool_step s (s\<lparr>tp_pc := (tp_pc s)(i := PDone), tp_lock := None\<rparr>)"

text \<open>A pool of \<open>nw\<close> workers, and one producer for each of the tasks.\<close>

definition pool_start :: "nat \<Rightarrow> nat \<Rightarrow> 'a list \<Rightarrow> 'a pool" where
  "pool_start nw cap ts = \<lparr>tp_pc = (\<lambda>i. if i < nw then WTop else if i - nw < length ts then PTop (ts ! (i - nw)) else PDone),
     tp_lock = None, tp_queue = mk_CircleQueue cap, tp_ran = []\<rparr>"

fun is_worker :: "'a pool_pc \<Rightarrow> bool" where
  "is_worker (PTop t) = False"
| "is_worker (PPush t) = False"
| "is_worker PPushed = False"
| "is_worker PDone = False"
| "is_worker _ = True"

fun has_lock :: "'a pool_pc \<Rightarrow> bool" where
  "has_lock WLocked = True"
| "has_lock (WPopped t) = True"
| "has_lock (PPush t) = True"
| "has_lock PPushed = True"
| "has_lock _ = False"

text \<open>The task a thread holds that is neither in the queue nor run.\<close>

fun in_hand :: "'a pool_pc \<Rightarrow> 'a multiset" where
  "in_hand (WPopped t) = {#t#}"
| "in_hand (WRun t) = {#t#}"
| "in_hand (PTop t) = {#t#}"
| "in_hand (PPush t) = {#t#}"
| "in_hand _ = {#}"

definition all_tasks :: "nat \<Rightarrow> 'a pool \<Rightarrow> 'a multiset" where
  "all_tasks n s = (\<Sum>i < n. in_hand (tp_pc s i)) + mset (cq_contents (tp_queue s)) + mset (tp_ran s)"

definition pool_inv :: "nat \<Rightarrow> 'a pool \<Rightarrow> bool" where
  "pool_inv nw s \<longleftrightarrow> cq_valid (tp_queue s) \<and> (\<forall>i. has_lock (tp_pc s i) \<longleftrightarrow> tp_lock s = Some i)
     \<and> (\<forall>i. is_worker (tp_pc s i) \<longleftrightarrow> i < nw)
     \<and> (cq_contents (tp_queue s) \<noteq> [] \<longrightarrow> (\<exists>i < nw. tp_pc s i \<noteq> WWaiting))"

lemma push_result:
  assumes "cq_valid q" "cq_push t q = Some (b, q')"
  shows "cq_valid q'" "cq_capacity q' = cq_capacity q"
    "if b then cq_contents q' = cq_contents q @ [t] else q' = q \<and> length (cq_contents q) = cq_capacity q"
  using assms(2) by (cases rule: cq.push_cases [OF assms(1), of t]; use assms(1) in auto)+

lemma pop_result:
  assumes "cq_valid q" "cq_pop q = Some (Some t, q')"
  shows "cq_valid q'" "cq_capacity q' = cq_capacity q" "cq_contents q = t # cq_contents q'"
  using assms cq.pop_empty [OF assms(1)] cq.pop_nonempty [OF assms(1)] by (cases "cq_contents q"; force)+

lemmas pool_results = push_result pop_result

lemma pool_step_valid: "pool_step s s' \<Longrightarrow> cq_valid (tp_queue s) \<Longrightarrow> cq_valid (tp_queue s')"
  by (induction rule: pool_step.induct) (auto dest: pool_results)

lemma pool_step_lock:
  assumes "pool_step s s'" and H: "\<And>i. has_lock (tp_pc s i) \<longleftrightarrow> tp_lock s = Some i"
  shows "has_lock (tp_pc s' k) \<longleftrightarrow> tp_lock s' = Some k"
  using assms(1)
proof cases
  case (p_signal i t q j)
  then show ?thesis using H [of k] H [of i] H [of j] by (cases "k = i"; cases "k = j"; simp)
next
  case (w_lock i)
  then show ?thesis using H [of k] by (cases "k = i"; simp)
next
  case (w_wait i)
  then show ?thesis using H [of k] H [of i] by (cases "k = i"; simp)
next
  case (w_spurious i)
  then show ?thesis using H [of k] H [of i] by (cases "k = i"; simp)
next
  case (w_relock i)
  then show ?thesis using H [of k] by (cases "k = i"; simp)
next
  case (w_pop i t q)
  then show ?thesis using H [of k] H [of i] by (cases "k = i"; simp)
next
  case (w_unlock i t)
  then show ?thesis using H [of k] H [of i] by (cases "k = i"; simp)
next
  case (w_run i t)
  then show ?thesis using H [of k] H [of i] by (cases "k = i"; simp)
next
  case (p_lock i t)
  then show ?thesis using H [of k] by (cases "k = i"; simp)
next
  case (p_no_waiter i t q)
  then show ?thesis using H [of k] H [of i] by (cases "k = i"; simp)
next
  case (p_full i t q)
  then show ?thesis using H [of k] by simp
next
  case (p_unlock i)
  then show ?thesis using H [of k] H [of i] by (cases "k = i"; simp)
qed

lemma pool_step_worker:
  "pool_step s s' \<Longrightarrow> is_worker (tp_pc s' i) \<longleftrightarrow> is_worker (tp_pc s i)"
  by (induction rule: pool_step.induct) auto

text \<open>No wake-up is lost: a worker waits only while the queue is empty, and a push wakes one.\<close>

lemma pool_step_awake:
  assumes "pool_step s s'" and v: "cq_valid (tp_queue s)" and nw: "0 < nw"
    and W: "\<And>i. is_worker (tp_pc s i) \<longleftrightarrow> i < nw"
    and A: "cq_contents (tp_queue s) \<noteq> [] \<Longrightarrow> \<exists>i < nw. tp_pc s i \<noteq> WWaiting"
    and ne: "cq_contents (tp_queue s') \<noteq> []"
  shows "\<exists>i < nw. tp_pc s' i \<noteq> WWaiting"
  using assms(1)
proof cases
  case (w_wait i)
  then show ?thesis using ne cq_empty_iff [OF v] by simp
next
  case (w_pop i t q)
  then show ?thesis using W [of i] by (intro exI [of _ i]) simp
next
  case (p_signal i t q j)
  then show ?thesis using W [of j] by (intro exI [of _ j]) simp
next
  case (p_no_waiter i t q)
  then show ?thesis using nw by (intro exI [of _ 0]) simp
next
  case (p_full i t q)
  then show ?thesis using A ne push_result(3) [OF v] by fastforce
qed (use A ne in \<open>fastforce split: if_splits\<close>)+

lemma sum_in_hand:
  assumes "i < (n::nat)"
  shows "(\<Sum>k < n. in_hand ((pc(i := x)) k)) + in_hand (pc i) = (\<Sum>k < n. in_hand (pc k)) + in_hand x"
proof -
  have f: "finite {..<n}" "i \<in> {..<n}" using assms by auto
  have "(\<Sum>k \<in> {..<n} - {i}. in_hand ((pc(i := x)) k)) = (\<Sum>k \<in> {..<n} - {i}. in_hand (pc k))"
    by (intro sum.cong) auto
  then show ?thesis unfolding sum.remove [OF f] by (simp add: algebra_simps)
qed

definition idle_above :: "nat \<Rightarrow> 'a pool \<Rightarrow> bool" where
  "idle_above n s \<longleftrightarrow> (\<forall>i \<ge> n. tp_pc s i = PDone)"

lemma idle_aboveD: "idle_above n s \<Longrightarrow> tp_pc s i \<noteq> PDone \<Longrightarrow> i < n"
  by (meson idle_above_def not_le)

lemma sum_in_hand_same:
  assumes "idle_above n s" "tp_pc s i \<noteq> PDone" "in_hand x = in_hand (tp_pc s i)"
  shows "(\<Sum>k < n. in_hand (if k = i then x else tp_pc s k)) = (\<Sum>k < n. in_hand (tp_pc s k))"
  using sum_in_hand [OF idle_aboveD [OF assms(1,2)], of "tp_pc s" x] assms(3) by simp

lemma pool_step_idle: "pool_step s s' \<Longrightarrow> idle_above n s \<Longrightarrow> idle_above n s'"
  by (induction rule: pool_step.induct) (auto simp: idle_above_def)

lemma pool_step_tasks:
  assumes "pool_step s s'" and v: "cq_valid (tp_queue s)" and idle: "idle_above n s"
  shows "all_tasks n s' = all_tasks n s"
  using assms(1)
proof cases
  case (w_pop i t q)
  then show ?thesis using sum_in_hand [of i n "tp_pc s" "WPopped t"] idle_aboveD [OF idle, of i] pop_result(3) [OF v]
    by (simp add: all_tasks_def)
next
  case (p_signal i t q j)
  then have "i \<noteq> j" by auto
  then show ?thesis
    using p_signal sum_in_hand [of i n "tp_pc s" PPushed] sum_in_hand [of j n "(tp_pc s)(i := PPushed)" WWoken]
      idle_aboveD [OF idle, of i] idle_aboveD [OF idle, of j] push_result(3) [OF v, of t True q]
    by (simp add: all_tasks_def)
next
  case (p_no_waiter i t q)
  then show ?thesis using sum_in_hand [of i n "tp_pc s" PPushed] idle_aboveD [OF idle, of i] push_result(3) [OF v, of t True q]
    by (simp add: all_tasks_def)
next
  case (p_full i t q)
  then show ?thesis using push_result(3) [OF v, of t False q] by (simp add: all_tasks_def)
next
  case (w_run i t)
  then show ?thesis using sum_in_hand [of i n "tp_pc s" WTop] idle_aboveD [OF idle, of i] by (simp add: all_tasks_def)
qed (use idle in \<open>simp_all add: all_tasks_def sum_in_hand_same\<close>)

lemma pool_step_inv:
  assumes "pool_step s s'" "0 < nw" "pool_inv nw s"
  shows "pool_inv nw s'"
proof -
  have v: "cq_valid (tp_queue s)" and H: "\<And>i. has_lock (tp_pc s i) \<longleftrightarrow> tp_lock s = Some i"
    and W: "\<And>i. is_worker (tp_pc s i) \<longleftrightarrow> i < nw"
    and A: "cq_contents (tp_queue s) \<noteq> [] \<Longrightarrow> \<exists>i < nw. tp_pc s i \<noteq> WWaiting"
    using assms(3) by (simp_all add: pool_inv_def)
  show ?thesis
    unfolding pool_inv_def
    using pool_step_valid [OF assms(1) v] pool_step_lock [OF assms(1) H] pool_step_worker [OF assms(1)] W
      pool_step_awake [OF assms(1) v assms(2) W A] by simp
qed

lemma pool_start_tasks:
  assumes "1 \<le> cap"
  shows "pool_inv nw (pool_start nw cap ts)" "idle_above (nw + length ts) (pool_start nw cap ts)"
    "all_tasks (nw + length ts) (pool_start nw cap ts) = mset ts"
proof -
  let ?s = "pool_start nw cap ts"
  have q: "cq_valid (tp_queue ?s)" "cq_contents (tp_queue ?s) = []"
    using assms by (simp_all add: pool_start_def)
  show "pool_inv nw ?s" unfolding pool_inv_def using q by (simp add: pool_start_def)
  show "idle_above (nw + length ts) ?s" by (auto simp: idle_above_def pool_start_def)
  have "(\<Sum>i < nw + k. in_hand (tp_pc ?s i)) = mset (take k ts)" if "k \<le> length ts" for k
    using that
  proof (induction k)
    case 0
    then show ?case by (simp add: pool_start_def)
  next
    case (Suc k)
    then show ?case by (simp add: take_Suc_conv_app_nth) (simp add: pool_start_def)
  qed
  from this [of "length ts"] show "all_tasks (nw + length ts) ?s = mset ts"
    unfolding all_tasks_def using q(2) by (simp add: pool_start_def)
qed

lemma pool_reach:
  assumes "0 < nw" "1 \<le> cap" "pool_step\<^sup>*\<^sup>* (pool_start nw cap ts) s"
  shows "pool_inv nw s \<and> idle_above (nw + length ts) s \<and> all_tasks (nw + length ts) s = mset ts"
  using assms(3)
proof (induction rule: rtranclp_induct)
  case base
  show ?case using pool_start_tasks [OF assms(2)] by blast
next
  case (step s s')
  then have "cq_valid (tp_queue s)" by (simp add: pool_inv_def)
  then show ?case using step pool_step_inv [OF step(2) assms(1)] pool_step_idle pool_step_tasks by metis
qed

text \<open>What a thread that holds the mutex, and one that does not need it, can do next.\<close>

lemma holder_moves:
  assumes "cq_valid (tp_queue s)" "has_lock (tp_pc s i)"
    and "\<And>t. tp_pc s i = PPush t \<Longrightarrow> length (cq_contents (tp_queue s)) \<noteq> cq_capacity (tp_queue s)"
  shows "\<exists>s'. pool_step s s' \<and> tp_pc s' i \<noteq> tp_pc s i"
proof (cases "tp_pc s i")
  case WLocked
  show ?thesis
  proof (cases "cq_empty (tp_queue s)")
    case True
    then show ?thesis using pool_step.w_wait [OF WLocked] WLocked by force
  next
    case False
    then obtain t ts where "cq_contents (tp_queue s) = t # ts" using cq_empty_iff [OF assms(1)] by (cases "cq_contents (tp_queue s)") auto
    then obtain q where "cq_pop (tp_queue s) = Some (Some t, q)" using cq.pop_nonempty [OF assms(1)] by blast
    then show ?thesis using pool_step.w_pop [OF WLocked False] WLocked by force
  qed
next
  case (WPopped t)
  then show ?thesis using pool_step.w_unlock [OF WPopped] by force
next
  case (PPush t)
  obtain q where q: "cq_push t (tp_queue s) = Some (True, q)"
    by (cases rule: cq.push_cases [OF assms(1), of t]) (use assms(3) PPush in auto)
  show ?thesis
  proof (cases "\<exists>j. tp_pc s j = WWaiting")
    case True
    then obtain j where j: "tp_pc s j = WWaiting" by blast
    then have "j \<noteq> i" using PPush by auto
    then show ?thesis using pool_step.p_signal [OF PPush q j] PPush by (intro exI conjI) auto
  next
    case False
    then show ?thesis using pool_step.p_no_waiter [OF PPush q] PPush by force
  qed
next
  case PPushed
  then show ?thesis using pool_step.p_unlock [OF PPushed] by force
qed (use assms(2) in simp_all)

lemma free_moves:
  assumes "tp_lock s = None" "\<not> has_lock (tp_pc s i)" "tp_pc s i \<noteq> WWaiting" "tp_pc s i \<noteq> PDone"
  shows "\<exists>s'. pool_step s s' \<and> tp_pc s' i \<noteq> tp_pc s i"
proof (cases "tp_pc s i")
  case WTop
  then show ?thesis using pool_step.w_lock [OF WTop assms(1)] by force
next
  case WWoken
  then show ?thesis using pool_step.w_relock [OF WWoken assms(1)] by force
next
  case (WRun t)
  then show ?thesis using pool_step.w_run [OF WRun] by force
next
  case (PTop t)
  then show ?thesis using pool_step.p_lock [OF PTop assms(1)] by force
qed (use assms in simp_all)

text \<open>
  C10. The thread pool runs every task it was given exactly once: in every reachable state the tasks run
  are among those submitted, none twice, and as long as some task has not been run either a producer
  spins on a full queue or some thread that is not waiting on the condition can go on (so no wake-up is
  lost).
\<close>

theorem pool_runs_each_once:
  assumes "0 < nw" "1 \<le> cap" "pool_step\<^sup>*\<^sup>* (pool_start nw cap ts) s"
  shows "mset (tp_ran s) \<subseteq># mset ts \<and> (mset (tp_ran s) = mset ts
    \<or> (\<exists>i t. tp_pc s i = PPush t \<and> length (cq_contents (tp_queue s)) = cq_capacity (tp_queue s))
    \<or> (\<exists>i s'. tp_pc s i \<noteq> WWaiting \<and> pool_step s s' \<and> tp_pc s' i \<noteq> tp_pc s i))"
proof -
  let ?n = "nw + length ts" and ?full = "length (cq_contents (tp_queue s)) = cq_capacity (tp_queue s)"
  have inv: "pool_inv nw s" "idle_above ?n s" "all_tasks ?n s = mset ts" using pool_reach [OF assms] by auto
  then have v: "cq_valid (tp_queue s)" and H: "\<And>i. has_lock (tp_pc s i) \<longleftrightarrow> tp_lock s = Some i"
    and W: "\<And>i. is_worker (tp_pc s i) \<longleftrightarrow> i < nw" by (simp_all add: pool_inv_def)
  have "\<exists>i s'. tp_pc s i \<noteq> WWaiting \<and> pool_step s s' \<and> tp_pc s' i \<noteq> tp_pc s i"
    if "mset (tp_ran s) \<noteq> mset ts" and nf: "\<nexists>i t. tp_pc s i = PPush t \<and> ?full"
  proof (cases "tp_lock s")
    case (Some j)
    then have "has_lock (tp_pc s j)" using H by simp
    then show ?thesis using holder_moves [OF v] nf by (metis has_lock.simps(6))
  next
    case None
    have "\<exists>i. tp_pc s i \<noteq> WWaiting \<and> tp_pc s i \<noteq> PDone"
    proof (cases "cq_contents (tp_queue s) = []")
      case True
      then have "(\<Sum>i < ?n. in_hand (tp_pc s i)) \<noteq> {#}" using that(1) inv(3) by (auto simp: all_tasks_def)
      then obtain i where "in_hand (tp_pc s i) \<noteq> {#}" by (meson sum.not_neutral_contains_not_neutral)
      then show ?thesis by (intro exI [of _ i]) auto
    next
      case False
      then obtain i where "i < nw" "tp_pc s i \<noteq> WWaiting" using inv(1) by (auto simp: pool_inv_def)
      then show ?thesis using W [of i] by (intro exI [of _ i]) auto
    qed
    then show ?thesis using free_moves [OF None] H None by (metis option.distinct(1))
  qed
  moreover have "mset (tp_ran s) \<subseteq># mset ts" unfolding inv(3) [symmetric] all_tasks_def by simp
  ultimately show ?thesis by blast
qed

lemma full_step:
  assumes "pool_step s s'" "pool_inv nw s" "tp_pc s i = PPush t" "length (cq_contents (tp_queue s)) = cq_capacity (tp_queue s)"
  shows "tp_pc s' i = PPush t \<and> tp_queue s' = tp_queue s"
proof -
  have v: "cq_valid (tp_queue s)" and H: "\<And>k. has_lock (tp_pc s k) \<longleftrightarrow> tp_lock s = Some k"
    using assms(2) by (simp_all add: pool_inv_def)
  have l: "tp_lock s = Some i" using H [of i] assms(3) by simp
  then have only: "has_lock (tp_pc s k) \<Longrightarrow> k = i" for k using H [of k] by simp
  have nopush: "cq_push u (tp_queue s) \<noteq> Some (True, q)" for u q
    using cq.push_full [OF v] assms(4) by simp
  from assms(1) show ?thesis
  proof cases
    case (w_wait k)
    then show ?thesis using only [of k] assms(3) by auto
  next
    case (w_pop k u q)
    then show ?thesis using only [of k] assms(3) by auto
  next
    case (w_unlock k u)
    then show ?thesis using only [of k] assms(3) by auto
  next
    case (p_unlock k)
    then show ?thesis using only [of k] assms(3) by auto
  next
    case (p_full k u q)
    then show ?thesis using push_result(3) [OF v, of u False q] assms(3) by simp
  qed (use l assms(3) nopush in auto)
qed

text \<open>
  C37. A producer that meets a full queue blocks the pool for ever: it keeps the mutex while it retries
  the push, so no worker can pop, and the queue and the producer never change again.
\<close>

theorem pool_full_livelock:
  assumes "0 < nw" "1 \<le> cap" "pool_step\<^sup>*\<^sup>* (pool_start nw cap ts) s"
    and "tp_pc s i = PPush t" "length (cq_contents (tp_queue s)) = cq_capacity (tp_queue s)" "pool_step\<^sup>*\<^sup>* s s'"
  shows "tp_pc s' i = PPush t \<and> tp_queue s' = tp_queue s"
  using assms(6)
proof (induction rule: rtranclp_induct)
  case (step s1 s2)
  have "pool_step\<^sup>*\<^sup>* (pool_start nw cap ts) s1" using assms(3) step(1) by (rule rtranclp_trans)
  then have "pool_inv nw s1" using pool_reach [OF assms(1,2)] by blast
  then show ?case using full_step [OF step(2), of nw i t] step(3) assms(5) by simp
qed (simp add: assms(4))

text \<open>One worker, a queue of one place and two producers.\<close>

lemma pool_full_reachable:
  "\<exists>s. pool_step\<^sup>*\<^sup>* (pool_start 1 1 [7::nat, 8]) s \<and> tp_pc s 2 = PPush 8
    \<and> length (cq_contents (tp_queue s)) = cq_capacity (tp_queue s)"
proof -
  let ?s = "pool_start 1 1 [7::nat, 8]"
  let ?s1 = "?s\<lparr>tp_pc := (tp_pc ?s)(1 := PPush 7), tp_lock := Some 1\<rparr>"
  have v: "cq_valid (tp_queue ?s)" "cq_contents (tp_queue ?s) = []" by (simp_all add: pool_start_def)
  have c: "cq_capacity (tp_queue ?s) = 1" by (simp add: pool_start_def mk_CircleQueue_eq)
  obtain q where q: "cq_push 7 (tp_queue ?s) = Some (True, q)" "cq_contents q = [7]" "cq_capacity q = 1"
    using cq.push_room [OF v(1), of 7] v c by auto
  let ?s2 = "?s1\<lparr>tp_pc := (tp_pc ?s1)(1 := PPushed), tp_queue := q\<rparr>"
  let ?s3 = "?s2\<lparr>tp_pc := (tp_pc ?s2)(1 := PDone), tp_lock := None\<rparr>"
  let ?s4 = "?s3\<lparr>tp_pc := (tp_pc ?s3)(2 := PPush 8), tp_lock := Some 2\<rparr>"
  have "pool_step ?s ?s1" by (rule pool_step.p_lock) (simp_all add: pool_start_def)
  moreover have "pool_step ?s1 ?s2" by (rule pool_step.p_no_waiter) (use q in \<open>simp_all add: pool_start_def\<close>)
  moreover have "pool_step ?s2 ?s3" by (rule pool_step.p_unlock) simp
  moreover have "pool_step ?s3 ?s4" by (rule pool_step.p_lock) (simp_all add: pool_start_def)
  ultimately have "pool_step\<^sup>*\<^sup>* ?s ?s4" by (meson converse_rtranclp_into_rtranclp r_into_rtranclp)
  moreover have "tp_pc ?s4 2 = PPush 8" "length (cq_contents (tp_queue ?s4)) = cq_capacity (tp_queue ?s4)"
    using q by simp_all
  ultimately show ?thesis by blast
qed

theorem pool_runs_each_once_witness:
  "\<exists>s. pool_step\<^sup>*\<^sup>* (pool_start 1 1 [7::nat, 8]) s \<and> tp_pc s 2 = PPush 8 \<and> mset (tp_ran s) \<subseteq># {#7, 8#}"
proof -
  obtain s where s: "pool_step\<^sup>*\<^sup>* (pool_start 1 1 [7::nat, 8]) s" "tp_pc s 2 = PPush 8" using pool_full_reachable by blast
  then have "mset (tp_ran s) \<subseteq># mset [7, 8]" using pool_runs_each_once [OF _ _ s(1)] by simp
  then show ?thesis using s by auto
qed

theorem pool_full_livelock_witness:
  "\<exists>s. pool_step\<^sup>*\<^sup>* (pool_start 1 1 [7::nat, 8]) s \<and> (\<forall>s'. pool_step\<^sup>*\<^sup>* s s' \<longrightarrow> tp_pc s' 2 = PPush 8)"
proof -
  obtain s where s: "pool_step\<^sup>*\<^sup>* (pool_start 1 1 [7::nat, 8]) s" "tp_pc s 2 = PPush 8"
    "length (cq_contents (tp_queue s)) = cq_capacity (tp_queue s)" using pool_full_reachable by blast
  then have "tp_pc s' 2 = PPush 8" if "pool_step\<^sup>*\<^sup>* s s'" for s'
    using pool_full_livelock [OF _ _ s that] by simp
  then show ?thesis using s(1) by blast
qed

section \<open>The barrier\<close>

text \<open>
  \<open>arrive\<close> counts under the mutex and waits with \<open>if\<close>, not \<open>while\<close>; the last thread broadcasts. Each
  rule is a critical section, or the return from \<open>pthread_cond_wait\<close> after the broadcast. A spurious
  return, which POSIX allows, is a rule of its own.
\<close>

datatype bar_pc = BBefore | BWait | BWoken | BAfter

record barrier =
  ba_nthreads :: nat
  ba_ncounts :: nat
  ba_pc :: "nat \<Rightarrow> bar_pc"

definition mk_Barrier :: "nat \<Rightarrow> barrier" where
  "mk_Barrier n = \<lparr>ba_nthreads = n, ba_ncounts = 0, ba_pc = (\<lambda>_. BBefore)\<rparr>"

inductive bar_step :: "barrier \<Rightarrow> barrier \<Rightarrow> bool" where
  arrive_wait: "\<lbrakk>ba_pc s i = BBefore; Suc (ba_ncounts s) < ba_nthreads s\<rbrakk>
    \<Longrightarrow> bar_step s (s\<lparr>ba_ncounts := Suc (ba_ncounts s), ba_pc := (ba_pc s)(i := BWait)\<rparr>)"
| arrive_last: "\<lbrakk>ba_pc s i = BBefore; \<not> Suc (ba_ncounts s) < ba_nthreads s\<rbrakk>
    \<Longrightarrow> bar_step s (s\<lparr>ba_ncounts := Suc (ba_ncounts s),
          ba_pc := (\<lambda>k. if k = i then BAfter else if ba_pc s k = BWait then BWoken else ba_pc s k)\<rparr>)"
| woken: "ba_pc s i = BWoken \<Longrightarrow> bar_step s (s\<lparr>ba_pc := (ba_pc s)(i := BAfter)\<rparr>)"

inductive bar_spurious :: "barrier \<Rightarrow> barrier \<Rightarrow> bool" where
  "ba_pc s i = BWait \<Longrightarrow> bar_spurious s (s\<lparr>ba_pc := (ba_pc s)(i := BAfter)\<rparr>)"

definition bar_inv :: "barrier \<Rightarrow> bool" where
  "bar_inv s \<longleftrightarrow> finite {i. ba_pc s i \<noteq> BBefore} \<and> ba_ncounts s = card {i. ba_pc s i \<noteq> BBefore}
     \<and> (ba_ncounts s < ba_nthreads s \<longrightarrow> (\<forall>i. ba_pc s i \<in> {BBefore, BWait}))
     \<and> (ba_nthreads s \<le> ba_ncounts s \<longrightarrow> (\<forall>i. ba_pc s i \<noteq> BWait))"

lemma bar_step_inv:
  assumes "bar_step s s'" "bar_inv s" "0 < ba_nthreads s"
  shows "bar_inv s' \<and> ba_nthreads s' = ba_nthreads s"
  using assms(1)
proof cases
  case (arrive_wait i)
  have "{k. ba_pc s' k \<noteq> BBefore} = insert i {k. ba_pc s k \<noteq> BBefore}" using arrive_wait by auto
  then show ?thesis using assms(2) arrive_wait by (auto simp: bar_inv_def)
next
  case (arrive_last i)
  have "{k. ba_pc s' k \<noteq> BBefore} = insert i {k. ba_pc s k \<noteq> BBefore}" using arrive_last by auto
  then show ?thesis using assms(2) arrive_last by (auto simp: bar_inv_def)
next
  case (woken i)
  have "{k. ba_pc s' k \<noteq> BBefore} = {k. ba_pc s k \<noteq> BBefore}" using woken by auto
  moreover have "\<not> ba_ncounts s < ba_nthreads s"
    using woken assms(2) unfolding bar_inv_def by (metis bar_pc.distinct(3,7) empty_iff insert_iff)
  ultimately show ?thesis using assms(2) woken by (auto simp: bar_inv_def)
qed

text \<open>
  The barrier holds in its first round: as long as \<open>pthread_cond_wait\<close> does not return without a
  broadcast, no thread is past the barrier before \<open>nthreads\<close> threads have arrived, and from then on no
  thread waits.
\<close>

theorem barrier_first_round:
  assumes "0 < n" "bar_step\<^sup>*\<^sup>* (mk_Barrier n) s"
  shows "(ba_pc s i = BAfter \<longrightarrow> n \<le> card {k. ba_pc s k \<noteq> BBefore})
    \<and> (n \<le> card {k. ba_pc s k \<noteq> BBefore} \<longrightarrow> (\<forall>k. ba_pc s k \<noteq> BWait))"
proof -
  have "bar_inv s \<and> ba_nthreads s = n"
    using assms(2)
  proof (induction rule: rtranclp_induct)
    case base
    show ?case by (simp add: bar_inv_def mk_Barrier_def)
  next
    case (step s1 s2)
    then show ?case using bar_step_inv [OF step(2)] assms(1) by simp
  qed
  then have c: "ba_ncounts s = card {k. ba_pc s k \<noteq> BBefore}" "ba_ncounts s < n \<Longrightarrow> ba_pc s i \<in> {BBefore, BWait}"
    "n \<le> ba_ncounts s \<Longrightarrow> \<forall>k. ba_pc s k \<noteq> BWait" by (simp_all add: bar_inv_def)
  then show ?thesis by (cases "ba_ncounts s < n") auto
qed

text \<open>Two threads through the barrier, and the same two with a spurious wake-up.\<close>

lemma barrier_waits:
  "bar_step\<^sup>*\<^sup>* (mk_Barrier 2) ((mk_Barrier 2)\<lparr>ba_ncounts := 1, ba_pc := (\<lambda>_. BBefore)(0 := BWait)\<rparr>)"
  using bar_step.arrive_wait [of "mk_Barrier 2" 0] by (auto simp: mk_Barrier_def)

theorem barrier_first_round_witness:
  "\<exists>s. bar_step\<^sup>*\<^sup>* (mk_Barrier 2) s \<and> ba_pc s 1 = BAfter \<and> 2 \<le> card {k. ba_pc s k \<noteq> BBefore} \<and> ba_pc s 0 \<noteq> BWait"
proof -
  let ?s = "(mk_Barrier 2)\<lparr>ba_ncounts := 1, ba_pc := (\<lambda>_. BBefore)(0 := BWait)\<rparr>"
  obtain s where s: "bar_step ?s s" "ba_pc s 1 = BAfter"
    using bar_step.arrive_last [of ?s 1] by (force simp: mk_Barrier_def)
  then have r: "bar_step\<^sup>*\<^sup>* (mk_Barrier 2) s" using barrier_waits by (meson rtranclp.rtrancl_into_rtrancl)
  then show ?thesis using barrier_first_round [OF _ r, of 1] s(2) by (intro exI [of _ s]) simp
qed

text \<open>
  After a spurious return the first thread is past the barrier although the second has not arrived: the
  wait stands under \<open>if\<close>, not \<open>while\<close>.
\<close>

lemma barrier_spurious_breaks:
  "\<exists>s s'. bar_step\<^sup>*\<^sup>* (mk_Barrier 2) s \<and> bar_spurious s s' \<and> ba_pc s' 0 = BAfter \<and> ba_pc s' 1 = BBefore"
  using bar_spurious.intros [of "(mk_Barrier 2)\<lparr>ba_ncounts := 1, ba_pc := (\<lambda>_. BBefore)(0 := BWait)\<rparr>" 0] barrier_waits
  by (intro exI conjI) (assumption, auto)

end
