(* ===== verification/Mosito_SmartPtr.thy ===== *)
theory Mosito_SmartPtr
  imports Mosito_Prelude
begin

text \<open>
  The reference-counting pointer of \<^verbatim>\<open>common/m_smart_ptr.h\<close>. The heap holds the \<open>Counter\<close> objects and
  the objects they own; the smart pointers are variables that hold the address of a counter. A read of a
  freed counter, a second delete and an overflow of \<open>count\<close> are undefined, the value None.
\<close>

record Counter =
  ctr_ptr :: nat
  ctr_count :: int

record sp_heap =
  sp_vars :: "nat \<rightharpoonup> nat"
  sp_ctrs :: "nat \<rightharpoonup> Counter"
  sp_objs :: "nat set"
  sp_freed :: "nat list"

definition sp_empty :: sp_heap where
  "sp_empty = \<lparr>sp_vars = Map.empty, sp_ctrs = Map.empty, sp_objs = {}, sp_freed = []\<rparr>"

text \<open>\<open>new Counter<T>(t)\<close> at a free address \<open>a\<close>, and \<open>delete\<close> of a counter, whose destructor deletes the object.\<close>

definition new_Counter :: "nat \<Rightarrow> nat \<Rightarrow> sp_heap \<Rightarrow> sp_heap" where
  "new_Counter a t s = s\<lparr>sp_ctrs := (sp_ctrs s)(a \<mapsto> \<lparr>ctr_ptr = t, ctr_count = 1\<rparr>)\<rparr>"

definition delete_Counter :: "nat \<Rightarrow> sp_heap \<Rightarrow> sp_heap option" where
  "delete_Counter a s = (case sp_ctrs s a of None \<Rightarrow> None
     | Some c \<Rightarrow> (if ctr_ptr c \<in> sp_objs s
         then Some (s\<lparr>sp_ctrs := (sp_ctrs s)(a := None), sp_objs := sp_objs s - {ctr_ptr c}, sp_freed := sp_freed s @ [ctr_ptr c]\<rparr>)
         else None))"

definition add_count :: "int \<Rightarrow> nat \<Rightarrow> sp_heap \<Rightarrow> (int \<times> sp_heap) option" where
  "add_count d a s = (case sp_ctrs s a of None \<Rightarrow> None
     | Some c \<Rightarrow> (case ck_int (ctr_count c + d) of None \<Rightarrow> None
         | Some n \<Rightarrow> Some (n, s\<lparr>sp_ctrs := (sp_ctrs s)(a \<mapsto> c\<lparr>ctr_count := n\<rparr>)\<rparr>)))"

text \<open>\<open>if(--ptr->count==0) delete ptr;\<close>\<close>

definition sp_release :: "nat \<Rightarrow> sp_heap \<Rightarrow> sp_heap option" where
  "sp_release a s = (case add_count (-1) a s of None \<Rightarrow> None
     | Some (n, s1) \<Rightarrow> (if n = 0 then delete_Counter a s1 else Some s1))"

definition sp_construct :: "nat \<Rightarrow> nat \<Rightarrow> nat \<Rightarrow> sp_heap \<Rightarrow> sp_heap" where
  "sp_construct x a t s = (new_Counter a t s)\<lparr>sp_vars := (sp_vars s)(x \<mapsto> a)\<rparr>"

definition sp_copy :: "nat \<Rightarrow> nat \<Rightarrow> sp_heap \<Rightarrow> sp_heap option" where
  "sp_copy x p s = (case sp_vars s p of None \<Rightarrow> None
     | Some a \<Rightarrow> map_option (\<lambda>(n, s1). s1\<lparr>sp_vars := (sp_vars s1)(x \<mapsto> a)\<rparr>) (add_count 1 a s))"

definition sp_assign :: "nat \<Rightarrow> nat \<Rightarrow> sp_heap \<Rightarrow> sp_heap option" where
  "sp_assign x p s = (case (sp_vars s x, sp_vars s p) of
       (Some a, Some b) \<Rightarrow> (case add_count 1 b s of None \<Rightarrow> None
         | Some (n, s1) \<Rightarrow> map_option (\<lambda>s2. s2\<lparr>sp_vars := (sp_vars s2)(x \<mapsto> b)\<rparr>) (sp_release a s1))
     | _ \<Rightarrow> None)"

definition sp_destroy :: "nat \<Rightarrow> sp_heap \<Rightarrow> sp_heap option" where
  "sp_destroy x s = (case sp_vars s x of None \<Rightarrow> None
     | Some a \<Rightarrow> map_option (\<lambda>s1. s1\<lparr>sp_vars := (sp_vars s1)(x := None)\<rparr>) (sp_release a s))"

text \<open>
  A program that uses the pointers: \<open>New x a t\<close> is \<open>SmartPtr<T> x(t)\<close> for a new object \<open>t\<close>, where the
  allocator returns \<open>a\<close>.
\<close>

datatype sp_op = New nat nat nat | Copy nat nat | Assign nat nat | Destroy nat

fun sp_exec :: "sp_op \<Rightarrow> sp_heap \<Rightarrow> sp_heap option" where
  "sp_exec (New x a t) s = (if sp_ctrs s a = None \<and> t \<notin> sp_objs s
     then Some (sp_construct x a t (s\<lparr>sp_objs := insert t (sp_objs s)\<rparr>)) else None)"
| "sp_exec (Copy x p) s = sp_copy x p s"
| "sp_exec (Assign x p) s = sp_assign x p s"
| "sp_exec (Destroy x) s = sp_destroy x s"

fun sp_run :: "sp_op list \<Rightarrow> sp_heap \<Rightarrow> sp_heap option" where
  "sp_run [] s = Some s"
| "sp_run (c # cs) s = (case sp_exec c s of None \<Rightarrow> None | Some s1 \<Rightarrow> sp_run cs s1)"

text \<open>
  What the language promises of a program: a variable is constructed once, used while it lives and
  destroyed once, and \<open>new\<close> returns objects and addresses that are not in use (here: never used before).
\<close>

fun scoped :: "nat list \<Rightarrow> nat list \<Rightarrow> nat list \<Rightarrow> sp_op list \<Rightarrow> bool" where
  "scoped V A T [] = True"
| "scoped V A T (New x a t # cs) = (x \<notin> set V \<and> a \<notin> set A \<and> t \<notin> set T \<and> scoped (x # V) (a # A) (t # T) cs)"
| "scoped V A T (Copy x p # cs) = (x \<notin> set V \<and> p \<in> set V \<and> scoped (x # V) A T cs)"
| "scoped V A T (Assign x p # cs) = (x \<in> set V \<and> p \<in> set V \<and> scoped V A T cs)"
| "scoped V A T (Destroy x # cs) = (x \<in> set V \<and> scoped (removeAll x V) A T cs)"

section \<open>The counts\<close>

text \<open>
  \<open>counted E s\<close>: every counter counts the variables that hold it and the \<open>E a\<close> references that an
  operation under way still has in its hands, and lives as long as there is one; the live objects are
  those the counters own.
\<close>

definition refs :: "sp_heap \<Rightarrow> nat \<Rightarrow> nat set" where
  "refs s a = {x. sp_vars s x = Some a}"

definition owner :: "(nat \<rightharpoonup> Counter) \<Rightarrow> nat \<Rightarrow> nat" where
  "owner m a = ctr_ptr (the (m a))"

definition owns :: "sp_heap \<Rightarrow> bool" where
  "owns s \<longleftrightarrow> inj_on (owner (sp_ctrs s)) (dom (sp_ctrs s)) \<and> sp_objs s = owner (sp_ctrs s) ` dom (sp_ctrs s)
     \<and> distinct (sp_freed s) \<and> set (sp_freed s) \<inter> sp_objs s = {}"

lemma owns_vars [simp]: "owns (s\<lparr>sp_vars := v\<rparr>) = owns s"
  by (simp add: owns_def)

lemma owns_count [simp]:
  assumes "sp_ctrs s a = Some c"
  shows "owns (s\<lparr>sp_ctrs := (sp_ctrs s)(a \<mapsto> c\<lparr>ctr_count := n\<rparr>)\<rparr>) = owns s"
proof -
  have "owner ((sp_ctrs s)(a \<mapsto> c\<lparr>ctr_count := n\<rparr>)) = owner (sp_ctrs s)" using assms by (auto simp: owner_def)
  moreover have "dom ((sp_ctrs s)(a \<mapsto> c\<lparr>ctr_count := n\<rparr>)) = dom (sp_ctrs s)" using assms by auto
  ultimately show ?thesis by (simp add: owns_def del: dom_fun_upd)
qed

definition counted :: "(nat \<Rightarrow> nat) \<Rightarrow> sp_heap \<Rightarrow> bool" where
  "counted E s \<longleftrightarrow> finite (dom (sp_vars s))
     \<and> (\<forall>a. a \<in> dom (sp_ctrs s) \<longleftrightarrow> refs s a \<noteq> {} \<or> 0 < E a)
     \<and> (\<forall>a c. sp_ctrs s a = Some c \<longrightarrow> ctr_count c = int (card (refs s a) + E a))
     \<and> owns s"

lemma finite_refs: "finite (dom (sp_vars s)) \<Longrightarrow> finite (refs s a)"
  by (rule finite_subset [of _ "dom (sp_vars s)"]) (auto simp: refs_def)

lemma refs_bound: "finite (dom (sp_vars s)) \<Longrightarrow> card (refs s a) \<le> card (dom (sp_vars s))"
  by (rule card_mono) (auto simp: refs_def)

lemma counted_bind:
  assumes "counted E s" "sp_vars s x = None" "E a = Suc e"
  shows "counted (E(a := e)) (s\<lparr>sp_vars := (sp_vars s)(x \<mapsto> a)\<rparr>)"
proof -
  let ?s = "s\<lparr>sp_vars := (sp_vars s)(x \<mapsto> a)\<rparr>"
  have r: "refs ?s k = (if k = a then insert x (refs s a) else refs s k)" for k using assms(2) by (auto simp: refs_def)
  have "x \<notin> refs s a" "finite (refs s a)" using assms(1,2) finite_refs by (auto simp: refs_def counted_def)
  then show ?thesis using assms unfolding counted_def r by auto
qed

lemma counted_unbind:
  assumes "counted E s" "sp_vars s x = Some a"
  shows "counted (E(a := Suc (E a))) (s\<lparr>sp_vars := (sp_vars s)(x := None)\<rparr>)"
proof -
  let ?s = "s\<lparr>sp_vars := (sp_vars s)(x := None)\<rparr>"
  have r: "refs ?s k = (if k = a then refs s a - {x} else refs s k)" for k using assms(2) by (auto simp: refs_def)
  have x: "x \<in> refs s a" "finite (refs s a)" using assms finite_refs by (auto simp: refs_def counted_def)
  then have "card (refs s a) = Suc (card (refs s a - {x}))" by (metis card.remove)
  then show ?thesis using assms x unfolding counted_def r by auto
qed

lemma counted_add:
  assumes "counted E s" "refs s a \<noteq> {} \<or> 0 < E a" "int (card (refs s a) + E a) < INT_MAX"
  shows "\<exists>n s'. add_count 1 a s = Some (n, s') \<and> counted (E(a := Suc (E a))) s' \<and> sp_vars s' = sp_vars s
    \<and> sp_freed s' = sp_freed s \<and> sp_objs s' = sp_objs s \<and> dom (sp_ctrs s') = dom (sp_ctrs s)"
proof -
  have "a \<in> dom (sp_ctrs s)" using assms(1,2) by (simp add: counted_def)
  then obtain c where c: "sp_ctrs s a = Some c" by blast
  then have cc: "ctr_count c = int (card (refs s a) + E a)" using assms(1) by (simp add: counted_def)
  let ?c = "c\<lparr>ctr_count := ctr_count c + 1\<rparr>"
  let ?s = "s\<lparr>sp_ctrs := (sp_ctrs s)(a \<mapsto> ?c)\<rparr>"
  have "add_count 1 a s = Some (ctr_count c + 1, ?s)"
    using c cc assms(3) by (simp add: add_count_def ck_int_def INT_MAX_def)
  moreover have "counted (E(a := Suc (E a))) ?s"
  proof -
    have r: "refs ?s k = refs s k" for k by (simp add: refs_def)
    have "owns ?s" using assms(1) c by (simp add: counted_def)
    then show ?thesis using assms(1,2) c cc unfolding counted_def r by auto
  qed
  ultimately show ?thesis using c by (intro exI conjI) (assumption | simp add: insert_absorb domI)+
qed

lemma counted_delete:
  assumes "counted E s1" "E a = Suc 0" "refs s1 a = {}" and c: "sp_ctrs s1 a = Some c"
    and s: "s = s1\<lparr>sp_ctrs := (sp_ctrs s1)(a \<mapsto> c\<lparr>ctr_count := k\<rparr>)\<rparr>"
  shows "\<exists>s'. delete_Counter a s = Some s' \<and> counted (E(a := 0)) s' \<and> sp_vars s' = sp_vars s
    \<and> set (sp_freed s') \<union> sp_objs s' = set (sp_freed s1) \<union> sp_objs s1"
proof -
  let ?m = "(sp_ctrs s1)(a := None)"
  let ?s = "s1\<lparr>sp_ctrs := ?m, sp_objs := sp_objs s1 - {ctr_ptr c}, sp_freed := sp_freed s1 @ [ctr_ptr c]\<rparr>"
  have o: "sp_objs s1 = owner (sp_ctrs s1) ` dom (sp_ctrs s1)" and i: "inj_on (owner (sp_ctrs s1)) (dom (sp_ctrs s1))"
    and f: "distinct (sp_freed s1)" "set (sp_freed s1) \<inter> sp_objs s1 = {}" using assms(1) unfolding counted_def owns_def by blast+
  have pc: "ctr_ptr c = owner (sp_ctrs s1) a" "a \<in> dom (sp_ctrs s1)" using c by (auto simp: owner_def)
  then have in_o: "ctr_ptr c \<in> sp_objs s1" using o by blast
  have d: "dom ?m = dom (sp_ctrs s1) - {a}" by auto
  have P: "k \<in> dom ?m \<Longrightarrow> owner ?m k = owner (sp_ctrs s1) k" for k by (auto simp: owner_def)
  have i': "inj_on (owner ?m) (dom ?m)"
    using inj_on_subset [OF i, of "dom ?m"] d P inj_on_cong [of "dom ?m" "owner ?m" "owner (sp_ctrs s1)"] by blast
  have "owner ?m ` dom ?m = owner (sp_ctrs s1) ` (dom (sp_ctrs s1) - {a})" using P d by (metis image_cong)
  also have "\<dots> = sp_objs s1 - {ctr_ptr c}"
    using inj_on_image_set_diff [OF i, of "dom (sp_ctrs s1)" "{a}"] pc o by auto
  finally have ow: "owns ?s" using i' f in_o by (auto simp: owns_def)
  have r: "refs ?s k = refs s1 k" for k by (simp add: refs_def)
  have "counted (E(a := 0)) ?s"
    using assms(1-3) ow unfolding counted_def r by auto
  moreover have "delete_Counter a s = Some ?s" using in_o by (simp add: delete_Counter_def s)
  ultimately show ?thesis using in_o by (intro exI) (auto simp: s)
qed

lemma counted_release:
  assumes "counted E s" "E a = Suc e" "int (card (refs s a) + E a) \<le> INT_MAX"
  shows "\<exists>s'. sp_release a s = Some s' \<and> counted (E(a := e)) s' \<and> sp_vars s' = sp_vars s
    \<and> set (sp_freed s') \<union> sp_objs s' = set (sp_freed s) \<union> sp_objs s"
proof -
  have "a \<in> dom (sp_ctrs s)" using assms(1,2) by (simp add: counted_def)
  then obtain c where c: "sp_ctrs s a = Some c" by blast
  then have cc: "ctr_count c = int (card (refs s a)) + int e + 1" using assms(1,2) by (simp add: counted_def)
  let ?n = "int (card (refs s a) + e)"
  let ?s = "s\<lparr>sp_ctrs := (sp_ctrs s)(a \<mapsto> c\<lparr>ctr_count := ?n\<rparr>)\<rparr>"
  have a: "add_count (-1) a s = Some (?n, ?s)"
    using c cc assms(2,3) by (simp add: add_count_def ck_int_def INT_MAX_def)
  show ?thesis
  proof (cases "?n = 0")
    case True
    have "finite (refs s a)" using assms(1) finite_refs by (simp add: counted_def)
    then have z: "e = 0" "refs s a = {}" using True by (simp_all flip: of_nat_add)
    show ?thesis
      using counted_delete [OF assms(1) _ z(2) c refl, of ?n] assms(2) z a by (simp add: sp_release_def)
  next
    case False
    have r: "refs ?s k = refs s k" for k by (simp add: refs_def)
    have "owns ?s" using assms(1) c by (simp add: counted_def)
    moreover have "refs s a \<noteq> {} \<or> 0 < e" using False by auto
    ultimately have "counted (E(a := e)) ?s" using assms(1,2) c unfolding counted_def r by auto
    then show ?thesis using a False by (simp add: sp_release_def)
  qed
qed

lemma release_vars:
  "sp_release a (s\<lparr>sp_vars := v\<rparr>) = map_option (\<lambda>s'. s'\<lparr>sp_vars := v\<rparr>) (sp_release a s)"
  by (cases "sp_ctrs s a"; cases "ck_int (ctr_count (the (sp_ctrs s a)) - 1)")
    (auto simp: sp_release_def add_count_def delete_Counter_def)

section \<open>The operations\<close>

definition sp_safe :: "nat list \<Rightarrow> nat list \<Rightarrow> nat list \<Rightarrow> sp_heap \<Rightarrow> bool" where
  "sp_safe V A T s \<longleftrightarrow> counted (\<lambda>_. 0) s \<and> dom (sp_vars s) = set V \<and> dom (sp_ctrs s) \<subseteq> set A
     \<and> set (sp_freed s) \<union> sp_objs s = set T"

lemma sp_copy_safe:
  assumes "counted (\<lambda>_. 0) s" "sp_vars s p = Some a" "sp_vars s x = None" "int (card (dom (sp_vars s))) < INT_MAX"
  shows "\<exists>s'. sp_copy x p s = Some s' \<and> counted (\<lambda>_. 0) s' \<and> sp_vars s' = (sp_vars s)(x \<mapsto> a)
    \<and> sp_freed s' = sp_freed s \<and> sp_objs s' = sp_objs s \<and> dom (sp_ctrs s') = dom (sp_ctrs s)"
proof -
  have "refs s a \<noteq> {}" using assms(2) by (auto simp: refs_def)
  moreover have "int (card (refs s a)) < INT_MAX" using refs_bound [of s a] assms(1,4) by (simp add: counted_def)
  ultimately obtain n s1 where s1: "add_count 1 a s = Some (n, s1)" "counted ((\<lambda>_. 0)(a := Suc 0)) s1" "sp_vars s1 = sp_vars s"
    "sp_freed s1 = sp_freed s" "sp_objs s1 = sp_objs s" "dom (sp_ctrs s1) = dom (sp_ctrs s)"
    using counted_add [OF assms(1), of a] by auto
  then show ?thesis
    using counted_bind [OF s1(2), of x a 0] assms(2,3) by (auto simp: sp_copy_def fun_upd_def if_distrib cong: if_cong)
qed

lemma sp_release_safe:
  assumes "counted E s" "sp_vars s x = Some a" "int (card (dom (sp_vars s)) + E a) < INT_MAX"
  shows "\<exists>s'. sp_release a s = Some s' \<and> counted E (s'\<lparr>sp_vars := (sp_vars s)(x := None)\<rparr>) \<and> sp_vars s' = sp_vars s
    \<and> set (sp_freed s') \<union> sp_objs s' = set (sp_freed s) \<union> sp_objs s"
proof -
  let ?s = "s\<lparr>sp_vars := (sp_vars s)(x := None)\<rparr>" and ?E = "E(a := Suc (E a))"
  have c: "counted ?E ?s" using counted_unbind [OF assms(1,2)] .
  have f: "finite (dom (sp_vars s))" using assms(1) by (simp add: counted_def)
  have "refs ?s a \<subseteq> dom (sp_vars s)" by (auto simp: refs_def split: if_splits)
  then have "card (refs ?s a) \<le> card (dom (sp_vars s))" using f by (rule card_mono [rotated])
  then have b: "int (card (refs ?s a) + ?E a) \<le> INT_MAX" using assms(3) by simp
  obtain s2 where s2: "sp_release a ?s = Some s2" "counted (?E(a := E a)) s2"
    "sp_vars s2 = sp_vars ?s" "set (sp_freed s2) \<union> sp_objs s2 = set (sp_freed s) \<union> sp_objs s"
    using counted_release [OF c, of a "E a"] b by auto
  obtain s1 where s1: "sp_release a s = Some s1" "s2 = s1\<lparr>sp_vars := (sp_vars s)(x := None)\<rparr>"
    using s2(1) by (auto simp: release_vars)
  have "sp_vars s1 = sp_vars s" using s1(1)
    by (auto simp: sp_release_def add_count_def delete_Counter_def split: option.splits if_splits)
  then show ?thesis using s1 s2 by simp
qed

lemma release_ctrs: "sp_release a s = Some s' \<Longrightarrow> dom (sp_ctrs s') \<subseteq> dom (sp_ctrs s)"
  by (auto simp: sp_release_def add_count_def delete_Counter_def split: option.splits if_splits)

lemma sp_destroy_safe:
  assumes "counted (\<lambda>_. 0) s" "sp_vars s x = Some a" "int (card (dom (sp_vars s))) < INT_MAX"
  shows "\<exists>s'. sp_destroy x s = Some s' \<and> counted (\<lambda>_. 0) s' \<and> sp_vars s' = (sp_vars s)(x := None)
    \<and> set (sp_freed s') \<union> sp_objs s' = set (sp_freed s) \<union> sp_objs s \<and> dom (sp_ctrs s') \<subseteq> dom (sp_ctrs s)"
proof -
  obtain s1 where s1: "sp_release a s = Some s1" "counted (\<lambda>_. 0) (s1\<lparr>sp_vars := (sp_vars s)(x := None)\<rparr>)"
    "sp_vars s1 = sp_vars s" "set (sp_freed s1) \<union> sp_objs s1 = set (sp_freed s) \<union> sp_objs s"
    using sp_release_safe [OF assms(1,2)] assms(3) by auto
  show ?thesis using s1 release_ctrs [OF s1(1)] assms(2) by (simp add: sp_destroy_def)
qed

text \<open>Self-assignment included: the count of the right side goes up before that of the left goes down.\<close>

lemma sp_assign_safe:
  assumes "counted (\<lambda>_. 0) s" "sp_vars s x = Some a" "sp_vars s p = Some b" "int (card (dom (sp_vars s)) + 1) < INT_MAX"
  shows "\<exists>s'. sp_assign x p s = Some s' \<and> counted (\<lambda>_. 0) s' \<and> sp_vars s' = (sp_vars s)(x \<mapsto> b)
    \<and> set (sp_freed s') \<union> sp_objs s' = set (sp_freed s) \<union> sp_objs s \<and> dom (sp_ctrs s') \<subseteq> dom (sp_ctrs s)"
proof -
  let ?E = "(\<lambda>_. 0)(b := Suc 0)"
  have "refs s b \<noteq> {}" using assms(3) by (auto simp: refs_def)
  moreover have "int (card (refs s b)) < INT_MAX" using refs_bound [of s b] assms(1,4) by (simp add: counted_def)
  ultimately obtain n s1 where s1: "add_count 1 b s = Some (n, s1)" "counted ?E s1" "sp_vars s1 = sp_vars s"
    "sp_freed s1 = sp_freed s" "sp_objs s1 = sp_objs s" "dom (sp_ctrs s1) = dom (sp_ctrs s)"
    using counted_add [OF assms(1), of b] by auto
  have "int (card (dom (sp_vars s1)) + ?E a) < INT_MAX" using assms(4) s1(3) by (auto split: if_splits)
  then obtain s2 where s2: "sp_release a s1 = Some s2" "counted ?E (s2\<lparr>sp_vars := (sp_vars s)(x := None)\<rparr>)"
    "sp_vars s2 = sp_vars s" "set (sp_freed s2) \<union> sp_objs s2 = set (sp_freed s) \<union> sp_objs s"
    using sp_release_safe [OF s1(2), of x a] assms(2) s1(3-5) by auto
  have "counted (\<lambda>_. 0) (s2\<lparr>sp_vars := (sp_vars s)(x \<mapsto> b)\<rparr>)"
    using counted_bind [OF s2(2), of x b 0] by (simp add: fun_upd_def if_distrib cong: if_cong)
  then show ?thesis using s1 s2 release_ctrs [OF s2(1)] assms(2,3) by (simp add: sp_assign_def)
qed

lemma counted_zeroD:
  assumes "counted (\<lambda>_. 0) s"
  shows "dom (sp_ctrs s) = ran (sp_vars s)" "sp_objs s = owner (sp_ctrs s) ` ran (sp_vars s)"
proof -
  show d: "dom (sp_ctrs s) = ran (sp_vars s)" using assms by (auto simp: counted_def refs_def ran_def)
  show "sp_objs s = owner (sp_ctrs s) ` ran (sp_vars s)" using assms unfolding counted_def owns_def d by blast
qed

lemma sp_new_safe:
  assumes "counted (\<lambda>_. 0) s" "sp_vars s x = None" "sp_ctrs s a = None" "t \<notin> sp_objs s" "t \<notin> set (sp_freed s)"
  shows "counted (\<lambda>_. 0) (sp_construct x a t (s\<lparr>sp_objs := insert t (sp_objs s)\<rparr>))"
proof -
  let ?m = "(sp_ctrs s)(a \<mapsto> \<lparr>ctr_ptr = t, ctr_count = 1\<rparr>)"
  let ?s = "s\<lparr>sp_objs := insert t (sp_objs s), sp_ctrs := ?m\<rparr>"
  have d: "dom ?m = insert a (dom (sp_ctrs s))" by auto
  have P: "k \<in> dom (sp_ctrs s) \<Longrightarrow> owner ?m k = owner (sp_ctrs s) k" for k using assms(3) by (auto simp: owner_def)
  have a: "owner ?m a = t" by (simp add: owner_def)
  have "owns s" using assms(1) by (simp add: counted_def)
  then have o: "inj_on (owner (sp_ctrs s)) (dom (sp_ctrs s))" "sp_objs s = owner (sp_ctrs s) ` dom (sp_ctrs s)"
    "distinct (sp_freed s)" "set (sp_freed s) \<inter> sp_objs s = {}" unfolding owns_def by blast+
  have im: "owner ?m ` dom (sp_ctrs s) = sp_objs s" using P o(2) by simp
  have "inj_on (owner ?m) (dom ?m)"
    unfolding d using o(1) inj_on_cong [of "dom (sp_ctrs s)" "owner ?m" "owner (sp_ctrs s)"] P a im assms(4) by (auto simp: inj_on_insert)
  moreover have "insert t (sp_objs s) = owner ?m ` dom ?m" unfolding d using im a by simp
  moreover have "set (sp_freed s) \<inter> insert t (sp_objs s) = {}" using o(4) assms(5) by simp
  ultimately have "owns ?s" using o(3) unfolding owns_def by simp
  moreover have r: "refs ?s k = refs s k" for k by (simp add: refs_def)
  moreover have "refs s a = {}"
  proof -
    have "a \<notin> dom (sp_ctrs s)" using assms(3) by auto
    then show ?thesis using assms(1) by (simp add: counted_def)
  qed
  ultimately have "counted ((\<lambda>_. 0)(a := Suc 0)) ?s"
    using assms(1) unfolding counted_def r by auto
  from counted_bind [OF this, of x a 0] show ?thesis
    using assms(2) by (simp add: sp_construct_def new_Counter_def fun_upd_def if_distrib cong: if_cong)
qed

lemma safe_bound: "sp_safe V A T s \<Longrightarrow> x \<in> set V \<Longrightarrow> \<exists>a. sp_vars s x = Some a"
  and safe_free: "sp_safe V A T s \<Longrightarrow> x \<notin> set V \<Longrightarrow> sp_vars s x = None"
  unfolding sp_safe_def by blast+

lemma sp_run_safe:
  assumes "scoped V A T cs" "sp_safe V A T s" "int (card (set V) + length cs) < INT_MAX"
  shows "\<exists>s' V' A' T'. sp_run cs s = Some s' \<and> sp_safe V' A' T' s'"
  using assms
proof (induction V A T cs arbitrary: s rule: scoped.induct)
  case (1 V A T)
  then show ?case by auto
next
  case (2 V A T x a t cs)
  have n: "sp_vars s x = None" "sp_ctrs s a = None" "t \<notin> sp_objs s" "t \<notin> set (sp_freed s)"
    using 2(2,3) safe_free [OF 2(3)] by (auto simp: sp_safe_def)
  let ?s = "sp_construct x a t (s\<lparr>sp_objs := insert t (sp_objs s)\<rparr>)"
  have "sp_safe (x # V) (a # A) (t # T) ?s"
    using 2(2,3) sp_new_safe [OF _ n] by (auto simp: sp_safe_def) (auto simp: sp_construct_def new_Counter_def split: if_splits)
  then show ?case using 2(1) [of ?s] 2(2,4) n by simp
next
  case (3 V A T x p cs)
  obtain a where "sp_vars s p = Some a" "sp_vars s x = None" using 3(2) safe_bound [OF 3(3)] safe_free [OF 3(3)] by auto
  then obtain s' where s': "sp_copy x p s = Some s'" "counted (\<lambda>_. 0) s'" "sp_vars s' = (sp_vars s)(x \<mapsto> a)"
    "sp_freed s' = sp_freed s" "sp_objs s' = sp_objs s" "dom (sp_ctrs s') = dom (sp_ctrs s)"
    using sp_copy_safe [of s p a x] 3(3,4) by (auto simp: sp_safe_def)
  then have "sp_safe (x # V) A T s'" using 3(3) by (simp add: sp_safe_def)
  then show ?case using 3(1) [of s'] 3(2,4) s'(1) by simp
next
  case (4 V A T x p cs)
  obtain a b where "sp_vars s x = Some a" "sp_vars s p = Some b" 
    using 4(2) safe_bound [OF 4(3), of x] safe_bound [OF 4(3), of p] by auto
  then obtain s' where s': "sp_assign x p s = Some s'" "counted (\<lambda>_. 0) s'" "sp_vars s' = (sp_vars s)(x \<mapsto> b)"
    "set (sp_freed s') \<union> sp_objs s' = set (sp_freed s) \<union> sp_objs s" "dom (sp_ctrs s') \<subseteq> dom (sp_ctrs s)"
    using sp_assign_safe [of s x a p b] 4(3,4) by (auto simp: sp_safe_def)
  moreover have "insert x (set V) = set V" using 4(2) by auto
  ultimately have "sp_safe V A T s'" using 4(3) by (simp add: sp_safe_def) blast
  then show ?case using 4(1) [of s'] 4(2,4) s'(1) by simp
next
  case (5 V A T x cs)
  obtain a where "sp_vars s x = Some a" using 5(2) safe_bound [OF 5(3)] by auto
  then obtain s' where s': "sp_destroy x s = Some s'" "counted (\<lambda>_. 0) s'" "sp_vars s' = (sp_vars s)(x := None)"
    "set (sp_freed s') \<union> sp_objs s' = set (sp_freed s) \<union> sp_objs s" "dom (sp_ctrs s') \<subseteq> dom (sp_ctrs s)"
    using sp_destroy_safe [of s x a] 5(3,4) by (auto simp: sp_safe_def)
  then have "sp_safe (removeAll x V) A T s'" using 5(3) by (simp add: sp_safe_def) blast
  moreover have "card (set (removeAll x V)) \<le> card (set V)" by (simp add: card_mono)
  ultimately show ?case using 5(1) [of s'] 5(2,4) s'(1) by simp
qed

text \<open>
  C20. Smart pointers free what they own exactly once: a program that follows the scoping rules of the
  language runs without reading a freed counter and without a second delete, whatever it constructs,
  copies, assigns (to itself too) and destroys; at its end each counter counts the smart pointers that
  hold it, the objects alive are those some smart pointer still holds, and the objects deleted are
  distinct and none of them is alive.
\<close>

theorem smart_ptr_safe:
  assumes "scoped [] [] [] cs" "length cs < 2147483647"
  shows "\<exists>s. sp_run cs sp_empty = Some s
    \<and> (\<forall>a c. sp_ctrs s a = Some c \<longrightarrow> ctr_count c = int (card {x. sp_vars s x = Some a}))
    \<and> sp_objs s = {ctr_ptr c |c. \<exists>x a. sp_vars s x = Some a \<and> sp_ctrs s a = Some c}
    \<and> distinct (sp_freed s) \<and> set (sp_freed s) \<inter> sp_objs s = {}"
proof -
  have "sp_safe [] [] [] sp_empty" by (simp add: sp_safe_def sp_empty_def counted_def refs_def owns_def)
  moreover have "int (card (set []) + length cs) < INT_MAX" using assms(2) by (simp add: INT_MAX_def)
  ultimately obtain s V A T where s: "sp_run cs sp_empty = Some s" "sp_safe V A T s"
    using sp_run_safe [OF assms(1)] by blast
  then have c: "counted (\<lambda>_. 0) s" by (simp add: sp_safe_def)
  have f: "distinct (sp_freed s)" "set (sp_freed s) \<inter> sp_objs s = {}" using c unfolding counted_def owns_def by blast+
  have n: "ctr_count k = int (card {x. sp_vars s x = Some a})" if "sp_ctrs s a = Some k" for a k
    using c that by (simp add: counted_def refs_def)
  have "sp_objs s = {ctr_ptr c |c. \<exists>x a. sp_vars s x = Some a \<and> sp_ctrs s a = Some c}" (is "_ = ?O")
  proof
    show "sp_objs s \<subseteq> ?O"
    proof
      fix t assume "t \<in> sp_objs s"
      then obtain a where a: "a \<in> ran (sp_vars s)" "t = owner (sp_ctrs s) a" using counted_zeroD(2) [OF c] by blast
      then obtain k where "sp_ctrs s a = Some k" using counted_zeroD(1) [OF c] by blast
      then show "t \<in> ?O" using a by (auto simp: owner_def ran_def)
    qed
    show "?O \<subseteq> sp_objs s" unfolding counted_zeroD(2) [OF c] by (force simp: owner_def ran_def)
  qed
  then show ?thesis using s(1) f n by blast
qed

text \<open>A pointer, its copy and a second object: self-assignment, assignment over the last owner, and the end of the scope.\<close>

theorem smart_ptr_safe_witness:
  "\<exists>s. sp_run [New 1 100 7, Copy 2 1, Assign 1 1, New 3 101 8, Assign 3 2, Destroy 2, Destroy 1, Destroy 3] sp_empty = Some s
    \<and> distinct (sp_freed s) \<and> sp_freed s = [8, 7]"
proof -
  let ?cs = "[New 1 100 7, Copy 2 1, Assign 1 1, New 3 101 8, Assign 3 2, Destroy 2, Destroy 1, Destroy 3]"
  obtain s where s: "sp_run ?cs sp_empty = Some s" "distinct (sp_freed s)" using smart_ptr_safe [of ?cs] by auto
  have "\<exists>s. sp_run ?cs sp_empty = Some s \<and> sp_freed s = [8, 7]"
    by (simp add: sp_empty_def sp_construct_def new_Counter_def sp_copy_def sp_assign_def sp_destroy_def sp_release_def
      add_count_def delete_Counter_def ck_int_def INT_MAX_def)
  then show ?thesis using s by auto
qed

end
