(* ===== verification/Mosito_Operators.thy ===== *)
theory Mosito_Operators
  imports Mosito_Queue Mosito_Schema
begin

text \<open>
  The pull interface \<open>QueryPlan\<close> of \<^verbatim>\<open>physical/m_query_plan.h\<close> and three operators with it:
  \<open>Scan\<close> (\<^verbatim>\<open>physical/m_scan.cpp\<close>) over the \<open>MemoryStore\<close> (\<^verbatim>\<open>storage/m_memory_store.h\<close>), \<open>Project\<close>
  (\<^verbatim>\<open>physical/m_project.cpp\<close>) and \<open>Debug\<close> (\<^verbatim>\<open>physical/m_debug.cpp\<close>), in the configuration of
  \<^verbatim>\<open>m_configuration.h\<close> (\<open>EXPERIMENT_TEST\<close>, \<open>TIMING\<close> and \<open>SINGLE_NODE_TEST\<close> defined).

  A child operator is a state and an \<open>execute\<close> function on it. The contract is the locale
  \<open>query_plan\<close>: \<open>rest s\<close> are the block images the operator will still hand out. \<open>Scan\<close> is an instance;
  \<open>Debug\<close> and \<open>Project\<close> are proved against the contract.
\<close>

type_synonym 's executor = "'s \<Rightarrow> block \<Rightarrow> (bool \<times> 's \<times> block) option"

section \<open>Scan\<close>

record memory_store =
  ms_blocks :: "string \<rightharpoonup> block list"

definition MemoryStore :: memory_store where
  "MemoryStore = \<lparr>ms_blocks = Map.empty\<rparr>"

text \<open>\<open>isCached\<close> answers true when the store is empty.\<close>

definition isCached :: "memory_store \<Rightarrow> bool" where
  "isCached ms \<longleftrightarrow> ms_blocks ms = Map.empty"

record scan =
  sc_file_path :: string
  sc_vd :: NewSchema
  sc_filename :: string
  sc_cursor :: nat
  sc_iscached :: bool

definition mk_Scan :: "NewSchema \<Rightarrow> string \<Rightarrow> scan" where
  "mk_Scan vd path = \<lparr>sc_file_path = path, sc_vd = vd, sc_filename = [], sc_cursor = 0, sc_iscached = False\<rparr>"

text \<open>
  The reading loop. \<open>fread\<close> returns \<open>BLOCK_SIZE\<close> bytes as long as the file has them, then the rest,
  then 0. The buffer keeps what an earlier read left behind the bytes read; \<open>junk i\<close> is the content
  of the block malloc'ed for the \<open>i\<close>-th read.
\<close>

function fread_loop :: "(nat \<Rightarrow> bytes) \<Rightarrow> bytes \<Rightarrow> bytes \<Rightarrow> nat \<Rightarrow> block list option" where
  "fread_loop junk buffer fdata i =
     (if fdata = [] then Some []
      else do {
        let sz = min BLOCK_SIZE (length fdata);
        buffer' \<leftarrow> wr_bytes buffer 0 (take sz fdata);
        b \<leftarrow> storeBlock (mk_Block (junk i) 0) buffer' sz;
        bs \<leftarrow> fread_loop junk buffer' (drop sz fdata) (Suc i);
        Some (b # bs)
      })"
  by pat_completeness auto
termination
  by (relation "measure (\<lambda>(junk, buffer, fdata, i). length fdata)") (auto simp: BLOCK_SIZE_def)

declare fread_loop.simps [simp del]

text \<open>
  \<open>prelude\<close>: \<open>files\<close> is the file system, \<open>ip\<close> the worker's address, \<open>buffer\<close> the content of the new
  \<open>buffer_\<close>. A file that cannot be opened makes \<open>fread\<close> use a null stream. \<open>filename_\<close> is a string
  stream: a second call appends to it.
\<close>

definition Scan_prelude :: "(string \<rightharpoonup> bytes) \<Rightarrow> string \<Rightarrow> (nat \<Rightarrow> bytes) \<Rightarrow> bytes \<Rightarrow> scan \<times> memory_store \<Rightarrow>
    (scan \<times> memory_store) option" where
  "Scan_prelude files ip junk buffer s =
     (let sc = fst s; ms = snd s; name = sc_filename sc @ sc_file_path sc @ ''.'' @ ip in do {
      ms' \<leftarrow> (case ms_blocks ms name of
                Some _ \<Rightarrow> Some ms
              | None \<Rightarrow> do {
                  fdata \<leftarrow> files name;
                  bs \<leftarrow> fread_loop junk buffer fdata 0;
                  Some (ms\<lparr>ms_blocks := (ms_blocks ms)(name \<mapsto> bs)\<rparr>)
                });
      Some (sc\<lparr>sc_filename := name, sc_cursor := 0, sc_iscached := isCached ms'\<rparr>, ms')
    })"

text \<open>\<open>blocks_[name]\<close> inserts an empty vector for an unknown name.\<close>

definition stored :: "memory_store \<Rightarrow> string \<Rightarrow> block list" where
  "stored ms name = (case ms_blocks ms name of None \<Rightarrow> [] | Some bs \<Rightarrow> bs)"

definition Scan_execute :: "(scan \<times> memory_store) executor" where
  "Scan_execute s block =
     (let sc = fst s; ms = snd s; bs = stored ms (sc_filename sc);
          ms' = ms\<lparr>ms_blocks := (ms_blocks ms)(sc_filename sc \<mapsto> bs)\<rparr> in
      if sc_cursor sc < length bs then do {
        block' \<leftarrow> storeBlock block (blk_mem (bs ! sc_cursor sc)) BLOCK_SIZE;
        Some (True, (sc\<lparr>sc_cursor := wrap32 (sc_cursor sc + 1)\<rparr>, ms'), block')
      }
      else Some (False, (sc, ms'), block))"

definition Scan_newoutput :: "scan \<Rightarrow> NewSchema" where
  "Scan_newoutput sc = sc_vd sc"

section \<open>Debug\<close>

record 's debug =
  dbg_child :: 's
  dbg_buffer :: block
  dbg_count :: int
  dbg_schema :: Schema

text \<open>\<open>prelude\<close> with the child's \<open>prelude\<close> and \<open>newoutput\<close>; \<open>junk\<close> is the content of the new buffer.\<close>

definition Debug_prelude :: "('s \<Rightarrow> 's option) \<Rightarrow> ('s \<Rightarrow> NewSchema) \<Rightarrow> bytes \<Rightarrow> 's \<Rightarrow> 's debug option" where
  "Debug_prelude prelude newoutput junk s = do {
     s' \<leftarrow> prelude s;
     let schema = Schema_of_NewSchema (newoutput s');
     Some \<lparr>dbg_child = s', dbg_buffer = mk_Block junk (get_bytes schema), dbg_count = 0, dbg_schema = schema\<rparr>
   }"

text \<open>The inner loop counts the tuples of one block; the count is an \<open>int\<close>.\<close>

fun count_loop :: "nat \<Rightarrow> block \<Rightarrow> iter \<Rightarrow> int \<Rightarrow> int option" where
  "count_loop 0 b it n = None"
| "count_loop (Suc fuel) b it n = do {
     (p, it') \<leftarrow> getNext b it;
     case p of
       None \<Rightarrow> Some n
     | Some _ \<Rightarrow> do { n' \<leftarrow> ck_int (n + 1); count_loop fuel b it' n' }
   }"

text \<open>
  The outer loop ends when the child returns false, which is the fuel's concern; the inner one runs
  once for each of the at most \<open>2 ^ 32\<close> tuples.
\<close>

fun Debug_execute :: "'s executor \<Rightarrow> nat \<Rightarrow> 's debug \<Rightarrow> (bool \<times> 's debug) option" where
  "Debug_execute exec 0 d = None"
| "Debug_execute exec (Suc fuel) d = do {
     (more, s', b) \<leftarrow> exec (dbg_child d) (dbg_buffer d);
     if more then do {
       sz \<leftarrow> get_size b;
       n \<leftarrow> count_loop (Suc sz) b createIterator (dbg_count d);
       Debug_execute exec fuel (d\<lparr>dbg_child := s', dbg_buffer := b, dbg_count := n\<rparr>)
     }
     else Some (True, d\<lparr>dbg_child := s', dbg_buffer := b\<rparr>)
   }"

text \<open>What \<open>display\<close> prints for a tuple: nothing for a type that is neither \<open>int\<close> nor \<open>long\<close>.\<close>

definition Debug_print :: "data_type \<Rightarrow> bytes \<Rightarrow> nat \<Rightarrow> string option" where
  "Debug_print ty tuple off =
     (if ty = t_int then map_option (\<lambda>v. show_int (int_of_u32 v) @ '' | '') (rd_u32 tuple off)
      else if ty = t_long then map_option (\<lambda>v. dec v @ '' | '') (rd_u64 tuple off)
      else Some [])"

definition Debug_display :: "Schema \<Rightarrow> bytes \<Rightarrow> string option" where
  "Debug_display schema tuple = do {
     cols \<leftarrow> those (map (\<lambda>i. do {
       d \<leftarrow> getDataType schema i;
       a \<leftarrow> get_addr schema i;
       Debug_print (get_type d) tuple a
     }) [0..<get_columns schema]);
     Some (concat cols @ [CHR 0x0A])
   }"

section \<open>Project\<close>

record 's project =
  pj_child :: 's
  pj_buffer :: block
  pj_iter :: "iter option"

definition Project_prelude :: "('s \<Rightarrow> 's option) \<Rightarrow> ('s \<Rightarrow> data_type list) \<Rightarrow> bytes \<Rightarrow> 's \<Rightarrow> 's project option" where
  "Project_prelude prelude outp junk s = do {
     s' \<leftarrow> prelude s;
     Some \<lparr>pj_child = s', pj_buffer = mk_Block junk (get_bytes (Schema_of_exprs (outp s'))), pj_iter = None\<rparr>
   }"

text \<open>
  One round of the loop on a place \<open>desc\<close>. With no iterator yet and no block from the child the code
  calls \<open>getNext\<close> on a null iterator; a fresh block with no tuple makes it store from a null pointer.
\<close>

definition pj_round :: "'s executor \<Rightarrow> 's project \<Rightarrow> block \<Rightarrow> nat \<Rightarrow> (bool \<times> 's project \<times> block) option" where
  "pj_round exec p block desc = do {
     p1 \<leftarrow> (case pj_iter p of
              Some _ \<Rightarrow> Some p
            | None \<Rightarrow> do {
                (more, s', b) \<leftarrow> exec (pj_child p) (pj_buffer p);
                Some (p\<lparr>pj_child := s', pj_buffer := b, pj_iter := if more then Some createIterator else None\<rparr>)
              });
     it \<leftarrow> pj_iter p1;
     (src, it') \<leftarrow> getNext (pj_buffer p1) it;
     case src of
       Some off \<Rightarrow> do {
         t \<leftarrow> rd_bytes (blk_mem (pj_buffer p1)) off (blk_tuple_size block);
         block' \<leftarrow> storeTuple block desc t;
         Some (True, p1\<lparr>pj_iter := Some it'\<rparr>, block')
       }
     | None \<Rightarrow> do {
         (more, s', b) \<leftarrow> exec (pj_child p1) (pj_buffer p1);
         if more then do {
           (src', it2) \<leftarrow> getNext b createIterator;
           off \<leftarrow> src';
           t \<leftarrow> rd_bytes (blk_mem b) off (blk_tuple_size block);
           block' \<leftarrow> storeTuple block desc t;
           Some (True, p1\<lparr>pj_child := s', pj_buffer := b, pj_iter := Some it2\<rparr>, block')
         }
         else Some (False, p1\<lparr>pj_child := s', pj_buffer := b, pj_iter := Some it'\<rparr>, block)
       }
   }"

text \<open>Every round that stores moves \<open>free_\<close>, so the size of the block bounds the rounds.\<close>

fun pj_loop :: "'s executor \<Rightarrow> nat \<Rightarrow> 's project \<Rightarrow> block \<Rightarrow> (bool \<times> 's project \<times> block) option" where
  "pj_loop exec 0 p block = None"
| "pj_loop exec (Suc fuel) p block =
     (case allocateTuple block of
        None \<Rightarrow> Some (True, p, block)
      | Some desc \<Rightarrow> do {
          (more, p', block') \<leftarrow> pj_round exec p block desc;
          if more then pj_loop exec fuel p' block' else Some (False, p', block')
        })"

definition Project_execute :: "'s executor \<Rightarrow> 's project executor" where
  "Project_execute exec p block = pj_loop exec (Suc (blk_size block)) p (blk_reset block)"

section \<open>The contract\<close>

text \<open>Pulling an operator until it returns false: the images it handed out.\<close>

fun pull_all :: "'s executor \<Rightarrow> nat \<Rightarrow> 's \<Rightarrow> block \<Rightarrow> (bytes list \<times> 's) option" where
  "pull_all exec 0 s b = None"
| "pull_all exec (Suc fuel) s b = do {
     (more, s', b') \<leftarrow> exec s b;
     if more then do { (js, s'') \<leftarrow> pull_all exec fuel s' b'; Some (blk_mem b' # js, s'') }
     else Some ([], s')
   }"

text \<open>The count in the tail of an image and the tuples an iterator reads from it.\<close>

definition image_count :: "bytes \<Rightarrow> nat" where
  "image_count i = le_val (drop (BLOCK_SIZE - 4) i)"

definition image_tuples :: "nat \<Rightarrow> bytes \<Rightarrow> bytes list" where
  "image_tuples k i = map (\<lambda>j. take k (drop (j * k) i)) [0..<image_count i]"

definition image_ok :: "nat \<Rightarrow> bytes \<Rightarrow> bool" where
  "image_ok k i \<longleftrightarrow> length i = BLOCK_SIZE \<and> 0 < image_count i \<and> image_count i * k \<le> BLOCK_SIZE"

text \<open>A block as operators pass it: \<open>BLOCK_SIZE\<close> bytes.\<close>

definition std_block :: "nat \<Rightarrow> block \<Rightarrow> bool" where
  "std_block k b \<longleftrightarrow> length (blk_mem b) = BLOCK_SIZE \<and> blk_size b = BLOCK_SIZE \<and> blk_tuple_size b = k"

lemma std_block_get_size: "std_block k b \<Longrightarrow> get_size b = Some (image_count (blk_mem b))"
  by (simp add: std_block_def get_size_def rd_u32_def rd_bytes_def image_count_def BLOCK_SIZE_def)

lemma std_mk_Block [simp]: "length junk = BLOCK_SIZE \<Longrightarrow> std_block k (mk_Block junk k)"
  by (simp add: std_block_def)

locale query_plan =
  fixes exec :: "'s executor" and valid :: "'s \<Rightarrow> bool" and rest :: "'s \<Rightarrow> bytes list"
  assumes exec_more: "\<lbrakk>valid s; rest s = i # js; std_block k b\<rbrakk>
      \<Longrightarrow> \<exists>s' b'. exec s b = Some (True, s', b') \<and> valid s' \<and> rest s' = js \<and> std_block k b' \<and> blk_mem b' = i"
    and exec_end: "\<lbrakk>valid s; rest s = []; std_block k b\<rbrakk>
      \<Longrightarrow> \<exists>s' b'. exec s b = Some (False, s', b') \<and> valid s' \<and> rest s' = [] \<and> std_block k b' \<and> blk_mem b' = blk_mem b"
begin

lemma pull_all_rest:
  assumes "valid s" "std_block k b" "length (rest s) < fuel"
  shows "\<exists>s'. pull_all exec fuel s b = Some (rest s, s') \<and> valid s' \<and> rest s' = []"
  using assms
proof (induction fuel arbitrary: s b)
  case (Suc fuel)
  show ?case
  proof (cases "rest s")
    case Nil
    then show ?thesis using exec_end [OF Suc.prems(1) Nil Suc.prems(2)] by auto
  next
    case (Cons i js)
    obtain s' b' where e: "exec s b = Some (True, s', b')" "valid s'" "rest s' = js" "std_block k b'" "blk_mem b' = i"
      using exec_more [OF Suc.prems(1) Cons Suc.prems(2)] by blast
    then show ?thesis using Suc.IH [OF e(2) e(4)] Suc.prems(3) Cons by auto
  qed
qed simp

end

lemma count_loop_spec:
  assumes "get_size b = Some n" "n < 2 ^ 32" "it_current it \<le> n" "n - it_current it < fuel"
    and "0 \<le> c" "c + int (n - it_current it) \<le> INT_MAX"
  shows "count_loop fuel b it c = Some (c + int (n - it_current it))"
  using assms
proof (induction fuel arbitrary: it c)
  case (Suc fuel)
  show ?case
  proof (cases "it_current it = n")
    case True
    then show ?thesis using Suc.prems by (simp add: getNext_def Let_def)
  next
    case False
    with Suc.prems have lt: "it_current it < n" by simp
    let ?it = "it\<lparr>it_fake := Some 0, it_current := Suc (it_current it)\<rparr>"
    have g: "getNext b it = Some (Some (wrap32 (it_current it * blk_tuple_size b)), ?it)"
      using Suc.prems lt False by (simp add: getNext_def Let_def)
    have d: "n - it_current it = Suc (n - it_current ?it)" using lt by simp
    have "ck_int (c + 1) = Some (c + 1)" using Suc.prems(5,6) d by (simp add: ck_int_def INT_MAX_def)
    then show ?thesis using Suc.IH [of ?it "c + 1"] Suc.prems lt g d by simp
  qed
qed simp

context query_plan
begin

lemma debug_counts:
  assumes "valid (dbg_child d)" "std_block k (dbg_buffer d)" "length (rest (dbg_child d)) < fuel"
    and "0 \<le> dbg_count d" "dbg_count d + int (sum_list (map image_count (rest (dbg_child d)))) \<le> INT_MAX"
  shows "\<exists>d'. Debug_execute exec fuel d = Some (True, d')
    \<and> dbg_count d' = dbg_count d + int (sum_list (map image_count (rest (dbg_child d)))) \<and> rest (dbg_child d') = []"
  using assms
proof (induction fuel arbitrary: d)
  case (Suc fuel)
  show ?case
  proof (cases "rest (dbg_child d)")
    case Nil
    then show ?thesis using exec_end [OF Suc.prems(1) Nil Suc.prems(2)] by auto
  next
    case (Cons i js)
    obtain s' b' where e: "exec (dbg_child d) (dbg_buffer d) = Some (True, s', b')" "valid s'" "rest s' = js"
      "std_block k b'" "blk_mem b' = i"
      using exec_more [OF Suc.prems(1) Cons Suc.prems(2)] by blast
    have g: "get_size b' = Some (image_count i)" using std_block_get_size [OF e(4)] e(5) by simp
    have bd: "dbg_count d + int (image_count i) + int (sum_list (map image_count js)) \<le> INT_MAX"
      using Suc.prems(5) Cons by simp
    have "int (image_count i) \<le> INT_MAX" using bd Suc.prems(4) by linarith
    then have n: "image_count i < 2 ^ 32" by (simp add: INT_MAX_def)
    have c: "count_loop (Suc (image_count i)) b' createIterator (dbg_count d) = Some (dbg_count d + int (image_count i))"
      using count_loop_spec [OF g n, of createIterator "Suc (image_count i)" "dbg_count d"] bd Suc.prems(4)
      by (simp add: createIterator_def del: count_loop.simps)
    let ?d = "d\<lparr>dbg_child := s', dbg_buffer := b', dbg_count := dbg_count d + int (image_count i)\<rparr>"
    show ?thesis using Suc.IH [of ?d] Suc.prems Cons e g c bd by (simp add: add.assoc del: count_loop.simps)
  qed
qed simp

end

section \<open>Scan fulfils it\<close>

definition scan_valid :: "scan \<times> memory_store \<Rightarrow> bool" where
  "scan_valid s \<longleftrightarrow> length (stored (snd s) (sc_filename (fst s))) < 2 ^ 32
     \<and> sc_cursor (fst s) \<le> length (stored (snd s) (sc_filename (fst s)))
     \<and> (\<forall>b \<in> set (stored (snd s) (sc_filename (fst s))). length (blk_mem b) = BLOCK_SIZE)"

definition scan_rest :: "scan \<times> memory_store \<Rightarrow> bytes list" where
  "scan_rest s = map blk_mem (drop (sc_cursor (fst s)) (stored (snd s) (sc_filename (fst s))))"

lemma stored_upd: "stored (ms\<lparr>ms_blocks := (ms_blocks ms)(n \<mapsto> bs)\<rparr>) n = bs"
  by (simp add: stored_def)

lemma storeBlock_std:
  assumes "std_block k b" "length i = BLOCK_SIZE"
  shows "\<exists>b'. storeBlock b i BLOCK_SIZE = Some b' \<and> std_block k b' \<and> blk_mem b' = i"
  using assms storeBlock_image [of b i] by (simp add: std_block_def big_block_def)

interpretation sc: query_plan Scan_execute scan_valid scan_rest
proof
  fix s :: "scan \<times> memory_store" and i :: bytes and js k b
  assume v: "scan_valid s" and r: "scan_rest s = i # js" and b: "std_block k b"
  let ?bs = "stored (snd s) (sc_filename (fst s))" and ?c = "sc_cursor (fst s)"
  have c: "?c < length ?bs" by (rule ccontr) (use r in \<open>simp add: scan_rest_def\<close>)
  have d: "drop ?c ?bs = ?bs ! ?c # drop (Suc ?c) ?bs" using c by (simp add: Cons_nth_drop_Suc)
  have i: "blk_mem (?bs ! ?c) = i" "map blk_mem (drop (Suc ?c) ?bs) = js" using r d by (auto simp: scan_rest_def)
  have "length i = BLOCK_SIZE" using v c i(1) by (auto simp: scan_valid_def)
  then obtain b' where b': "storeBlock b i BLOCK_SIZE = Some b'" "std_block k b'" "blk_mem b' = i"
    using storeBlock_std [OF b] by blast
  have "Suc ?c < 2 ^ 32" using c v by (auto simp: scan_valid_def)
  then show "\<exists>s' b'. Scan_execute s b = Some (True, s', b') \<and> scan_valid s' \<and> scan_rest s' = js \<and> std_block k b' \<and> blk_mem b' = i"
    using b' c i v by (auto simp: Scan_execute_def Let_def scan_valid_def scan_rest_def stored_upd)
next
  fix s :: "scan \<times> memory_store" and k b
  assume v: "scan_valid s" and r: "scan_rest s = []" and b: "std_block k b"
  have "\<not> sc_cursor (fst s) < length (stored (snd s) (sc_filename (fst s)))" using r by (auto simp: scan_rest_def)
  then show "\<exists>s' b'. Scan_execute s b = Some (False, s', b') \<and> scan_valid s' \<and> scan_rest s' = [] \<and> std_block k b' \<and> blk_mem b' = blk_mem b"
    using v b by (auto simp: Scan_execute_def Let_def scan_valid_def scan_rest_def stored_upd)
qed

lemma concat_uniform_inject:
  assumes "concat xs = concat ys" "length xs = length ys" "\<forall>x \<in> set xs. length x = k" "\<forall>y \<in> set ys. length y = k"
  shows "xs = ys"
  using assms
proof (induction xs ys rule: list_induct2')
  case (4 x xs y ys)
  then show ?case by (simp add: append_eq_append_conv)
qed auto

text \<open>What the reading loop stores: blocks whose bytes up to the end of the file are the file.\<close>

lemma fread_loop_spec:
  assumes "length buffer = BLOCK_SIZE" "\<And>i. length (junk i) = BLOCK_SIZE"
  shows "\<exists>bs. fread_loop junk buffer fdata i = Some bs \<and> take (length fdata) (concat (map blk_mem bs)) = fdata
    \<and> (\<forall>b \<in> set bs. length (blk_mem b) = BLOCK_SIZE) \<and> length bs = (length fdata + (BLOCK_SIZE - 1)) div BLOCK_SIZE"
  using assms(1)
proof (induction "length fdata" arbitrary: fdata buffer i rule: less_induct)
  case less
  show ?case
  proof (cases "fdata = []")
    case True
    then show ?thesis by (simp add: fread_loop.simps BLOCK_SIZE_def)
  next
    case False
    let ?n = "min BLOCK_SIZE (length fdata)"
    have n: "0 < ?n" "?n \<le> BLOCK_SIZE" using False by (auto simp: BLOCK_SIZE_def)
    let ?buf = "take ?n fdata @ drop ?n buffer"
    have w: "wr_bytes buffer 0 (take ?n fdata) = Some ?buf" using less(2) by (simp add: wr_bytes_def)
    let ?b = "(mk_Block (junk i) 0)\<lparr>blk_mem := take ?n fdata @ drop ?n (junk i), blk_free := ?n\<rparr>"
    have st: "storeBlock (mk_Block (junk i) 0) ?buf ?n = Some ?b"
      using less(2) assms(2) [of i] by (simp add: storeBlock_def rd_bytes_def wr_bytes_def)
    have lt: "length (drop ?n fdata) < length fdata" using n(1) False by simp
    have lb: "length ?buf = BLOCK_SIZE" using less(2) by simp
    obtain bs where bs: "fread_loop junk ?buf (drop ?n fdata) (Suc i) = Some bs"
      "take (length (drop ?n fdata)) (concat (map blk_mem bs)) = drop ?n fdata"
      "\<forall>b \<in> set bs. length (blk_mem b) = BLOCK_SIZE" "length bs = (length (drop ?n fdata) + (BLOCK_SIZE - 1)) div BLOCK_SIZE"
      using less(1) [OF lt lb, of "Suc i"] by blast
    have eq: "fread_loop junk buffer fdata i = Some (?b # bs)"
      by (subst fread_loop.simps) (use False w st bs(1) in \<open>simp add: Let_def\<close>)
    have lenb: "length (take ?n fdata @ drop ?n (junk i)) = BLOCK_SIZE" using assms(2) [of i] by simp
    have tk: "take (length fdata) (concat (map blk_mem (?b # bs))) = fdata"
    proof (cases "BLOCK_SIZE \<le> length fdata")
      case True
      then show ?thesis using bs(2) assms(2) [of i] by (simp add: min_def)
    next
      case F: False
      then show ?thesis by (simp add: min_def)
    qed
    have "length (?b # bs) = (length fdata + (BLOCK_SIZE - 1)) div BLOCK_SIZE"
    proof (cases "BLOCK_SIZE \<le> length fdata")
      case True
      then show ?thesis using bs(4) by (simp add: min_def BLOCK_SIZE_def)
    next
      case F: False
      then have "(length fdata + (BLOCK_SIZE - 1)) div BLOCK_SIZE = 1"
        using False unfolding BLOCK_SIZE_def by (intro div_nat_eqI) (simp_all add: Suc_leI)
      then show ?thesis using bs(4) F by (simp add: min_def BLOCK_SIZE_def)
    qed
    then show ?thesis using eq tk bs(3) lenb by (intro exI [of _ "?b # bs"]) simp
  qed
qed

lemma scan_prelude_reads:
  assumes "ms_blocks ms name = None" "name = sc_filename sc @ sc_file_path sc @ ''.'' @ ip" "files name = Some fdata"
    and "length buffer = BLOCK_SIZE" "\<And>i. length (junk i) = BLOCK_SIZE" "length fdata < 2 ^ 32"
  shows "\<exists>sc' ms'. Scan_prelude files ip junk buffer (sc, ms) = Some (sc', ms') \<and> scan_valid (sc', ms')
    \<and> sc_vd sc' = sc_vd sc \<and> sc_filename sc' = name \<and> sc_cursor sc' = 0
    \<and> length (scan_rest (sc', ms')) = (length fdata + (BLOCK_SIZE - 1)) div BLOCK_SIZE
    \<and> (\<forall>i \<in> set (scan_rest (sc', ms')). length i = BLOCK_SIZE)
    \<and> take (length fdata) (concat (scan_rest (sc', ms'))) = fdata"
proof -
  obtain bs where bs: "fread_loop junk buffer fdata 0 = Some bs" "take (length fdata) (concat (map blk_mem bs)) = fdata"
    "\<forall>b \<in> set bs. length (blk_mem b) = BLOCK_SIZE" "length bs = (length fdata + (BLOCK_SIZE - 1)) div BLOCK_SIZE"
    using fread_loop_spec [of buffer junk fdata 0] assms(4,5) by blast
  have "length bs < 2 ^ 32" using bs(4) assms(6) by (simp add: BLOCK_SIZE_def)
  then show ?thesis
    using bs assms(1-3) by (simp add: Scan_prelude_def Let_def scan_valid_def scan_rest_def stored_def)
qed

lemma scan_exec_keeps:
  "Scan_execute s b = Some (m, s', b') \<Longrightarrow> sc_filename (fst s') = sc_filename (fst s)
    \<and> ms_blocks (snd s') (sc_filename (fst s)) = Some (stored (snd s) (sc_filename (fst s)))"
  by (auto simp: Scan_execute_def Let_def bind_iff split: if_splits)

lemma pull_scan_keeps:
  "pull_all Scan_execute fuel s b = Some (js, s')
    \<Longrightarrow> ms_blocks (snd s') (sc_filename (fst s)) = Some (stored (snd s) (sc_filename (fst s)))"
proof (induction fuel arbitrary: s b js)
  case (Suc fuel)
  then obtain m t b' where e: "Scan_execute s b = Some (m, t, b')" by (auto simp: bind_iff)
  note k = scan_exec_keeps [OF e]
  show ?case
  proof (cases m)
    case True
    then obtain ks where "pull_all Scan_execute fuel t b' = Some (ks, s')" using Suc.prems e by (auto simp: bind_iff)
    from Suc.IH [OF this] k show ?thesis by (simp add: stored_def)
  qed (use Suc.prems e k in auto)
qed simp

text \<open>
  C25. A scan reads its file: after \<open>prelude\<close> on a file that is not in the memory store, \<open>execute\<close>
  hands out one block for every 64 KiB begun, whose bytes, cut to the length of the file, are the file;
  then it returns false. A later scan of the same file finds the blocks in the store and hands out the
  same images, even when the file is gone.
\<close>

theorem scan_reads_file:
  assumes "files (path @ ''.'' @ ip) = Some fdata" "length fdata < 2 ^ 32" "length fdata < BLOCK_SIZE * fuel"
    and "length buffer = BLOCK_SIZE" "\<And>i. length (junk i) = BLOCK_SIZE" "length (blk_mem b) = BLOCK_SIZE" "blk_size b = BLOCK_SIZE"
  shows "\<exists>s js s'. Scan_prelude files ip junk buffer (mk_Scan vd path, MemoryStore) = Some s
    \<and> pull_all Scan_execute (Suc fuel) s b = Some (js, s')
    \<and> take (length fdata) (concat js) = fdata \<and> length js = (length fdata + (BLOCK_SIZE - 1)) div BLOCK_SIZE
    \<and> (\<exists>t t'. Scan_prelude Map.empty ip junk buffer (mk_Scan vd path, snd s') = Some t
         \<and> pull_all Scan_execute (Suc fuel) t b = Some (js, t'))"
proof -
  let ?n = "path @ ''.'' @ ip" and ?sc = "mk_Scan vd path"
  have nm: "?n = sc_filename ?sc @ sc_file_path ?sc @ ''.'' @ ip" by (simp add: mk_Scan_def)
  have empty: "ms_blocks MemoryStore ?n = None" by (simp add: MemoryStore_def)
  obtain sc ms where p: "Scan_prelude files ip junk buffer (?sc, MemoryStore) = Some (sc, ms)" "scan_valid (sc, ms)"
    "sc_filename sc = ?n" "length (scan_rest (sc, ms)) = (length fdata + (BLOCK_SIZE - 1)) div BLOCK_SIZE"
    "take (length fdata) (concat (scan_rest (sc, ms))) = fdata" "sc_cursor sc = 0"
    using scan_prelude_reads [where sc = ?sc and ms = MemoryStore and name = ?n and ip = ip and files = files and junk = junk
        and buffer = buffer and fdata = fdata] empty nm assms(1,2,4,5) by blast
  have std: "std_block (blk_tuple_size b) b" using assms(6,7) by (simp add: std_block_def)
  have l: "length (scan_rest (sc, ms)) < Suc fuel" using p(4) assms(3) by (simp add: BLOCK_SIZE_def)
  then obtain s' where s': "pull_all Scan_execute (Suc fuel) (sc, ms) b = Some (scan_rest (sc, ms), s')"
    using sc.pull_all_rest [OF p(2) std, of "Suc fuel"] by blast
  let ?t = "(?sc\<lparr>sc_filename := ?n, sc_cursor := 0, sc_iscached := isCached (snd s')\<rparr>, snd s')"
  have keep: "ms_blocks (snd s') ?n = Some (stored ms ?n)" using pull_scan_keeps [OF s'] p(3) by simp
  then have t: "Scan_prelude Map.empty ip junk buffer (?sc, snd s') = Some ?t"
    by (simp add: Scan_prelude_def Let_def mk_Scan_def)
  have st: "stored (snd s') ?n = stored ms ?n" using keep by (simp add: stored_def)
  have "scan_valid ?t" "scan_rest ?t = scan_rest (sc, ms)"
    using p(2,3,6) st by (simp_all add: scan_valid_def scan_rest_def)
  then obtain t' where "pull_all Scan_execute (Suc fuel) ?t b = Some (scan_rest (sc, ms), t')"
    using sc.pull_all_rest [OF _ std, of ?t "Suc fuel"] l by auto
  then show ?thesis using p s' t by blast
qed

text \<open>
  \<open>Debug\<close> counts what its child delivers: over a scan of a file of whole blocks it returns true and
  its count is the sum of the tuple counts in the tails of the blocks, as long as that is an \<open>int\<close>.
\<close>

theorem debug_counts_scan:
  assumes "files (path @ ''.'' @ ip) = Some (concat imgs)" "\<forall>i \<in> set imgs. length i = BLOCK_SIZE" "length imgs < 2 ^ 16"
    and "length buffer = BLOCK_SIZE" "\<And>i. length (junk i) = BLOCK_SIZE" "length junk' = BLOCK_SIZE"
    and "int (sum_list (map image_count imgs)) \<le> INT_MAX"
  shows "\<exists>d d'. Debug_prelude (Scan_prelude files ip junk buffer) (Scan_newoutput \<circ> fst) junk' (mk_Scan vd path, MemoryStore) = Some d
    \<and> Debug_execute Scan_execute (Suc (length imgs)) d = Some (True, d') \<and> dbg_count d' = int (sum_list (map image_count imgs))"
proof -
  let ?n = "path @ ''.'' @ ip" and ?sc = "mk_Scan vd path"
  have nm: "?n = sc_filename ?sc @ sc_file_path ?sc @ ''.'' @ ip" by (simp add: mk_Scan_def)
  have empty: "ms_blocks MemoryStore ?n = None" by (simp add: MemoryStore_def)
  have len: "length (concat imgs) = length imgs * BLOCK_SIZE"
    using assms(2) by (intro length_concat_uniform) (simp add: list_all_iff)
  then have small: "length (concat imgs) < 2 ^ 32" using assms(3) by (simp add: BLOCK_SIZE_def)
  obtain sc ms where p: "Scan_prelude files ip junk buffer (?sc, MemoryStore) = Some (sc, ms)" "scan_valid (sc, ms)"
    "length (scan_rest (sc, ms)) = (length (concat imgs) + (BLOCK_SIZE - 1)) div BLOCK_SIZE"
    "take (length (concat imgs)) (concat (scan_rest (sc, ms))) = concat imgs"
    "\<forall>i \<in> set (scan_rest (sc, ms)). length i = BLOCK_SIZE"
    using scan_prelude_reads [where sc = ?sc and ms = MemoryStore and name = ?n and ip = ip and files = files and junk = junk
        and buffer = buffer and fdata = "concat imgs"] empty nm assms(1,4,5) small by blast
  have l: "length (scan_rest (sc, ms)) = length imgs" using p(3) len by (simp add: BLOCK_SIZE_def)
  have "length (concat (scan_rest (sc, ms))) = length imgs * BLOCK_SIZE"
    using p(5) l length_concat_uniform [of BLOCK_SIZE "scan_rest (sc, ms)"] by (simp add: list_all_iff)
  then have "concat (scan_rest (sc, ms)) = concat imgs" using p(4) len by simp
  then have r: "scan_rest (sc, ms) = imgs" using l p(5) assms(2) by (intro concat_uniform_inject [where k = BLOCK_SIZE]) auto
  let ?d = "\<lparr>dbg_child = (sc, ms), dbg_buffer = mk_Block junk' (get_bytes (Schema_of_NewSchema (sc_vd sc))), dbg_count = 0,
    dbg_schema = Schema_of_NewSchema (sc_vd sc)\<rparr>"
  have "Debug_prelude (Scan_prelude files ip junk buffer) (Scan_newoutput \<circ> fst) junk' (?sc, MemoryStore) = Some ?d"
    using p(1) by (simp add: Debug_prelude_def Scan_newoutput_def Let_def)
  moreover have "\<exists>d'. Debug_execute Scan_execute (Suc (length imgs)) ?d = Some (True, d') \<and> dbg_count d' = int (sum_list (map image_count imgs))"
    using sc.debug_counts [of ?d "get_bytes (Schema_of_NewSchema (sc_vd sc))" "Suc (length imgs)"] p(2) r l assms(6,7)
    by (auto simp del: Debug_execute.simps)
  ultimately show ?thesis by blast
qed

section \<open>Project\<close>

lemma getNext_std:
  assumes "std_block k b" "image_count (blk_mem b) * k \<le> BLOCK_SIZE" "0 < k" "it_current it \<le> image_count (blk_mem b)"
  shows "getNext b it = (if it_current it = image_count (blk_mem b) then Some (None, it\<lparr>it_fake := Some 0\<rparr>)
    else Some (Some (it_current it * k), it\<lparr>it_fake := Some 0, it_current := Suc (it_current it)\<rparr>))"
proof -
  have "image_count (blk_mem b) \<le> image_count (blk_mem b) * k" using assms(3) by simp
  then have n: "image_count (blk_mem b) \<le> BLOCK_SIZE" using assms(2) by linarith
  have m: "it_current it * k \<le> BLOCK_SIZE" using assms(2,4) by (meson le_trans mult_le_mono1)
  have "wrap32 (it_current it * k) = it_current it * k" using m by (simp add: BLOCK_SIZE_def)
  moreover have "wrap32 (Suc (it_current it)) = Suc (it_current it)" using n assms(4) by (simp add: BLOCK_SIZE_def)
  ultimately show ?thesis
    using std_block_get_size [OF assms(1)] assms(1) by (simp add: getNext_def Let_def std_block_def)
qed

definition iter_rest :: "nat \<Rightarrow> block \<Rightarrow> iter \<Rightarrow> bytes list" where
  "iter_rest k b it = drop (it_current it) (image_tuples k (blk_mem b))"

lemma length_image_tuples [simp]: "length (image_tuples k i) = image_count i"
  by (simp add: image_tuples_def)

lemma image_tuples_fresh [simp]: "iter_rest k b createIterator = image_tuples k (blk_mem b)"
  by (simp add: iter_rest_def createIterator_def)

lemma image_tuples_nth:
  assumes "length i = BLOCK_SIZE" "image_count i * k \<le> BLOCK_SIZE" "j < image_count i"
  shows "rd_bytes i (j * k) k = Some (image_tuples k i ! j)" "length (image_tuples k i ! j) = k"
proof -
  have "Suc j * k \<le> BLOCK_SIZE" using assms(2,3) by (meson Suc_leI le_trans mult_le_mono1)
  then show "rd_bytes i (j * k) k = Some (image_tuples k i ! j)" "length (image_tuples k i ! j) = k"
    using assms(1,3) by (auto simp: rd_bytes_def image_tuples_def)
qed

text \<open>An iterator over a block: it stands at a tuple and moves past it, or at the end.\<close>

lemma getNext_tuple:
  assumes "std_block k b" "image_count (blk_mem b) * k \<le> BLOCK_SIZE" "0 < k" "it_current it \<le> image_count (blk_mem b)"
  shows "iter_rest k b it = t # ts \<Longrightarrow> \<exists>off it'. getNext b it = Some (Some off, it') \<and> rd_bytes (blk_mem b) off k = Some t
      \<and> length t = k \<and> iter_rest k b it' = ts \<and> it_current it' \<le> image_count (blk_mem b)"
    and "iter_rest k b it = [] \<Longrightarrow> \<exists>it'. getNext b it = Some (None, it') \<and> iter_rest k b it' = []
      \<and> it_current it' \<le> image_count (blk_mem b)"
proof -
  let ?i = "blk_mem b"
  have len: "length ?i = BLOCK_SIZE" using assms(1) by (simp add: std_block_def)
  show "\<exists>off it'. getNext b it = Some (Some off, it') \<and> rd_bytes ?i off k = Some t
      \<and> length t = k \<and> iter_rest k b it' = ts \<and> it_current it' \<le> image_count ?i" if r: "iter_rest k b it = t # ts"
  proof -
    have lt: "it_current it < image_count ?i" by (rule ccontr) (use r in \<open>simp add: iter_rest_def\<close>)
    then have d: "drop (it_current it) (image_tuples k ?i) = image_tuples k ?i ! it_current it # drop (Suc (it_current it)) (image_tuples k ?i)"
      by (simp add: Cons_nth_drop_Suc)
    then show ?thesis
      using r lt getNext_std [OF assms] image_tuples_nth [OF len assms(2) lt] by (auto simp: iter_rest_def)
  qed
  show "\<exists>it'. getNext b it = Some (None, it') \<and> iter_rest k b it' = [] \<and> it_current it' \<le> image_count ?i"
    if "iter_rest k b it = []"
    using that assms(4) getNext_std [OF assms] by (auto simp: iter_rest_def)
qed

context query_plan
begin

definition pj_inv :: "nat \<Rightarrow> 's project \<Rightarrow> bool" where
  "pj_inv k p \<longleftrightarrow> 0 < k \<and> valid (pj_child p) \<and> std_block k (pj_buffer p) \<and> (\<forall>i \<in> set (rest (pj_child p)). image_ok k i)
     \<and> (\<forall>it. pj_iter p = Some it \<longrightarrow> image_count (blk_mem (pj_buffer p)) * k \<le> BLOCK_SIZE
          \<and> it_current it \<le> image_count (blk_mem (pj_buffer p)))"

definition pj_rest :: "nat \<Rightarrow> 's project \<Rightarrow> bytes list" where
  "pj_rest k p = (case pj_iter p of None \<Rightarrow> [] | Some it \<Rightarrow> iter_rest k (pj_buffer p) it)
     @ concat (map (image_tuples k) (rest (pj_child p)))"

text \<open>Fetching the next block of the child.\<close>

lemma pj_fetch:
  assumes "pj_inv k p" "rest (pj_child p) = i # js"
  shows "\<exists>s' b. exec (pj_child p) (pj_buffer p) = Some (True, s', b) \<and> blk_mem b = i \<and> rest s' = js
    \<and> (\<forall>it. it_current it \<le> image_count i \<longrightarrow> pj_inv k (p\<lparr>pj_child := s', pj_buffer := b, pj_iter := Some it\<rparr>))"
proof -
  have v: "valid (pj_child p)" "std_block k (pj_buffer p)" using assms(1) by (simp_all add: pj_inv_def)
  have ok: "image_ok k i" using assms by (simp add: pj_inv_def)
  obtain s' b where e: "exec (pj_child p) (pj_buffer p) = Some (True, s', b)" "valid s'" "rest s' = js" "std_block k b" "blk_mem b = i"
    using exec_more [OF v(1) assms(2) v(2)] by blast
  then show ?thesis using assms ok by (auto simp: pj_inv_def image_ok_def)
qed

lemma image_tuples_Cons:
  assumes "image_ok k i" obtains t ts where "image_tuples k i = t # ts"
proof -
  have "image_tuples k i \<noteq> []" using assms by (simp add: image_tuples_def image_ok_def)
  then show ?thesis using that by (cases "image_tuples k i") auto
qed

lemma pj_round_some:
  assumes inv: "pj_inv k p" and it: "pj_iter p = Some it" and r: "pj_rest k p = t # ts"
    and b: "blk_tuple_size block = k" "storeTuple block desc t = Some block'"
  shows "\<exists>p'. pj_round exec p block desc = Some (True, p', block') \<and> pj_inv k p' \<and> pj_rest k p' = ts \<and> pj_iter p' \<noteq> None"
proof -
  have std: "std_block k (pj_buffer p)" "image_count (blk_mem (pj_buffer p)) * k \<le> BLOCK_SIZE" "0 < k"
    "it_current it \<le> image_count (blk_mem (pj_buffer p))" using inv it by (simp_all add: pj_inv_def)
  show ?thesis
  proof (cases "iter_rest k (pj_buffer p) it")
    case (Cons u us)
    then have u: "u = t" "ts = us @ concat (map (image_tuples k) (rest (pj_child p)))" using r it by (auto simp: pj_rest_def)
    obtain off it' where g: "getNext (pj_buffer p) it = Some (Some off, it')" "rd_bytes (blk_mem (pj_buffer p)) off k = Some u"
      "iter_rest k (pj_buffer p) it' = us" "it_current it' \<le> image_count (blk_mem (pj_buffer p))"
      using getNext_tuple(1) [OF std Cons] by blast
    then show ?thesis using it u b inv by (simp add: pj_round_def pj_inv_def pj_rest_def)
  next
    case Nil
    then obtain it' where g: "getNext (pj_buffer p) it = Some (None, it')" using getNext_tuple(2) [OF std] by blast
    obtain i js where c: "rest (pj_child p) = i # js" using r it Nil by (cases "rest (pj_child p)") (auto simp: pj_rest_def)
    then have ok: "image_ok k i" using inv by (simp add: pj_inv_def)
    obtain s' c' where e: "exec (pj_child p) (pj_buffer p) = Some (True, s', c')" "blk_mem c' = i" "rest s' = js"
      "\<And>it. it_current it \<le> image_count i \<Longrightarrow> pj_inv k (p\<lparr>pj_child := s', pj_buffer := c', pj_iter := Some it\<rparr>)"
      using pj_fetch [OF inv c] by blast
    obtain u us where u: "image_tuples k i = u # us" using image_tuples_Cons [OF ok] .
    then have us: "image_tuples k i = t # us" "ts = us @ concat (map (image_tuples k) js)"
      using r it Nil c by (simp_all add: pj_rest_def)
    have c'std: "std_block k c'" "image_count (blk_mem c') * k \<le> BLOCK_SIZE" "it_current createIterator \<le> image_count (blk_mem c')"
      using e(2) e(4) [of createIterator] ok by (simp_all add: pj_inv_def image_ok_def createIterator_def)
    obtain off it2 where h: "getNext c' createIterator = Some (Some off, it2)" "rd_bytes (blk_mem c') off k = Some t"
      "iter_rest k c' it2 = us" "it_current it2 \<le> image_count (blk_mem c')"
      using getNext_tuple(1) [OF c'std(1,2) std(3) c'std(3)] us(1) e(2) by auto
    then show ?thesis using it g e us b by (simp add: pj_round_def pj_rest_def)
  qed
qed

lemma pj_round_start:
  assumes inv: "pj_inv k p" and it: "pj_iter p = None" and r: "pj_rest k p \<noteq> []"
  shows "\<exists>p1. pj_inv k p1 \<and> pj_iter p1 = Some createIterator \<and> pj_rest k p1 = pj_rest k p
    \<and> pj_round exec p block desc = pj_round exec p1 block desc"
proof -
  obtain i js where c: "rest (pj_child p) = i # js" using r it by (cases "rest (pj_child p)") (auto simp: pj_rest_def)
  obtain s' b where e: "exec (pj_child p) (pj_buffer p) = Some (True, s', b)" "blk_mem b = i" "rest s' = js"
    "\<And>it. it_current it \<le> image_count i \<Longrightarrow> pj_inv k (p\<lparr>pj_child := s', pj_buffer := b, pj_iter := Some it\<rparr>)"
    using pj_fetch [OF inv c] by blast
  let ?p = "p\<lparr>pj_child := s', pj_buffer := b, pj_iter := Some createIterator\<rparr>"
  have "pj_inv k ?p" using e(4) by (simp add: createIterator_def)
  moreover have "pj_rest k ?p = pj_rest k p" using it c e(2,3) by (simp add: pj_rest_def)
  moreover have "pj_round exec p block desc = pj_round exec ?p block desc" using it e(1) by (simp add: pj_round_def)
  ultimately show ?thesis by (intro exI [of _ ?p]) simp
qed

lemma pj_round_end:
  assumes inv: "pj_inv k p" and it: "pj_iter p = Some it" and r: "pj_rest k p = []"
  shows "\<exists>p'. pj_round exec p block desc = Some (False, p', block) \<and> pj_inv k p' \<and> pj_rest k p' = [] \<and> pj_iter p' \<noteq> None"
proof -
  have std: "std_block k (pj_buffer p)" "image_count (blk_mem (pj_buffer p)) * k \<le> BLOCK_SIZE" "0 < k"
    "it_current it \<le> image_count (blk_mem (pj_buffer p))" using inv it by (simp_all add: pj_inv_def)
  have c: "rest (pj_child p) = []"
  proof (cases "rest (pj_child p)")
    case (Cons i js)
    then have "image_ok k i" using inv by (simp add: pj_inv_def)
    then show ?thesis using r it Cons by (auto simp: pj_rest_def elim: image_tuples_Cons)
  qed
  have Nil: "iter_rest k (pj_buffer p) it = []" using r it by (simp add: pj_rest_def)
  obtain it' where g: "getNext (pj_buffer p) it = Some (None, it')" "iter_rest k (pj_buffer p) it' = []"
    "it_current it' \<le> image_count (blk_mem (pj_buffer p))" using getNext_tuple(2) [OF std Nil] by blast
  have "valid (pj_child p)" using inv by (simp add: pj_inv_def)
  then obtain s' b where e: "exec (pj_child p) (pj_buffer p) = Some (False, s', b)" "valid s'" "rest s' = []" "std_block k b"
    "blk_mem b = blk_mem (pj_buffer p)" using exec_end [OF _ c std(1)] by blast
  then show ?thesis using g it std by (simp add: pj_round_def pj_inv_def pj_rest_def iter_rest_def)
qed

lemma pj_rest_widths:
  assumes "pj_inv k p" "t \<in> set (pj_rest k p)"
  shows "length t = k"
proof -
  have w: "u \<in> set (image_tuples k i) \<Longrightarrow> length i = BLOCK_SIZE \<Longrightarrow> image_count i * k \<le> BLOCK_SIZE \<Longrightarrow> length u = k" for u i
    using image_tuples_nth(2) [of i k] by (auto simp: in_set_conv_nth)
  consider (buffer) it where "pj_iter p = Some it" "t \<in> set (image_tuples k (blk_mem (pj_buffer p)))"
    | (child) i where "i \<in> set (rest (pj_child p))" "t \<in> set (image_tuples k i)"
    using assms(2) by (cases "pj_iter p") (auto simp: pj_rest_def iter_rest_def dest: in_set_dropD)
  then show ?thesis
    by cases (use assms(1) w in \<open>auto simp: pj_inv_def std_block_def image_ok_def\<close>)
qed

text \<open>A round on a place: the next tuple is stored, or there is none.\<close>

lemma pj_round_next:
  assumes inv: "pj_inv k p" and st: "pj_iter p \<noteq> None \<or> pj_rest k p \<noteq> []"
    and b: "blk_ok block" "holds block us" "blk_tuple_size block = k" "allocateTuple block = Some desc"
  shows "case pj_rest k p of
      [] \<Rightarrow> \<exists>p'. pj_round exec p block desc = Some (False, p', block) \<and> pj_inv k p' \<and> pj_rest k p' = [] \<and> pj_iter p' \<noteq> None
    | t # ts \<Rightarrow> \<exists>p' block'. pj_round exec p block desc = Some (True, p', block') \<and> storeTuple block desc t = Some block'
        \<and> pj_inv k p' \<and> pj_rest k p' = ts \<and> pj_iter p' \<noteq> None"
proof (cases "pj_rest k p")
  case Nil
  then show ?thesis using st pj_round_end [OF inv] by auto
next
  case (Cons t ts)
  have "length t = k" using pj_rest_widths [OF inv] Cons by simp
  then obtain block' where s: "storeTuple block desc t = Some block'" using storeTuple_spec [OF b(1,2) _ b(4), of t] b(3) by auto
  show ?thesis
  proof (cases "pj_iter p")
    case None
    have ne: "pj_rest k p \<noteq> []" using Cons by simp
    obtain p1 where p1: "pj_inv k p1" "pj_iter p1 = Some createIterator" "pj_rest k p1 = t # ts"
      "pj_round exec p block desc = pj_round exec p1 block desc" using pj_round_start [OF inv None ne] Cons by metis
    show ?thesis using pj_round_some [OF p1(1-3) b(3) s] p1(4) Cons s by auto
  next
    case (Some it)
    show ?thesis using pj_round_some [OF inv Some Cons b(3) s] Cons s by auto
  qed
qed

lemma pj_loop_spec:
  assumes "pj_inv k p" "pj_iter p \<noteq> None \<or> pj_rest k p \<noteq> []" "blk_ok block" "holds block us" "blk_tuple_size block = k"
    and "blk_size block - blk_free block < fuel"
    and n: "n = (blk_size block - blk_free block) div k"
  shows "\<exists>p' b'. pj_loop exec fuel p block = Some (n \<le> length (pj_rest k p), p', b') \<and> blk_ok b'
    \<and> holds b' (us @ take n (pj_rest k p)) \<and> blk_size b' = blk_size block \<and> blk_tuple_size b' = k
    \<and> pj_inv k p' \<and> pj_rest k p' = drop n (pj_rest k p) \<and> (pj_iter p' \<noteq> None \<or> pj_rest k p' \<noteq> [])"
  using assms
proof (induction fuel arbitrary: p block us n)
  case (Suc fuel)
  have k: "0 < k" using Suc.prems(1) by (simp add: pj_inv_def)
  show ?case
  proof (cases "allocateTuple block")
    case None
    then have "blk_size block - blk_free block < k" using Suc.prems(3,5) k by (auto simp: allocateTuple_def blk_ok_def split: if_splits)
    then have "n = 0" using Suc.prems(7) by simp
    then show ?thesis using Suc.prems None by simp
  next
    case (Some desc)
    have fit: "blk_free block + k \<le> blk_size block" using Some Suc.prems(5) by (auto simp: allocateTuple_def split: if_splits)
    then have "blk_size block - blk_free block = (blk_size block - (blk_free block + k)) + k" by simp
    then have "n = (blk_size block - (blk_free block + k) + k) div k" unfolding Suc.prems(7) by (rule arg_cong)
    then have n': "n = Suc ((blk_size block - (blk_free block + k)) div k)" using k by (simp only: div_add_self2)
    note rnd = pj_round_next [OF Suc.prems(1-5) Some]
    show ?thesis
    proof (cases "pj_rest k p")
      case Nil
      then obtain p' where "pj_round exec p block desc = Some (False, p', block)" "pj_inv k p'" "pj_rest k p' = []" "pj_iter p' \<noteq> None"
        using rnd by auto
      then show ?thesis using Nil Some Suc.prems(3-5) n' by simp
    next
      case (Cons t ts)
      then obtain p1 b1 where r: "pj_round exec p block desc = Some (True, p1, b1)" "storeTuple block desc t = Some b1"
        "pj_inv k p1" "pj_rest k p1 = ts" "pj_iter p1 \<noteq> None" using rnd by auto
      have "length t = k" using pj_rest_widths [OF Suc.prems(1)] Cons by simp
      then have b1: "blk_ok b1" "holds b1 (us @ [t])" "blk_size b1 = blk_size block" "blk_tuple_size b1 = k"
        using storeTuple_spec [OF Suc.prems(3,4) _ Some, of t] Suc.prems(5) r(2) by auto
      have free: "blk_free b1 = blk_free block + k" using r(2) Suc.prems(5) by (auto simp: storeTuple_def bind_iff)
      have m: "blk_size b1 - blk_free b1 < fuel" using free b1(3) Suc.prems(6) fit k by linarith
      show ?thesis
        using Suc.IH [OF r(3) _ b1(1,2,4) m refl] r(4,5) r(1) Some Cons n' free b1(3) by simp
    qed
  qed
qed simp

lemma pull_project:
  assumes "pj_inv k p" "pj_iter p \<noteq> None \<or> pj_rest k p \<noteq> []" "std_block k block" "k \<le> BLOCK_SIZE"
    and n: "n = BLOCK_SIZE div k" and "length (pj_rest k p) div n < fuel"
  shows "\<exists>js p'. pull_all (Project_execute exec) fuel p block = Some (js, p')
    \<and> length js = length (pj_rest k p) div n \<and> concat (map (take (n * k)) js) = concat (take (n * (length (pj_rest k p) div n)) (pj_rest k p))"
  using assms(1-3,6)
proof (induction fuel arbitrary: p block)
  case (Suc fuel)
  let ?ts = "pj_rest k p"
  have k: "0 < k" and npos: "0 < n" using Suc.prems(1) assms(4) n by (simp_all add: pj_inv_def div_greater_zero_iff)
  let ?b = "blk_reset block"
  have b: "blk_ok ?b" "holds ?b []" "blk_tuple_size ?b = k" "blk_size ?b - blk_free ?b = BLOCK_SIZE"
    using Suc.prems(3) by (simp_all add: std_block_def blk_ok_def BLOCK_SIZE_def)
  have nb: "n = (blk_size ?b - blk_free ?b) div k" using n b(4) by simp
  have "blk_size ?b - blk_free ?b < Suc (blk_size block)" by simp
  from pj_loop_spec [OF Suc.prems(1,2) b(1-3) this nb]
  obtain p' b' where e: "Project_execute exec p block = Some (n \<le> length ?ts, p', b')" "blk_ok b'"
    "holds b' (take n ?ts)" "blk_size b' = blk_size block" "blk_tuple_size b' = k"
    "pj_inv k p'" "pj_rest k p' = drop n ?ts" "pj_iter p' \<noteq> None \<or> pj_rest k p' \<noteq> []"
    unfolding Project_execute_def append_Nil blk_reset_simps(1) by blast
  show ?case
  proof (cases "n \<le> length ?ts")
    case False
    then show ?thesis using e(1) by simp
  next
    case True
    have std: "std_block k b'" using e(2,4,5) Suc.prems(3) by (simp add: std_block_def blk_ok_def)
    have q: "length ?ts div n = Suc (length (drop n ?ts) div n)" using True npos by (simp add: le_div_geq)
    then obtain js p'' where j: "pull_all (Project_execute exec) fuel p' b' = Some (js, p'')"
      "length js = length (drop n ?ts) div n"
      "concat (map (take (n * k)) js) = concat (take (n * (length (drop n ?ts) div n)) (drop n ?ts))"
      using Suc.IH [OF e(6,8) std] e(7) Suc.prems(4) by auto
    have "take (blk_free b') (blk_mem b') = concat (take n ?ts)" using e(3) unfolding holds_def by blast
    moreover have "blk_free b' = n * k" using e(3,5) True by (auto simp: holds_def)
    ultimately have "take (n * k) (blk_mem b') = concat (take n ?ts)" by simp
    moreover have "take (n * (length ?ts div n)) ?ts = take n ?ts @ take (n * (length (drop n ?ts) div n)) (drop n ?ts)"
      unfolding q by (simp add: take_add)
    ultimately show ?thesis using e(1) True j q by simp
  qed
qed simp

end

text \<open>
  C38. \<open>Project\<close> passes the tuples of its child through in full blocks and loses the rest: pulled to its
  end over a child whose blocks are not empty, it hands out \<open>length ts div n\<close> blocks, where \<open>n\<close> tuples
  fit a block and \<open>ts\<close> are the child's tuples; together the blocks hold the first tuples in order, and
  the \<open>length ts mod n\<close> last ones were stored into the block of the call that returned false.
\<close>

theorem project_drops_rest:
  assumes "scan_valid s" "\<forall>i \<in> set (scan_rest s). image_ok k i" "scan_rest s \<noteq> []" "0 < k" "k \<le> BLOCK_SIZE"
    and "length junk = BLOCK_SIZE" "length (blk_mem block) = BLOCK_SIZE" "blk_size block = BLOCK_SIZE" "blk_tuple_size block = k"
  shows "let ts = concat (map (image_tuples k) (scan_rest s)); n = BLOCK_SIZE div k;
      p = \<lparr>pj_child = s, pj_buffer = mk_Block junk k, pj_iter = None\<rparr> in
    \<exists>js p'. pull_all (Project_execute Scan_execute) (Suc (length ts)) p block = Some (js, p')
      \<and> length js = length ts div n \<and> concat (map (take (n * k)) js) = concat (take (n * (length ts div n)) ts)"
proof -
  let ?p = "\<lparr>pj_child = s, pj_buffer = mk_Block junk k, pj_iter = None\<rparr>"
  let ?ts = "concat (map (image_tuples k) (scan_rest s))"
  have r: "sc.pj_rest k ?p = ?ts" by (simp add: sc.pj_rest_def)
  have "sc.pj_inv k ?p" using assms by (simp add: sc.pj_inv_def)
  moreover have "?ts \<noteq> []"
  proof -
    obtain i js where i: "scan_rest s = i # js" using assms(3) by (cases "scan_rest s") auto
    then have "image_ok k i" using assms(2) by simp
    then show ?thesis using i by (auto elim: sc.image_tuples_Cons)
  qed
  moreover have "std_block k block" using assms(7-9) by (simp add: std_block_def)
  moreover have "length ?ts div (BLOCK_SIZE div k) < Suc (length ?ts)" by (simp add: le_imp_less_Suc)
  ultimately show ?thesis
    using sc.pull_project [of k ?p block _ "Suc (length ?ts)", OF _ _ _ assms(5) refl] unfolding r Let_def by blast
qed

section \<open>Witnesses\<close>

text \<open>A file of two blocks that hold seven and two tuples, and the place it has in a scan.\<close>

definition img :: "nat \<Rightarrow> bytes" where
  "img n = replicate (BLOCK_SIZE - 4) 1 @ le_bytes 4 n"

lemma img_simps [simp]: "length (img n) = BLOCK_SIZE" "n < 2 ^ 32 \<Longrightarrow> image_count (img n) = n"
  by (simp_all add: img_def image_count_def BLOCK_SIZE_def)

definition two_images :: "string \<rightharpoonup> bytes" where
  "two_images = [''t.ip'' \<mapsto> concat [img 7, img 2]]"

definition blank :: bytes where
  "blank = replicate BLOCK_SIZE 0"

lemma blank_length [simp]: "length blank = BLOCK_SIZE"
  by (simp add: blank_def)

theorem scan_reads_file_witness:
  "\<exists>s js s'. Scan_prelude two_images ''ip'' (\<lambda>_. blank) blank (mk_Scan (mk_NewSchema []) ''t'', MemoryStore) = Some s
    \<and> pull_all Scan_execute 4 s blank_block = Some (js, s') \<and> take (2 * BLOCK_SIZE) (concat js) = img 7 @ img 2 \<and> length js = 2"
proof -
  have len: "length (img 7 @ img 2) = 2 * BLOCK_SIZE" by simp
  have "BLOCK_SIZE + BLOCK_SIZE + (BLOCK_SIZE - 1) = (BLOCK_SIZE - 1) + 2 * BLOCK_SIZE" by simp
  then have d: "(2 * BLOCK_SIZE + (BLOCK_SIZE - 1)) div BLOCK_SIZE = 2" by (simp add: BLOCK_SIZE_def)
  show ?thesis
    using scan_reads_file [of two_images "''t''" "''ip''" "img 7 @ img 2" 3 blank "\<lambda>_. blank" blank_block "mk_NewSchema []"]
    unfolding len d by (auto simp: two_images_def blank_block_def BLOCK_SIZE_def simp del: pull_all.simps)
qed

theorem debug_counts_scan_witness:
  "\<exists>d d'. Debug_prelude (Scan_prelude two_images ''ip'' (\<lambda>_. blank) blank) (Scan_newoutput \<circ> fst) blank
      (mk_Scan (mk_NewSchema []) ''t'', MemoryStore) = Some d
    \<and> Debug_execute Scan_execute 3 d = Some (True, d') \<and> dbg_count d' = 9"
proof -
  have c: "sum_list (map image_count [img 7, img 2]) = 9" by simp
  have l: "Suc (length [img 7, img 2]) = 3" by simp
  show ?thesis
    using debug_counts_scan [of two_images "''t''" "''ip''" "[img 7, img 2]" blank "\<lambda>_. blank" blank "mk_NewSchema []"]
    unfolding c l by (simp add: two_images_def INT_MAX_def del: Debug_execute.simps)
qed

text \<open>Nine tuples are less than a block of 16-byte tuples: none comes out.\<close>

definition scan9 :: "scan \<times> memory_store" where
  "scan9 = (mk_Scan (mk_NewSchema []) ''t'', MemoryStore\<lparr>ms_blocks := [[] \<mapsto> [mk_Block (img 7) 0, mk_Block (img 2) 0]]\<rparr>)"

lemma scan9_rest: "scan_rest scan9 = [img 7, img 2]"
  by (simp add: scan9_def scan_rest_def mk_Scan_def stored_def)

theorem project_drops_rest_witness:
  "\<exists>p'. pull_all (Project_execute Scan_execute) 10
      \<lparr>pj_child = scan9, pj_buffer = mk_Block blank 16, pj_iter = None\<rparr> (mk_Block blank 16) = Some ([], p')"
proof -
  have v: "scan_valid scan9" by (simp add: scan9_def scan_valid_def mk_Scan_def stored_def)
  have ok: "\<forall>i \<in> set (scan_rest scan9). image_ok 16 i" by (simp add: scan9_rest image_ok_def) (simp add: BLOCK_SIZE_def)
  have len: "length (concat (map (image_tuples 16) (scan_rest scan9))) = 9" by (simp add: scan9_rest)
  have q: "(9::nat) div (BLOCK_SIZE div 16) = 0" by (simp add: BLOCK_SIZE_def)
  have ten: "Suc 9 = (10::nat)" by simp
  show ?thesis
    using project_drops_rest [OF v ok, of blank "mk_Block blank 16"]
    unfolding Let_def len q ten by (auto simp: scan9_rest BLOCK_SIZE_def simp del: pull_all.simps)
qed

end
