(* ===== verification/Mosito_Shuffle.thy ===== *)
theory Mosito_Shuffle
  imports Mosito_Operators Mosito_Sort Mosito_PCBuffer
begin

text \<open>
  The repartitioning exchange: \<open>ShuffleLower1\<close> (\<^verbatim>\<open>physical/m_shuffle_lower1.cpp\<close>) on the sending
  nodes and \<open>ShuffleUpper1\<close> (\<^verbatim>\<open>physical/m_shuffle_upper1.cpp\<close>) on the receiving ones, with the sender
  thread and the receiving loop of \<open>Merger\<close> (\<^verbatim>\<open>common/m_merger.cpp\<close>) between them.

  \<open>while(!pcbuffer_->put(b, c));\<close> retries until the block has been appended once (\<open>put\<close> appends it
  exactly once when it returns true). The model keeps for each column the sequence of images put into
  it, which is what the sender thread takes out; a column that is never emptied makes the loop spin.
\<close>

section \<open>ShuffleLower1\<close>

record 's shuffle_lower1 =
  sl_child :: 's
  sl_seqs :: nat
  sl_exchange_id :: int
  sl_totalsize :: nat
  sl_buffer :: block
  sl_buffers :: "block list"
  sl_out :: "bytes list list"
  sl_ranges_1 :: "int list"
  sl_ranges_2 :: "int list"

text \<open>
  \<open>prelude\<close> after the sockets are connected; \<open>junk\<close> and \<open>junks i\<close> are the contents of the new blocks.
\<close>

definition range_bound :: "nat \<Rightarrow> int" where
  "range_bound i = (int i + 1) * int DATAVOLUME div int CPU_CORE"

definition SL1_prelude :: "('s \<Rightarrow> 's option) \<Rightarrow> NewSchema \<Rightarrow> string list \<Rightarrow> int \<Rightarrow> bytes \<Rightarrow> (nat \<Rightarrow> bytes) \<Rightarrow> 's \<Rightarrow>
    's shuffle_lower1 option" where
  "SL1_prelude prelude ns seqs exchange_id junk junks child = do {
     s \<leftarrow> prelude child;
     Some \<lparr>sl_child = s, sl_seqs = length seqs, sl_exchange_id = exchange_id, sl_totalsize = ns_totalsize ns,
           sl_buffer = mk_Block junk (ns_get_bytes ns),
           sl_buffers = map (\<lambda>i. mk_Block (junks i) (ns_get_bytes ns)) [0..<CPU_CORE],
           sl_out = replicate (length seqs) [],
           sl_ranges_1 = [int DATAVOLUME], sl_ranges_2 = map range_bound [0..<CPU_CORE]\<rparr>
   }"

text \<open>\<open>partition\<close> leaves its result uninitialised for a key above all bounds.\<close>

definition SL1_partition :: "bytes \<Rightarrow> int list \<Rightarrow> nat option" where
  "SL1_partition tuple bounds = do { start \<leftarrow> tuple_key tuple; range_of start bounds 0 }"

definition put_wait :: "block \<Rightarrow> nat \<Rightarrow> bytes list list \<Rightarrow> bytes list list option" where
  "put_wait b column out =
     (if column < length out \<and> big_block b then Some (out[column := out ! column @ [blk_image b]]) else None)"

text \<open>
  The body of the inner loop. When the buffer of the range is full it is closed, put and emptied; the
  tuple at hand is not stored. \<open>mul\<close> is 0 for more than four destinations, and the division fails.
\<close>

definition sl_tuple :: "bytes \<Rightarrow> 's shuffle_lower1 \<Rightarrow> 's shuffle_lower1 option" where
  "sl_tuple tuple st = do {
     r \<leftarrow> SL1_partition tuple (if sl_exchange_id st = 10 then sl_ranges_1 st else sl_ranges_2 st);
     let mul = CPU_CORE div sl_seqs st;
     if r < length (sl_buffers st) then
       (let b = sl_buffers st ! r in
        case allocateTuple b of
          Some desc \<Rightarrow> do {
            b' \<leftarrow> storeTuple b desc tuple;
            Some (st\<lparr>sl_buffers := (sl_buffers st)[r := b']\<rparr>)
          }
        | None \<Rightarrow>
            if sl_exchange_id st \<noteq> 10 then do {
              b' \<leftarrow> assembling b BLOCK_SIZE (sl_totalsize st);
              out \<leftarrow> (if mul = 0 then None else put_wait b' (r div mul) (sl_out st));
              Some (st\<lparr>sl_buffers := (sl_buffers st)[r := blk_reset b'], sl_out := out\<rparr>)
            }
            else Some (st\<lparr>sl_buffers := (sl_buffers st)[r := blk_reset b]\<rparr>))
     else None
   }"

fun sl_tuples :: "bytes list \<Rightarrow> 's shuffle_lower1 \<Rightarrow> 's shuffle_lower1 option" where
  "sl_tuples [] st = Some st"
| "sl_tuples (t # ts) st = do { st' \<leftarrow> sl_tuple t st; sl_tuples ts st' }"

text \<open>The end: a block with count 0 for every destination.\<close>

fun sl_end :: "nat list \<Rightarrow> 's shuffle_lower1 \<Rightarrow> 's shuffle_lower1 option" where
  "sl_end [] st = Some st"
| "sl_end (i # is) st = do {
     b \<leftarrow> build (sl_buffer st) BLOCK_SIZE 0;
     out \<leftarrow> put_wait b i (sl_out st);
     sl_end is (st\<lparr>sl_buffer := b, sl_out := out\<rparr>)
   }"

fun sl_loop :: "'s executor \<Rightarrow> nat \<Rightarrow> 's shuffle_lower1 \<Rightarrow> (bool \<times> 's shuffle_lower1) option" where
  "sl_loop exec 0 st = None"
| "sl_loop exec (Suc fuel) st = do {
     (more, s', b) \<leftarrow> exec (sl_child st) (sl_buffer st);
     let st1 = st\<lparr>sl_child := s', sl_buffer := b\<rparr>;
     if more then do {
       ts \<leftarrow> block_tuples b;
       st2 \<leftarrow> sl_tuples ts st1;
       sl_loop exec fuel st2
     }
     else do {
       st2 \<leftarrow> sl_end [0..<sl_seqs st1] st1;
       Some (False, st2)
     }
   }"

definition SL1_execute :: "'s executor \<Rightarrow> nat \<Rightarrow> 's shuffle_lower1 \<Rightarrow> (bool \<times> 's shuffle_lower1) option" where
  "SL1_execute exec fuel st = (if sl_seqs st = 0 then None else sl_loop exec fuel st)"

section \<open>What a full buffer takes with it\<close>

text \<open>
  \<open>flushed F xs\<close>: the contents of the buffer at each flush when \<open>xs\<close> arrives and \<open>F\<close> tuples fit; the
  tuple that finds the buffer full is skipped. \<open>pending F xs\<close> is what is left in the buffer.
\<close>

function flushed :: "nat \<Rightarrow> 'a list \<Rightarrow> 'a list list" where
  "flushed F xs = (if length xs \<le> F then [] else take F xs # flushed F (drop (Suc F) xs))"
  by pat_completeness auto
termination by (relation "measure (\<lambda>(F, xs). length xs)") auto

function pending :: "nat \<Rightarrow> 'a list \<Rightarrow> 'a list" where
  "pending F xs = (if length xs \<le> F then xs else pending F (drop (Suc F) xs))"
  by pat_completeness auto
termination by (relation "measure (\<lambda>(F, xs). length xs)") auto

declare flushed.simps [simp del] pending.simps [simp del]

lemma flushed_Nil [simp]: "flushed F [] = []" and pending_Nil [simp]: "pending F [] = []"
  by (simp_all add: flushed.simps pending.simps)

lemma pending_length: "length (pending F xs) \<le> F"
  by (induction F xs rule: pending.induct) (subst pending.simps, simp)

lemma flushed_snoc:
  "(if length (pending F xs) < F then pending F (xs @ [x]) = pending F xs @ [x] \<and> flushed F (xs @ [x]) = flushed F xs
    else pending F (xs @ [x]) = [] \<and> flushed F (xs @ [x]) = flushed F xs @ [pending F xs])"
proof (induction F xs rule: pending.induct)
  case (1 F xs)
  have u: "pending F xs = (if length xs \<le> F then xs else pending F (drop (Suc F) xs))"
    "flushed F xs = (if length xs \<le> F then [] else take F xs # flushed F (drop (Suc F) xs))"
    "pending F (xs @ [x]) = (if length (xs @ [x]) \<le> F then xs @ [x] else pending F (drop (Suc F) (xs @ [x])))"
    "flushed F (xs @ [x]) = (if length (xs @ [x]) \<le> F then [] else take F (xs @ [x]) # flushed F (drop (Suc F) (xs @ [x])))"
    by (rule pending.simps flushed.simps)+
  consider "length xs < F" | "length xs = F" | "F < length xs" by linarith
  then show ?case
  proof cases
    case 3
    then have "drop (Suc F) (xs @ [x]) = drop (Suc F) xs @ [x]" "take F (xs @ [x]) = take F xs" by auto
    then show ?thesis using 1 3 u by simp
  qed (simp_all add: u)
qed

section \<open>Images and their tuples\<close>

lemma concat_slices: "n * k \<le> length i \<Longrightarrow> concat (map (\<lambda>j. take k (drop (j * k) i)) [0..<n]) = take (n * k) i"
proof (induction n)
  case (Suc n)
  have "Suc n * k = n * k + k" by simp
  then show ?case using Suc by (simp add: take_add del: mult_Suc)
qed simp

lemma image_block_tuples:
  assumes "std_block k b" "0 < k" "image_count (blk_mem b) * k \<le> BLOCK_SIZE"
  shows "block_tuples b = Some (image_tuples k (blk_mem b))"
proof (rule block_tuples_spec)
  let ?i = "blk_mem b"
  have l: "length ?i = BLOCK_SIZE" "blk_tuple_size b = k" using assms(1) by (simp_all add: std_block_def)
  have "image_count ?i \<le> image_count ?i * k" using assms(2) by simp
  then have n: "image_count ?i \<le> BLOCK_SIZE" using assms(3) by linarith
  show "get_size b = Some (length (image_tuples k ?i))" using std_block_get_size [OF assms(1)] by simp
  show "list_all (\<lambda>t. length t = blk_tuple_size b) (image_tuples k ?i)"
    using image_tuples_nth(2) [OF l(1) assms(3)] l(2) by (auto simp: list_all_length)
  show "take (length (image_tuples k ?i) * blk_tuple_size b) ?i = concat (image_tuples k ?i)"
    using concat_slices [of "image_count ?i" k ?i] assms(3) l by (simp add: image_tuples_def)
  show "length (image_tuples k ?i) * blk_tuple_size b < 2 ^ 32" "length (image_tuples k ?i) < 2 ^ 32"
    using assms(3) n l(2) by (simp_all add: BLOCK_SIZE_def)
  show "length (image_tuples k ?i) * blk_tuple_size b \<le> length ?i" using assms(3) l by simp
qed

lemma assembling_image:
  assumes "std_block k b" "blk_ok b" "holds b ts" "0 < k" "(BLOCK_SIZE - 4) div k \<le> length ts"
  shows "\<exists>b'. assembling b BLOCK_SIZE k = Some b' \<and> std_block k b' \<and> blk_ok b'
    \<and> image_tuples k (blk_mem b') = take ((BLOCK_SIZE - 4) div k) ts"
proof -
  have s: "blk_size b = BLOCK_SIZE" "blk_tuple_size b = k" using assms(1) by (simp_all add: std_block_def)
  have "4 \<le> blk_size b" using s by (simp add: BLOCK_SIZE_def)
  then obtain b' where b': "assembling b BLOCK_SIZE k = Some b'" "blk_ok b'" "blk_tuple_size b' = k" "blk_size b' = BLOCK_SIZE"
    "block_tuples b' = Some (take ((BLOCK_SIZE - 4) div k) ts)"
    using assembling_spec [OF assms(2,3)] s assms(4,5) by auto
  have std: "std_block k b'" using b'(2-4) by (simp add: std_block_def blk_ok_def)
  obtain m where m: "wr_u32 (blk_mem b) (BLOCK_SIZE - 4) ((BLOCK_SIZE - 4) div k) = Some m" "blk_mem b' = m"
    using b'(1) by (auto simp: assembling_def split: if_splits)
  have "(BLOCK_SIZE - 4) div k \<le> BLOCK_SIZE - 4" by (rule div_le_dividend)
  then have "(BLOCK_SIZE - 4) div k < 2 ^ 32" by (rule le_less_trans) (simp add: BLOCK_SIZE_def)
  then have "rd_u32 m (BLOCK_SIZE - 4) = Some ((BLOCK_SIZE - 4) div k)" using rd_u32_wr_u32 [OF m(1)] by simp
  then have c: "image_count (blk_mem b') = (BLOCK_SIZE - 4) div k"
    using std_block_get_size [OF std] b'(4) m(2) by (simp add: get_size_def BLOCK_SIZE_def)
  have "(BLOCK_SIZE - 4) div k * k \<le> BLOCK_SIZE - 4" by (rule div_times_less_eq_dividend)
  then have "image_count (blk_mem b') * k \<le> BLOCK_SIZE" unfolding c by (rule le_trans) simp
  then show ?thesis using image_block_tuples [OF std assms(4)] b' std by auto
qed

section \<open>One tuple\<close>

definition rng :: "bytes \<Rightarrow> nat option" where
  "rng t = SL1_partition t (map range_bound [0..<CPU_CORE])"

text \<open>
  The state after the tuples \<open>us\<close>: each buffer holds the pending tuples of its range, and \<open>log\<close> are the
  puts so far, each with its range.
\<close>

definition sl_inv :: "nat \<Rightarrow> nat \<Rightarrow> bytes list \<Rightarrow> (nat \<times> bytes) list \<Rightarrow> 's shuffle_lower1 \<Rightarrow> bool" where
  "sl_inv k n us log st \<longleftrightarrow> sl_seqs st = n \<and> sl_exchange_id st \<noteq> 10 \<and> sl_totalsize st = k
     \<and> sl_ranges_2 st = map range_bound [0..<CPU_CORE] \<and> length (sl_out st) = n \<and> length (sl_buffers st) = CPU_CORE
     \<and> (\<forall>r < CPU_CORE. std_block k (sl_buffers st ! r) \<and> blk_ok (sl_buffers st ! r)
          \<and> holds (sl_buffers st ! r) (pending (BLOCK_SIZE div k) (filter (\<lambda>t. rng t = Some r) us)))
     \<and> (\<forall>r < CPU_CORE. map (image_tuples k \<circ> snd) (filter (\<lambda>e. fst e = r) log)
          = map (take ((BLOCK_SIZE - 4) div k)) (flushed (BLOCK_SIZE div k) (filter (\<lambda>t. rng t = Some r) us)))
     \<and> (\<forall>c < n. sl_out st ! c = map snd (filter (\<lambda>e. fst e div (CPU_CORE div n) = c) log))"

lemma holds_length: "holds b ts \<Longrightarrow> std_block k b \<Longrightarrow> 0 < k \<Longrightarrow> allocateTuple b = None \<longleftrightarrow> BLOCK_SIZE div k \<le> length ts"
  (is "_ \<Longrightarrow> _ \<Longrightarrow> _ \<Longrightarrow> _ \<longleftrightarrow> ?F \<le> _")
proof -
  assume h: "holds b ts" and s: "std_block k b" and k: "0 < k"
  have "allocateTuple b = None \<longleftrightarrow> \<not> Suc (length ts) * k \<le> BLOCK_SIZE"
    using h s by (auto simp: allocateTuple_def holds_def std_block_def)
  also have "\<dots> \<longleftrightarrow> \<not> Suc (length ts) \<le> BLOCK_SIZE div k" using k by (simp add: less_eq_div_iff_mult_less_eq)
  finally show ?thesis by linarith
qed

lemma sl_tuple_step:
  assumes inv: "sl_inv k n us log st" and k: "0 < k" and n: "n \<in> {1, 2, 4}"
    and t: "length t = k" "rng t = Some r"
  shows "\<exists>st' log'. sl_tuple t st = Some st' \<and> sl_inv k n (us @ [t]) log' st' \<and> sl_child st' = sl_child st \<and> sl_buffer st' = sl_buffer st"
proof -
  let ?F = "BLOCK_SIZE div k" and ?V = "(BLOCK_SIZE - 4) div k" and ?b = "sl_buffers st ! r"
  let ?xs = "\<lambda>q us. filter (\<lambda>t. rng t = Some q) us"
  have part: "SL1_partition t (sl_ranges_2 st) = Some r" "sl_exchange_id st \<noteq> 10" using inv t(2) by (simp_all add: sl_inv_def rng_def)
  obtain v where "range_of v (map range_bound [0..<CPU_CORE]) 0 = Some r"
    using t(2) by (auto simp: rng_def SL1_partition_def bind_iff)
  then have r: "r < CPU_CORE" using range_of_spec by fastforce
  have b: "std_block k ?b" "blk_ok ?b" "holds ?b (pending ?F (?xs r us))" "length (sl_buffers st) = CPU_CORE"
    using inv r by (simp_all add: sl_inv_def)
  have other: "?xs q (us @ [t]) = ?xs q us" if "q \<noteq> r" for q using t(2) that by simp
  have own: "?xs r (us @ [t]) = ?xs r us @ [t]" using t(2) by simp
  note snoc = flushed_snoc [of ?F "?xs r us" t]
  show ?thesis
  proof (cases "allocateTuple ?b")
    case (Some d)
    have lt: "length (pending ?F (?xs r us)) < ?F" using holds_length [OF b(3,1) k] Some by auto
    have ts: "blk_tuple_size ?b = k" using b(1) by (simp add: std_block_def)
    obtain b' where b': "storeTuple ?b d t = Some b'" "blk_ok b'" "holds b' (pending ?F (?xs r us) @ [t])"
      "blk_size b' = blk_size ?b" "blk_tuple_size b' = blk_tuple_size ?b"
      using storeTuple_spec [OF b(2,3) _ Some, of t] t(1) ts by auto
    have std: "std_block k b'" using b' b(1) by (simp add: std_block_def blk_ok_def)
    let ?st = "st\<lparr>sl_buffers := (sl_buffers st)[r := b']\<rparr>"
    have "sl_tuple t st = Some ?st" using part r b(4) Some b'(1) by (simp add: sl_tuple_def Let_def)
    moreover have "sl_inv k n (us @ [t]) log ?st"
      using inv r b(4) b'(2,3) std snoc lt own unfolding sl_inv_def by (auto simp: nth_list_update t(2))
    ultimately show ?thesis by (intro exI [of _ ?st] exI [of _ log]) simp
  next
    case None
    have ge: "?F \<le> length (pending ?F (?xs r us))" using holds_length [OF b(3,1) k] None by simp
    have "?V \<le> ?F" by (intro div_le_mono) simp
    then obtain b' where b': "assembling ?b BLOCK_SIZE k = Some b'" "std_block k b'" "blk_ok b'"
      "image_tuples k (blk_mem b') = take ?V (pending ?F (?xs r us))"
      using assembling_image [OF b(1-3) k] ge by auto
    have big: "big_block b'" "blk_image b' = blk_mem b'" using b'(2) by (simp_all add: big_block_def std_block_def)
    have c: "r div (CPU_CORE div n) < n" "CPU_CORE div n \<noteq> 0" using r n by (auto simp: CPU_CORE_def)
    let ?c = "r div (CPU_CORE div n)"
    let ?st = "st\<lparr>sl_buffers := (sl_buffers st)[r := blk_reset b'], sl_out := (sl_out st)[?c := sl_out st ! ?c @ [blk_mem b']]\<rparr>"
    let ?log = "log @ [(r, blk_mem b')]"
    have "sl_tuple t st = Some ?st"
      using part r b(4) None b'(1) big c inv by (simp add: sl_tuple_def Let_def put_wait_def sl_inv_def)
    moreover have "sl_inv k n (us @ [t]) ?log ?st"
    proof -
      have rs: "std_block k (blk_reset b')" "blk_ok (blk_reset b')" using b'(2,3) by (simp_all add: std_block_def)
      show ?thesis
        using inv r b(4) b'(4) rs snoc ge own unfolding sl_inv_def by (auto simp: nth_list_update t(2))
    qed
    ultimately show ?thesis by (intro exI [of _ ?st] exI [of _ ?log]) simp
  qed
qed

lemma sl_tuples_step:
  assumes "sl_inv k n us log st" "0 < k" "n \<in> {1, 2, 4}" "\<forall>t \<in> set ts. length t = k \<and> rng t \<noteq> None"
  shows "\<exists>st' log'. sl_tuples ts st = Some st' \<and> sl_inv k n (us @ ts) log' st' \<and> sl_child st' = sl_child st \<and> sl_buffer st' = sl_buffer st"
  using assms
proof (induction ts arbitrary: us log st)
  case (Cons t ts)
  then obtain r where r: "rng t = Some r" "length t = k" by auto
  obtain st1 log1 where 1: "sl_tuple t st = Some st1" "sl_inv k n (us @ [t]) log1 st1" "sl_child st1 = sl_child st" "sl_buffer st1 = sl_buffer st"
    using sl_tuple_step [OF Cons.prems(1-3) r(2,1)] by blast
  then show ?case using Cons.IH [OF 1(2)] Cons.prems by auto
qed auto

section \<open>The end marks\<close>

lemma sl_end_spec:
  assumes "length (sl_out st) = n" "std_block k (sl_buffer st)" "i \<le> n"
  shows "\<exists>st'. sl_end [i..<n] st = Some st' \<and> sl_seqs st' = sl_seqs st \<and> length (sl_out st') = n
    \<and> (\<forall>c < n. if c < i then sl_out st' ! c = sl_out st ! c
          else \<exists>z. image_count z = 0 \<and> sl_out st' ! c = sl_out st ! c @ [z])"
  using assms
proof (induction "n - i" arbitrary: i st)
  case 0
  then show ?case by simp
next
  case (Suc d)
  then have lt: "i < n" and d: "d = n - Suc i" by simp_all
  have std: "length (blk_mem (sl_buffer st)) = BLOCK_SIZE" "blk_size (sl_buffer st) = BLOCK_SIZE" using Suc.prems(2) by (simp_all add: std_block_def)
  obtain b where b: "build (sl_buffer st) BLOCK_SIZE 0 = Some b"
    using std by (auto simp: build_def wr_u32_def wr_bytes_def BLOCK_SIZE_def)
  have std': "std_block k b" using b Suc.prems(2) by (auto simp: build_def std_block_def wr_u32_def split: if_splits dest: wr_bytes_length)
  have z: "image_count (blk_mem b) = 0" using get_size_build [of "sl_buffer st" 0 b] b std std_block_get_size [OF std'] by simp
  have big: "big_block b" "blk_image b = blk_mem b" using std' by (simp_all add: big_block_def std_block_def)
  let ?st = "st\<lparr>sl_buffer := b, sl_out := (sl_out st)[i := sl_out st ! i @ [blk_mem b]]\<rparr>"
  have step: "sl_end [i..<n] st = sl_end [Suc i..<n] ?st"
    using lt b big Suc.prems(1) by (simp add: upt_conv_Cons put_wait_def)
  obtain st' where st': "sl_end [Suc i..<n] ?st = Some st'" "sl_seqs st' = sl_seqs st" "length (sl_out st') = n"
    "\<forall>c < n. if c < Suc i then sl_out st' ! c = sl_out ?st ! c else \<exists>z. image_count z = 0 \<and> sl_out st' ! c = sl_out ?st ! c @ [z]"
    using Suc.hyps(1) [of "Suc i" ?st, OF d] Suc.prems std' lt by auto
  have "if c < i then sl_out st' ! c = sl_out st ! c else \<exists>z. image_count z = 0 \<and> sl_out st' ! c = sl_out st ! c @ [z]" if c: "c < n" for c
    using st'(4) [rule_format, OF c] z Suc.prems(1) c by (cases "c = i") (auto split: if_splits)
  then show ?case using step st' by auto
qed

section \<open>The whole exchange at a sender\<close>

text \<open>Whatever is put is a whole block, and the number of columns stays.\<close>

definition whole_blocks :: "nat \<Rightarrow> bytes list list \<Rightarrow> bool" where
  "whole_blocks n fs \<longleftrightarrow> length fs = n \<and> (\<forall>f \<in> set fs. \<forall>i \<in> set f. length i = BLOCK_SIZE)"

lemma put_wait_whole: "put_wait b c out = Some out' \<Longrightarrow> whole_blocks n out \<Longrightarrow> whole_blocks n out'"
  by (fastforce simp: put_wait_def whole_blocks_def big_block_def split: if_splits dest: set_update_subset_insert [THEN subsetD])

lemma sl_tuple_whole: "sl_tuple t st = Some st' \<Longrightarrow> whole_blocks n (sl_out st) \<Longrightarrow> whole_blocks n (sl_out st')"
  by (auto simp: sl_tuple_def bind_iff Let_def split: if_splits option.splits intro: put_wait_whole)

lemma sl_tuples_whole: "sl_tuples ts st = Some st' \<Longrightarrow> whole_blocks n (sl_out st) \<Longrightarrow> whole_blocks n (sl_out st')"
  by (induction ts arbitrary: st) (auto simp: bind_iff dest: sl_tuple_whole)

lemma sl_end_whole: "sl_end is st = Some st' \<Longrightarrow> whole_blocks n (sl_out st) \<Longrightarrow> whole_blocks n (sl_out st')"
proof (induction "is" arbitrary: st)
  case (Cons i "is")
  then obtain b out where "build (sl_buffer st) BLOCK_SIZE 0 = Some b" "put_wait b i (sl_out st) = Some out"
    "sl_end is (st\<lparr>sl_buffer := b, sl_out := out\<rparr>) = Some st'" by (auto simp: bind_iff)
  then show ?case using Cons.IH put_wait_whole Cons.prems(2) by fastforce
qed simp

lemma sl_loop_whole: "sl_loop exec fuel st = Some (ret, st') \<Longrightarrow> whole_blocks n (sl_out st) \<Longrightarrow> whole_blocks n (sl_out st')"
proof (induction fuel arbitrary: st)
  case (Suc fuel)
  obtain cont s' b where e: "exec (sl_child st) (sl_buffer st) = Some (cont, s', b)" using Suc.prems(1) by (auto simp: bind_iff)
  let ?st = "st\<lparr>sl_child := s', sl_buffer := b\<rparr>"
  show ?case
  proof (cases cont)
    case True
    then obtain ts st2 where "sl_tuples ts ?st = Some st2" "sl_loop exec fuel st2 = Some (ret, st')"
      using Suc.prems(1) e by (auto simp: bind_iff Let_def)
    then show ?thesis using Suc.IH sl_tuples_whole Suc.prems(2) by fastforce
  next
    case False
    then have "sl_end [0..<sl_seqs ?st] ?st = Some st'" using Suc.prems(1) e by (auto simp: bind_iff Let_def)
    then show ?thesis using sl_end_whole Suc.prems(2) by fastforce
  qed
qed simp

lemma SL1_whole:
  assumes "SL1_prelude prelude ns seqs ex junk junks s = Some st" "SL1_execute exec fuel st = Some (ret, st')"
  shows "whole_blocks (length seqs) (sl_out st')"
proof -
  have "whole_blocks (length seqs) (sl_out st)" using assms(1) by (auto simp: SL1_prelude_def bind_iff whole_blocks_def)
  then show ?thesis using assms(2) sl_loop_whole by (auto simp: SL1_execute_def split: if_splits)
qed

text \<open>The state \<open>prelude\<close> leaves.\<close>

lemma sl_prelude_inv:
  assumes "SL1_prelude prelude ns seqs ex junk junks child = Some st" "ex \<noteq> 10"
    and "length junk = BLOCK_SIZE" "\<And>i. length (junks i) = BLOCK_SIZE"
  shows "sl_inv (ns_totalsize ns) (length seqs) [] [] st" "prelude child = Some (sl_child st)" "std_block (ns_totalsize ns) (sl_buffer st)"
  using assms
  by (auto simp: SL1_prelude_def bind_iff sl_inv_def ns_get_bytes_def std_block_def blk_ok_def BLOCK_SIZE_def)

context query_plan
begin

lemma sl_loop_spec:
  assumes "sl_inv k n us log st" "0 < k" "n \<in> {1, 2, 4}" "valid (sl_child st)" "std_block k (sl_buffer st)"
    and "\<forall>i \<in> set (rest (sl_child st)). image_count i * k \<le> BLOCK_SIZE \<and> length i = BLOCK_SIZE"
    and "\<forall>t \<in> set (concat (map (image_tuples k) (rest (sl_child st)))). rng t \<noteq> None"
    and "length (rest (sl_child st)) < fuel"
  shows "\<exists>(st1 :: 's shuffle_lower1) st' log'. sl_loop exec fuel st = Some (False, st')
    \<and> sl_inv k n (us @ concat (map (image_tuples k) (rest (sl_child st)))) log' st1
    \<and> (\<forall>c < n. \<exists>z. image_count z = 0 \<and> sl_out st' ! c = sl_out st1 ! c @ [z])"
  using assms(1,4-8)
proof (induction fuel arbitrary: us log st)
  case (Suc fuel)
  show ?case
  proof (cases "rest (sl_child st)")
    case Nil
    obtain s' b where e: "exec (sl_child st) (sl_buffer st) = Some (False, s', b)" "std_block k b"
      using exec_end [OF Suc.prems(2) Nil Suc.prems(3)] by blast
    let ?st = "st\<lparr>sl_child := s', sl_buffer := b\<rparr>"
    have inv: "sl_inv k n us log ?st" using Suc.prems(1) by (simp add: sl_inv_def)
    then have n: "sl_seqs ?st = n" "length (sl_out ?st) = n" by (simp_all add: sl_inv_def)
    obtain st' where "sl_end [0..<n] ?st = Some st'"
      "\<forall>c < n. \<exists>z. image_count z = 0 \<and> sl_out st' ! c = sl_out ?st ! c @ [z]"
      using sl_end_spec [OF n(2), of k 0] e(2) by auto
    moreover have "sl_inv k n (us @ concat (map (image_tuples k) (rest (sl_child st)))) log ?st" using inv Nil by simp
    moreover have "sl_loop exec (Suc fuel) st = Some (False, st')" using e(1) n(1) calculation(1) by (simp add: Let_def)
    ultimately show ?thesis by blast
  next
    case (Cons i js)
    obtain s' b where e: "exec (sl_child st) (sl_buffer st) = Some (True, s', b)" "valid s'" "rest s' = js" "std_block k b" "blk_mem b = i"
      using exec_more [OF Suc.prems(2) Cons Suc.prems(3)] by blast
    have i: "image_count i * k \<le> BLOCK_SIZE" "length i = BLOCK_SIZE" using Suc.prems(4) Cons by simp_all
    let ?st = "st\<lparr>sl_child := s', sl_buffer := b\<rparr>"
    have inv: "sl_inv k n us log ?st" using Suc.prems(1) by (simp add: sl_inv_def)
    have bt: "block_tuples b = Some (image_tuples k i)" using image_block_tuples [OF e(4) assms(2)] i(1) e(5) by simp
    have w: "\<forall>t \<in> set (image_tuples k i). length t = k \<and> rng t \<noteq> None"
      using image_tuples_nth(2) [OF i(2,1)] Suc.prems(5) Cons by (auto simp: in_set_conv_nth)
    obtain st2 log2 where 2: "sl_tuples (image_tuples k i) ?st = Some st2" "sl_inv k n (us @ image_tuples k i) log2 st2"
      "sl_child st2 = s'" "sl_buffer st2 = b"
      using sl_tuples_step [OF inv assms(2,3) w] by auto
    show ?thesis using Suc.IH [OF 2(2)] 2 e Suc.prems(4-6) Cons bt by auto
  qed
qed simp

lemma SL1_columns:
  assumes "valid s1" "prelude s = Some s1" "0 < k" "k = ns_totalsize ns" "length seqs \<in> {1, 2, 4}" "ex \<noteq> 10"
    and "length junk = BLOCK_SIZE" "\<And>i. length (junks i) = BLOCK_SIZE"
    and "\<forall>i \<in> set (rest s1). image_count i * k \<le> BLOCK_SIZE \<and> length i = BLOCK_SIZE"
    and "ts = concat (map (image_tuples k) (rest s1))" "\<forall>t \<in> set ts. rng t \<noteq> None" "length (rest s1) < fuel"
  shows "\<exists>st st' log. SL1_prelude prelude ns seqs ex junk junks s = Some st
    \<and> SL1_execute exec fuel st = Some (False, st')
    \<and> (\<forall>c < length seqs. \<exists>z. image_count z = 0
         \<and> sl_out st' ! c = map snd (filter (\<lambda>e. fst e div (CPU_CORE div length seqs) = c) log) @ [z])
    \<and> (\<forall>r < CPU_CORE. map (image_tuples k \<circ> snd) (filter (\<lambda>e. fst e = r) log)
         = map (take ((BLOCK_SIZE - 4) div k)) (flushed (BLOCK_SIZE div k) (filter (\<lambda>t. rng t = Some r) ts)))"
proof -
  obtain st where st: "SL1_prelude prelude ns seqs ex junk junks s = Some st" using assms(2) by (auto simp: SL1_prelude_def)
  note pre = sl_prelude_inv [OF st assms(6-8), folded assms(4)]
  have child: "sl_child st = s1" using assms(2) pre(2) by simp
  obtain st1 :: "'s shuffle_lower1" and st' log where l: "sl_loop exec fuel st = Some (False, st')" "sl_inv k (length seqs) ts log st1"
    "\<forall>c < length seqs. \<exists>z. image_count z = 0 \<and> sl_out st' ! c = sl_out st1 ! c @ [z]"
    using sl_loop_spec [OF pre(1) assms(3,5) _ pre(3), of fuel] assms(1,9-12) child
    by (auto simp del: sl_loop.simps)
  have "sl_seqs st \<noteq> 0" using pre(1) assms(5) by (auto simp: sl_inv_def)
  then have "SL1_execute exec fuel st = Some (False, st')" using l(1) by (simp add: SL1_execute_def)
  moreover have "\<forall>c < length seqs. \<exists>z. image_count z = 0
      \<and> sl_out st' ! c = map snd (filter (\<lambda>e. fst e div (CPU_CORE div length seqs) = c) log) @ [z]"
    using l(2,3) by (auto simp: sl_inv_def)
  moreover have "\<forall>r < CPU_CORE. map (image_tuples k \<circ> snd) (filter (\<lambda>e. fst e = r) log)
      = map (take ((BLOCK_SIZE - 4) div k)) (flushed (BLOCK_SIZE div k) (filter (\<lambda>t. rng t = Some r) ts))"
    using l(2) by (simp add: sl_inv_def)
  ultimately show ?thesis using st by blast
qed

end

text \<open>
  C16. What a sender of an exchange sends. Over a scan whose tuples have keys below \<open>DATAVOLUME\<close>, with
  one, two or four destinations, \<open>execute\<close> returns false, and there is a sequence of puts, each for one
  of the four key ranges, such that (1) column \<open>c\<close> received the images of its ranges in that order and
  then one block with count 0; (2) the images of a range hold what the range's buffer held at each
  flush. A buffer takes \<open>BLOCK_SIZE div k\<close> tuples; the tuple that finds it full is skipped, the readers
  see only the first \<open>(BLOCK_SIZE - 4) div k\<close>, and what is in the buffers at the end is never put.
\<close>

theorem shuffle_lower_flushes:
  assumes "scan_valid (the (prelude s))" "prelude s \<noteq> None" "0 < k" "k = ns_totalsize ns" "length seqs \<in> {1, 2, 4}" "ex \<noteq> 10"
    and "length junk = BLOCK_SIZE" "\<And>i. length (junks i) = BLOCK_SIZE"
    and "images = scan_rest (the (prelude s))" "\<forall>i \<in> set images. image_count i * k \<le> BLOCK_SIZE \<and> length i = BLOCK_SIZE"
    and "ts = concat (map (image_tuples k) images)" "\<forall>t \<in> set ts. rng t \<noteq> None"
  shows "\<exists>st st' log. SL1_prelude prelude ns seqs ex junk junks s = Some st
    \<and> SL1_execute Scan_execute (Suc (length images)) st = Some (False, st')
    \<and> (\<forall>c < length seqs. \<exists>z. image_count z = 0
         \<and> sl_out st' ! c = map snd (filter (\<lambda>e. fst e div (CPU_CORE div length seqs) = c) log) @ [z])
    \<and> (\<forall>r < CPU_CORE. map (image_tuples k \<circ> snd) (filter (\<lambda>e. fst e = r) log)
         = map (take ((BLOCK_SIZE - 4) div k)) (flushed (BLOCK_SIZE div k) (filter (\<lambda>t. rng t = Some r) ts)))"
proof -
  obtain s1 where s1: "prelude s = Some s1" using assms(2) by blast
  show ?thesis using sc.SL1_columns [where prelude = prelude and s = s and junks = junks, OF _ s1 assms(3-8), of ts "Suc (length images)"] assms(1,9-12) s1 by simp
qed

text \<open>Three tuples of half a block each, all of range 0: the first two fill the buffer, the third makes it go out.\<close>

definition half :: bytes where
  "half = replicate 32768 0"

definition zimg :: bytes where
  "zimg = replicate (BLOCK_SIZE - 4) 0 @ le_bytes 4 1"

definition scan3 :: "scan \<times> memory_store" where
  "scan3 = (mk_Scan (mk_NewSchema []) ''t'', MemoryStore\<lparr>ms_blocks := [[] \<mapsto> replicate 3 (mk_Block zimg 0)]\<rparr>)"

definition wide_ns :: NewSchema where
  "wide_ns = \<lparr>ns_totalsize = 32768, ns_vd = [], ns_accum = []\<rparr>"

lemma zimg_facts: "length zimg = BLOCK_SIZE" "image_count zimg = 1" "image_tuples 32768 zimg = [half]"
proof -
  show l: "length zimg = BLOCK_SIZE" and c: "image_count zimg = 1" by (simp_all add: zimg_def image_count_def BLOCK_SIZE_def)
  have "take 32768 zimg = half" by (simp add: zimg_def half_def BLOCK_SIZE_def)
  then show "image_tuples 32768 zimg = [half]" by (simp add: image_tuples_def c)
qed

lemma half_range: "rng half = Some 0"
proof -
  have "rd_bytes half 8 8 = Some (replicate 8 0)" by (simp add: rd_bytes_def half_def)
  then have k: "tuple_key half = Some 0" by (simp add: tuple_key_def rd_u64_def)
  have "map range_bound [0..<CPU_CORE] = range_bound 0 # map range_bound [1..<CPU_CORE]" by (simp add: CPU_CORE_def upt_conv_Cons)
  moreover have "0 < u64_of_int (range_bound 0)" by (simp add: u64_of_int_def range_bound_def DATAVOLUME_def CPU_CORE_def)
  ultimately show ?thesis using k by (simp add: rng_def SL1_partition_def)
qed

lemma scan3_facts: "scan_valid scan3" "scan_rest scan3 = replicate 3 zimg"
  by (simp_all add: scan3_def scan_valid_def scan_rest_def mk_Scan_def stored_def zimg_facts)

theorem shuffle_lower_flushes_witness:
  "\<exists>st st' (log :: (nat \<times> bytes) list). SL1_prelude Some wide_ns [''a'', ''b''] 0 blank (\<lambda>_. blank) scan3 = Some st
    \<and> SL1_execute Scan_execute 4 st = Some (False, st')
    \<and> (\<exists>z. image_count z = 0 \<and> sl_out st' ! 0 = map snd (filter (\<lambda>e. fst e div 2 = 0) log) @ [z])
    \<and> map (image_tuples 32768 \<circ> snd) (filter (\<lambda>e. fst e = 0) log) = [[half]]"
proof -
  let ?ts = "replicate 3 half" and ?js = "replicate 3 zimg" and ?seqs = "[''a'', ''b'']"
  have fl: "flushed (BLOCK_SIZE div 32768) (filter (\<lambda>t. rng t = Some 0) ?ts) = [[half, half]]"
    by (simp add: half_range numeral_3_eq_3 flushed.simps BLOCK_SIZE_def)
  have v: "(BLOCK_SIZE - 4) div 32768 = 1" by (simp add: BLOCK_SIZE_def)
  have cores: "CPU_CORE div length ?seqs = 2" by (simp add: CPU_CORE_def flip: numeral_2_eq_2)
  have len: "Suc (length ?js) = 4" by simp
  have a: "scan_valid (the (Some scan3))" "Some scan3 \<noteq> None" "(0::nat) < 32768" "32768 = ns_totalsize wide_ns"
    "length ?seqs \<in> {1, 2, 4}" "(0::int) \<noteq> 10" "length blank = BLOCK_SIZE" "\<And>i::nat. length blank = BLOCK_SIZE"
    "?js = scan_rest (the (Some scan3))" "\<forall>t \<in> set ?ts. rng t \<noteq> None"
    using scan3_facts by (simp_all add: wide_ns_def half_range)
  have im: "\<forall>i \<in> set ?js. image_count i * 32768 \<le> BLOCK_SIZE \<and> length i = BLOCK_SIZE"
    using zimg_facts(1,2) by (simp add: BLOCK_SIZE_def)
  have ts: "?ts = concat (map (image_tuples 32768) ?js)" by (simp add: zimg_facts(3) numeral_3_eq_3)
  from shuffle_lower_flushes [where prelude = Some and junks = "\<lambda>_. blank", OF a(1-9) im ts a(10)]
  obtain st st' log where r:
    "SL1_prelude Some wide_ns ?seqs 0 blank (\<lambda>_. blank) scan3 = Some st"
    "SL1_execute Scan_execute 4 st = Some (False, st')"
    "\<forall>c < length ?seqs. \<exists>z. image_count z = 0 \<and> sl_out st' ! c = map snd (filter (\<lambda>e. fst e div 2 = c) log) @ [z]"
    "\<forall>r < CPU_CORE. map (image_tuples 32768 \<circ> snd) (filter (\<lambda>e. fst e = r) log)
       = map (take 1) (flushed (BLOCK_SIZE div 32768) (filter (\<lambda>t. rng t = Some r) ?ts))"
    unfolding cores v len by blast
  from r(3) have z: "\<exists>z. image_count z = 0 \<and> sl_out st' ! 0 = map snd (filter (\<lambda>e. fst e div 2 = 0) log) @ [z]" by simp
  from r(4) have m: "map (image_tuples 32768 \<circ> snd) (filter (\<lambda>e. fst e = 0) log) = [[half]]"
    using fl by (simp add: CPU_CORE_def)
  show ?thesis by (intro exI [of _ st] exI [of _ st'] exI [of _ log] conjI r(1) r(2) z m)
qed

end
