(* ===== verification/Mosito_Exchange.thy ===== *)
theory Mosito_Exchange
  imports Mosito_Shuffle
begin

text \<open>
  The receiving side of an exchange: the loop \<open>Merger::m_receive_select\<close> (\<^verbatim>\<open>common/m_merger.cpp\<close>), which
  moves blocks from the connections into the columns of a \<open>PCBuffer\<close>, and \<open>ShuffleUpper1::execute\<close>
  (\<^verbatim>\<open>physical/m_shuffle_upper1.cpp\<close>), which hands them to the parent operator. The two run in threads
  of their own: a step is one block moved by one of them, in any order.

  \<open>x_wire\<close> are the blocks each sender has sent and the merger has not received (TCP delivers them whole
  and in order), \<open>x_cols\<close> the columns of the buffer, \<open>x_got\<close> the images \<open>execute\<close> has returned with the
  column each came from, and \<open>x_lost\<close> the blocks for which \<open>put\<close> gave up: the merger ignores its result.
\<close>

record exchange =
  x_wire :: "bytes list list"
  x_cols :: "bcq list"
  x_block :: block
  x_mzero :: nat
  x_mdone :: bool
  x_temp :: block
  x_uzero :: nat
  x_udone :: bool
  x_got :: "(nat \<times> bytes) list"
  x_lost :: "(nat \<times> bytes) list"

text \<open>\<open>if(size()==0) if(++meet_zero_==n)\<close>: the counter and whether the end is reached.\<close>

definition meet_zero :: "nat \<Rightarrow> block \<Rightarrow> nat \<Rightarrow> (nat \<times> bool) option" where
  "meet_zero n b z = do {
     sz \<leftarrow> get_size b;
     Some (if sz = 0 then (Suc z, Suc z = n) else (z, False))
   }"

text \<open>A block of connection \<open>i\<close> received, stored, put into column \<open>i\<close> (or not) and counted.\<close>

definition m_receive_block :: "nat \<Rightarrow> exchange \<Rightarrow> exchange option" where
  "m_receive_block i x =
     (case x_wire x ! i of
        [] \<Rightarrow> None
      | data # rest \<Rightarrow> do {
          b \<leftarrow> storeBlock (blk_reset (x_block x)) data BLOCK_SIZE;
          (ok, q) \<leftarrow> bcq_push b (x_cols x ! i);
          (z, fin) \<leftarrow> meet_zero (length (x_wire x)) b (x_mzero x);
          Some (x\<lparr>x_wire := (x_wire x)[i := rest], x_cols := (x_cols x)[i := q], x_block := b, x_mzero := z,
                  x_mdone := fin, x_lost := (if ok then x_lost x else x_lost x @ [(i, data)])\<rparr>)
        })"

text \<open>A successful \<open>get\<close> on column \<open>i\<close> in \<open>execute(block)\<close>: it returns false at the last end mark.\<close>

definition SU1_execute :: "nat \<Rightarrow> block \<Rightarrow> exchange \<Rightarrow> (bool \<times> exchange) option" where
  "SU1_execute i block x = do {
     (ok, temp, q) \<leftarrow> bcq_pop (x_temp x) (x_cols x ! i);
     if ok then do {
       b \<leftarrow> storeBlock (blk_reset block) (blk_mem temp) BLOCK_SIZE;
       (z, fin) \<leftarrow> meet_zero (length (x_wire x)) b (x_uzero x);
       Some (\<not> fin, x\<lparr>x_cols := (x_cols x)[i := q], x_temp := temp, x_uzero := z, x_udone := fin,
                       x_got := x_got x @ [(i, blk_mem b)]\<rparr>)
     }
     else None
   }"

inductive ex_step :: "exchange \<Rightarrow> exchange \<Rightarrow> bool" where
  receive: "\<lbrakk>\<not> x_mdone x; i < length (x_wire x); m_receive_block i x = Some y\<rbrakk> \<Longrightarrow> ex_step x y"
| execute: "\<lbrakk>\<not> x_udone x; i < length (x_wire x); std_block k block; SU1_execute i block x = Some (ret, y)\<rbrakk> \<Longrightarrow> ex_step x y"

text \<open>The state after the preludes: \<open>junks\<close> are the contents of the blocks of the columns, \<open>n\<close> the number of senders.\<close>

definition ex_start :: "(nat \<Rightarrow> bytes list) \<Rightarrow> NewSchema \<Rightarrow> bytes list list \<Rightarrow> exchange" where
  "ex_start junks ns feeds = \<lparr>x_wire = feeds, x_cols = pcb_data (mk_PCBuffer junks ns (length feeds)),
     x_block = mk_Block (replicate BLOCK_SIZE 0) (ns_totalsize ns), x_mzero = 0, x_mdone = False,
     x_temp = mk_Block (replicate BLOCK_SIZE 0) (ns_get_bytes ns), x_uzero = 0, x_udone = False, x_got = [], x_lost = []\<rparr>"

section \<open>The invariant\<close>

definition col_ok :: "bcq \<Rightarrow> bool" where
  "col_ok q \<longleftrightarrow> bcq_valid q \<and> bcq_capacity q = COLUMN_CON"

abbreviation of_col :: "nat \<Rightarrow> (nat \<times> bytes) list \<Rightarrow> bytes list" where
  "of_col i es \<equiv> map snd (filter (\<lambda>e. fst e = i) es)"

definition zeros :: "bytes list \<Rightarrow> nat" where
  "zeros is = length (filter (\<lambda>i. image_count i = 0) is)"

lemma zeros_simps [simp]: "zeros [] = 0" "zeros (i # is) = (if image_count i = 0 then Suc (zeros is) else zeros is)"
  "zeros (is @ js) = zeros is + zeros js"
  by (simp_all add: zeros_def)

text \<open>\<open>sent x i\<close>: what connection \<open>i\<close> carried so far that was not lost.\<close>

definition ex_inv :: "bytes list list \<Rightarrow> exchange \<Rightarrow> bool" where
  "ex_inv feeds x \<longleftrightarrow> length (x_wire x) = length feeds \<and> length (x_cols x) = length feeds
     \<and> (\<forall>i < length feeds. col_ok (x_cols x ! i)) \<and> (\<exists>k. std_block k (x_block x)) \<and> (\<exists>k. std_block k (x_temp x))
     \<and> (\<forall>i < length feeds. \<forall>f \<in> set (x_wire x ! i). length f = BLOCK_SIZE)
     \<and> x_mzero x + (\<Sum>i < length feeds. zeros (x_wire x ! i)) = (\<Sum>i < length feeds. zeros (feeds ! i))
     \<and> x_uzero x = zeros (map snd (x_got x)) \<and> (\<forall>e \<in> set (x_got x). fst e < length feeds)
     \<and> (x_mdone x \<longleftrightarrow> x_mzero x = length feeds) \<and> (x_udone x \<longleftrightarrow> x_uzero x = length feeds)
     \<and> (x_lost x = [] \<longrightarrow> (\<forall>i < length feeds. of_col i (x_got x) @ bcq_contents (x_cols x ! i) @ x_wire x ! i = feeds ! i))"

lemma std_big: "std_block k b \<Longrightarrow> big_block b" "std_block k b \<Longrightarrow> blk_image b = blk_mem b"
  by (simp_all add: std_block_def big_block_def)

lemma meet_zero_spec:
  "std_block k b \<Longrightarrow> meet_zero n b z = Some (if image_count (blk_mem b) = 0 then (Suc z, Suc z = n) else (z, False))"
  by (simp add: meet_zero_def std_block_get_size)

lemma store_reset:
  assumes "std_block k b" "length d = BLOCK_SIZE"
  shows "\<exists>b'. storeBlock (blk_reset b) d BLOCK_SIZE = Some b' \<and> std_block k b' \<and> blk_mem b' = d"
proof -
  have "std_block k (blk_reset b)" using assms(1) by (simp add: std_block_def)
  then show ?thesis using storeBlock_std assms(2) by blast
qed

lemma sum_update:
  assumes "i < (n::nat)" "length ws = n"
  shows "(\<Sum>j < n. zeros (ws[i := w] ! j)) + zeros (ws ! i) = (\<Sum>j < n. zeros (ws ! j)) + zeros w"
proof -
  have "(\<Sum>j \<in> {..<n} - {i}. zeros (ws[i := w] ! j)) = (\<Sum>j \<in> {..<n} - {i}. zeros (ws ! j))" by (intro sum.cong) auto
  then show ?thesis using assms by (simp add: sum.remove [of "{..<n}" i])
qed

lemma all_update:
  assumes "\<forall>j < n. P (xs ! j)" "P v" "length xs = n"
  shows "\<forall>j < n. P (xs[i := v] ! j)"
  using assms by (metis nth_list_update_eq nth_list_update_neq)

text \<open>The two steps spelled out.\<close>

lemma receive_effect:
  assumes inv: "ex_inv feeds x" and i: "i < length feeds" and w: "x_wire x ! i = d # rest"
  defines "c \<equiv> bcq_contents (x_cols x ! i)"
  defines "z \<equiv> if image_count d = 0 then Suc (x_mzero x) else x_mzero x"
  obtains b q k where "std_block k b" "col_ok q" "bcq_contents q = (if length c < COLUMN_CON then c @ [d] else c)"
    "m_receive_block i x = Some (x\<lparr>x_wire := (x_wire x)[i := rest], x_cols := (x_cols x)[i := q], x_block := b, x_mzero := z,
       x_mdone := (image_count d = 0 \<and> z = length feeds), x_lost := (if length c < COLUMN_CON then x_lost x else x_lost x @ [(i, d)])\<rparr>)"
proof -
  have dl: "length d = BLOCK_SIZE" using inv i w by (auto simp: ex_inv_def)
  obtain k where k: "std_block k (x_block x)" using inv by (auto simp: ex_inv_def)
  obtain b where b: "storeBlock (blk_reset (x_block x)) d BLOCK_SIZE = Some b" "std_block k b" "blk_mem b = d"
    using store_reset [OF k dl] by blast
  have v: "bcq_valid (x_cols x ! i)" "bcq_capacity (x_cols x ! i) = COLUMN_CON" using inv i by (simp_all add: ex_inv_def col_ok_def)
  have len: "length (x_wire x) = length feeds" using inv by (simp add: ex_inv_def)
  obtain q where p: "bcq_push b (x_cols x ! i) = Some (length c < COLUMN_CON, q)" "col_ok q"
    "bcq_contents q = (if length c < COLUMN_CON then c @ [d] else c)"
    by (cases rule: bcq.push_cases [OF v(1) std_big(1) [OF b(2)]]) (use v std_big(2) [OF b(2)] b(3) in \<open>auto simp: c_def col_ok_def\<close>)
  show ?thesis
  proof (rule that [OF b(2) p(2,3)])
    show "m_receive_block i x = Some (x\<lparr>x_wire := (x_wire x)[i := rest], x_cols := (x_cols x)[i := q], x_block := b, x_mzero := z,
       x_mdone := (image_count d = 0 \<and> z = length feeds), x_lost := (if length c < COLUMN_CON then x_lost x else x_lost x @ [(i, d)])\<rparr>)"
      using w b(1,3) p(1) meet_zero_spec [OF b(2)] len by (simp add: m_receive_block_def z_def)
  qed
qed

lemma execute_effect:
  assumes inv: "ex_inv feeds x" and i: "i < length feeds" and blk: "std_block kb block" and d: "bcq_contents (x_cols x ! i) = d # ds"
  defines "z \<equiv> if image_count d = 0 then Suc (x_uzero x) else x_uzero x"
  defines "fin \<equiv> image_count d = 0 \<and> z = length feeds"
  obtains t q k where "std_block k t" "col_ok q" "bcq_contents q = ds"
    "SU1_execute i block x = Some (\<not> fin, x\<lparr>x_cols := (x_cols x)[i := q], x_temp := t, x_uzero := z, x_udone := fin, x_got := x_got x @ [(i, d)]\<rparr>)"
proof -
  obtain k where k: "std_block k (x_temp x)" using inv by (auto simp: ex_inv_def)
  have v: "bcq_valid (x_cols x ! i)" "bcq_capacity (x_cols x ! i) = COLUMN_CON" using inv i by (simp_all add: ex_inv_def col_ok_def)
  have len: "length (x_wire x) = length feeds" using inv by (simp add: ex_inv_def)
  obtain t q where t: "bcq_pop (x_temp x) (x_cols x ! i) = Some (True, t, q)" "blk_image t = d" "col_ok q" "bcq_contents q = ds"
    "length (blk_mem t) = length (blk_mem (x_temp x))" "blk_size t = blk_size (x_temp x)" "blk_tuple_size t = blk_tuple_size (x_temp x)"
    using bcq_pop_nonempty [OF v(1) d std_big(1) [OF k]] v(2) by (auto simp: col_ok_def)
  have st: "std_block k t" using t(5-7) k by (simp add: std_block_def)
  then have td: "blk_mem t = d" "length d = BLOCK_SIZE" using t(2) std_big(2) by (auto simp: std_block_def)
  obtain b where b: "storeBlock (blk_reset block) d BLOCK_SIZE = Some b" "std_block kb b" "blk_mem b = d"
    using store_reset [OF blk td(2)] by blast
  show ?thesis
    by (rule that [OF st t(3,4)]) (use t(1) td(1) b meet_zero_spec [OF b(2)] len in \<open>simp add: SU1_execute_def z_def fin_def\<close>)
qed

lemma receive_inv:
  assumes inv: "ex_inv feeds x" and i: "i < length feeds" and m: "\<not> x_mdone x" and r: "m_receive_block i x = Some y"
  shows "ex_inv feeds y"
proof -
  have len: "length (x_wire x) = length feeds" "length (x_cols x) = length feeds" using inv by (simp_all add: ex_inv_def)
  obtain d rest where w: "x_wire x ! i = d # rest" using r by (cases "x_wire x ! i") (auto simp: m_receive_block_def)
  let ?c = "bcq_contents (x_cols x ! i)"
  let ?z = "if image_count d = 0 then Suc (x_mzero x) else x_mzero x"
  obtain b q k where e: "std_block k b" "col_ok q" "bcq_contents q = (if length ?c < COLUMN_CON then ?c @ [d] else ?c)"
    "m_receive_block i x = Some (x\<lparr>x_wire := (x_wire x)[i := rest], x_cols := (x_cols x)[i := q], x_block := b, x_mzero := ?z,
       x_mdone := (image_count d = 0 \<and> ?z = length feeds), x_lost := (if length ?c < COLUMN_CON then x_lost x else x_lost x @ [(i, d)])\<rparr>)"
    using receive_effect [OF inv i w] by blast
  have y: "y = x\<lparr>x_wire := (x_wire x)[i := rest], x_cols := (x_cols x)[i := q], x_block := b, x_mzero := ?z,
       x_mdone := (image_count d = 0 \<and> ?z = length feeds), x_lost := (if length ?c < COLUMN_CON then x_lost x else x_lost x @ [(i, d)])\<rparr>"
    using e(4) r by simp
  have z: "?z + (\<Sum>j < length feeds. zeros ((x_wire x)[i := rest] ! j)) = (\<Sum>j < length feeds. zeros (feeds ! j))"
    using sum_update [OF i len(1), of rest] w inv by (auto simp: ex_inv_def)
  have c: "of_col j (x_got x) @ bcq_contents ((x_cols x)[i := q] ! j) @ (x_wire x)[i := rest] ! j = feeds ! j"
    if "j < length feeds" "length ?c < COLUMN_CON" "x_lost x = []" for j
  proof -
    have "of_col j (x_got x) @ bcq_contents (x_cols x ! j) @ x_wire x ! j = feeds ! j" using inv that by (simp add: ex_inv_def)
    then show ?thesis using e(3) that(2) w len that(1) by (cases "j = i") auto
  qed
  have ws: "\<forall>j < length feeds. \<forall>f \<in> set ((x_wire x)[i := rest] ! j). length f = BLOCK_SIZE"
  proof (rule all_update [OF _ _ len(1)])
    show a: "\<forall>j < length feeds. \<forall>f \<in> set (x_wire x ! j). length f = BLOCK_SIZE" using inv by (simp add: ex_inv_def)
    show "\<forall>f \<in> set rest. length f = BLOCK_SIZE" using a [rule_format, OF i] w by simp
  qed
  have "\<forall>j < length feeds. col_ok ((x_cols x)[i := q] ! j)"
    using all_update [of "length feeds" col_ok "x_cols x" q i] inv e(2) len by (simp add: ex_inv_def)
  then show ?thesis using inv m z c ws e(1) len unfolding ex_inv_def y by (auto split: if_splits)
qed

lemma pop_contents:
  assumes "SU1_execute i block x = Some (ret, y)" obtains d ds where "bcq_contents (x_cols x ! i) = d # ds"
  using assms by (cases "bcq_blocks (x_cols x ! i)") (auto simp: SU1_execute_def bcq_pop_def bcq_contents_def)

lemma execute_inv:
  assumes inv: "ex_inv feeds x" and i: "i < length feeds" and m: "\<not> x_udone x" and blk: "std_block kb block"
    and r: "SU1_execute i block x = Some (ret, y)"
  shows "ex_inv feeds y"
proof -
  have len: "length (x_cols x) = length feeds" using inv by (simp add: ex_inv_def)
  obtain d ds where d: "bcq_contents (x_cols x ! i) = d # ds" using pop_contents [OF r] .
  let ?z = "if image_count d = 0 then Suc (x_uzero x) else x_uzero x"
  let ?fin = "image_count d = 0 \<and> ?z = length feeds"
  obtain t q k where e: "std_block k t" "col_ok q" "bcq_contents q = ds"
    "SU1_execute i block x = Some (\<not> ?fin, x\<lparr>x_cols := (x_cols x)[i := q], x_temp := t, x_uzero := ?z, x_udone := ?fin, x_got := x_got x @ [(i, d)]\<rparr>)"
    using execute_effect [OF inv i blk d] by blast
  have y: "y = x\<lparr>x_cols := (x_cols x)[i := q], x_temp := t, x_uzero := ?z, x_udone := ?fin, x_got := x_got x @ [(i, d)]\<rparr>"
    using e(4) r by simp
  have c: "of_col j (x_got x @ [(i, d)]) @ bcq_contents ((x_cols x)[i := q] ! j) @ x_wire x ! j = feeds ! j"
    if "j < length feeds" "x_lost x = []" for j
  proof -
    have "of_col j (x_got x) @ bcq_contents (x_cols x ! j) @ x_wire x ! j = feeds ! j" using inv that by (simp add: ex_inv_def)
    then show ?thesis using d e(3) len that(1) by (cases "j = i") auto
  qed
  have "\<forall>j < length feeds. col_ok ((x_cols x)[i := q] ! j)"
    using all_update [of "length feeds" col_ok "x_cols x" q i] inv e(2) len by (simp add: ex_inv_def)
  then show ?thesis using inv m c e(1) i unfolding ex_inv_def y by (auto split: if_splits)
qed

lemma ex_step_inv: "ex_step x y \<Longrightarrow> ex_inv feeds x \<Longrightarrow> ex_inv feeds y"
proof (induction rule: ex_step.induct)
  case (receive x i y)
  then have "i < length feeds" by (simp add: ex_inv_def)
  with receive show ?case using receive_inv by blast
next
  case (execute x i k block ret y)
  then have "i < length feeds" by (simp add: ex_inv_def)
  with execute show ?case using execute_inv by blast
qed

definition good_junks :: "(nat \<Rightarrow> bytes list) \<Rightarrow> bool" where
  "good_junks junks \<longleftrightarrow> (\<forall>i. length (junks i) = COLUMN_CON \<and> list_all (\<lambda>j. length j = BLOCK_SIZE) (junks i))"

lemma ex_start_inv:
  assumes "good_junks junks" "\<forall>f \<in> set feeds. \<forall>i \<in> set f. length i = BLOCK_SIZE" "feeds \<noteq> []"
  shows "ex_inv feeds (ex_start junks ns feeds)"
proof -
  have q: "bcq_valid (mk_BlockCircleQueue (junks i) COLUMN_CON)" "bcq_contents (mk_BlockCircleQueue (junks i) COLUMN_CON) = []"
    "bcq_capacity (mk_BlockCircleQueue (junks i) COLUMN_CON) = COLUMN_CON" for i
    using mk_BlockCircleQueue_valid [of "junks i" COLUMN_CON] assms(1) by (auto simp: good_junks_def)
  show ?thesis using assms(2,3) q unfolding ex_inv_def ex_start_def mk_PCBuffer_def
    by (auto simp: std_block_def col_ok_def)
qed

lemma ex_reach_inv:
  assumes "good_junks junks" "\<forall>f \<in> set feeds. \<forall>i \<in> set f. length i = BLOCK_SIZE" "feeds \<noteq> []" "ex_step\<^sup>*\<^sup>* (ex_start junks ns feeds) x"
  shows "ex_inv feeds x"
  using assms(4)
proof (induction rule: rtranclp_induct)
  case base
  show ?case using ex_start_inv [OF assms(1-3)] .
qed (rule ex_step_inv)

section \<open>Delivery\<close>

lemma zeros_by_column:
  "\<forall>e \<in> set es. fst e < n \<Longrightarrow> (\<Sum>i < n. zeros (of_col i es)) = zeros (map snd es)"
proof (induction es)
  case (Cons e es)
  have "(\<Sum>i < n. zeros (of_col i (e # es))) = (\<Sum>i < n. zeros (of_col i es) + (if i = fst e then (if image_count (snd e) = 0 then 1 else 0) else 0))"
    by (intro sum.cong) auto
  also have "\<dots> = zeros (map snd es) + (if image_count (snd e) = 0 then 1 else 0)"
    using Cons by (simp add: sum.distrib)
  finally show ?case by simp
qed simp

text \<open>A stream as a sender makes it: data blocks, then one end mark.\<close>

definition ended :: "bytes list \<Rightarrow> bool" where
  "ended f \<longleftrightarrow> f \<noteq> [] \<and> image_count (last f) = 0 \<and> zeros f = 1"

lemma ended_prefix:
  assumes "ended (p @ s)" "zeros p = 1"
  shows "s = []"
proof (rule ccontr)
  assume s: "s \<noteq> []"
  then obtain s' where "s = s' @ [last s]" by (metis append_butlast_last_id)
  moreover have "image_count (last s) = 0" using assms(1) s by (simp add: ended_def)
  ultimately have "0 < zeros s" by (metis zeros_simps(2,3) add_is_0 not_gr_zero zero_less_Suc)
  then show False using assms by (simp add: ended_def)
qed

lemma all_ones:
  fixes a :: "nat \<Rightarrow> nat"
  assumes "\<forall>i < n. a i \<le> 1" "(\<Sum>i < n. a i) = n" "i < n"
  shows "a i = 1"
proof (rule ccontr)
  assume "a i \<noteq> 1"
  then have "(\<Sum>i < n. a i) < (\<Sum>i < n. 1)" using assms(1,3) by (intro sum_strict_mono_ex1) (auto intro!: bexI [of _ i])
  then show False using assms(2) by simp
qed

text \<open>When the last end mark has been handed out, so has everything else.\<close>

lemma ex_done_all:
  assumes inv: "ex_inv feeds x" and en: "\<forall>f \<in> set feeds. ended f" and "x_lost x = []" "x_uzero x = length feeds" "i < length feeds"
  shows "of_col i (x_got x) = feeds ! i"
proof -
  let ?n = "length feeds"
  have split: "of_col j (x_got x) @ bcq_contents (x_cols x ! j) @ x_wire x ! j = feeds ! j" if "j < ?n" for j
    using inv assms(3) that by (simp add: ex_inv_def)
  have "(\<Sum>j < ?n. zeros (of_col j (x_got x))) = x_uzero x" using zeros_by_column inv by (simp add: ex_inv_def)
  then have got: "(\<Sum>j < ?n. zeros (of_col j (x_got x))) = ?n" using assms(4) by simp
  have "zeros (of_col j (x_got x)) \<le> 1" if "j < ?n" for j
  proof -
    have "zeros (feeds ! j) = 1" using en that by (simp add: ended_def)
    then show ?thesis using split [OF that] by (metis le_add1 zeros_simps(3))
  qed
  then have "zeros (of_col i (x_got x)) = 1" using all_ones [of ?n "\<lambda>i. zeros (of_col i (x_got x))"] got assms(5) by simp
  then have "bcq_contents (x_cols x ! i) @ x_wire x ! i = []" using ended_prefix en split assms(5) by (metis nth_mem)
  then show ?thesis using split [OF assms(5)] by simp
qed

text \<open>
  C4. An exchange delivers everything, in order, as long as no \<open>put\<close> gives up: in every reachable
  state the blocks of sender \<open>i\<close> handed to the parent, those in its column and those not yet received
  are what the sender sent, in order; when \<open>execute\<close> has returned false, every block of every sender
  has been handed out; and until then one of the two threads can move a block.
\<close>

theorem exchange_delivers:
  assumes "good_junks junks" "\<forall>f \<in> set feeds. \<forall>i \<in> set f. length i = BLOCK_SIZE" "feeds \<noteq> []" "\<forall>f \<in> set feeds. ended f"
    and "ex_step\<^sup>*\<^sup>* (ex_start junks ns feeds) x" "x_lost x = []"
  shows "(\<forall>i < length feeds. of_col i (x_got x) @ bcq_contents (x_cols x ! i) @ x_wire x ! i = feeds ! i)
    \<and> (if x_udone x then \<forall>i < length feeds. of_col i (x_got x) = feeds ! i else \<exists>y. ex_step x y)"
proof -
  let ?n = "length feeds"
  have inv: "ex_inv feeds x" using ex_reach_inv [OF assms(1-3,5)] .
  have split: "of_col i (x_got x) @ bcq_contents (x_cols x ! i) @ x_wire x ! i = feeds ! i" if "i < ?n" for i
    using inv assms(6) that by (simp add: ex_inv_def)
  have en: "ended (feeds ! i)" if "i < ?n" for i using assms(4) that by simp
  have got: "(\<Sum>i < ?n. zeros (of_col i (x_got x))) = x_uzero x" using zeros_by_column inv by (simp add: ex_inv_def)
  have le: "zeros (of_col i (x_got x)) + zeros (bcq_contents (x_cols x ! i)) + zeros (x_wire x ! i) = 1" if "i < ?n" for i
    using en [OF that] split [OF that] unfolding ended_def by (metis add.assoc zeros_simps(3))
  have all: "of_col i (x_got x) = feeds ! i" if "x_uzero x = ?n" "i < ?n" for i
    using ex_done_all [OF inv assms(4,6) that] .
  have "\<exists>y. ex_step x y" if u: "\<not> x_udone x"
  proof -
    have "x_uzero x \<noteq> ?n" using inv u by (simp add: ex_inv_def)
    have "\<exists>i < ?n. bcq_contents (x_cols x ! i) @ x_wire x ! i \<noteq> []"
    proof (rule ccontr)
      assume c: "\<not> ?thesis"
      then have "zeros (of_col i (x_got x)) = 1" if "i < ?n" for i using le [OF that] that by auto
      then have "x_uzero x = ?n" using got by simp
      then show False using \<open>x_uzero x \<noteq> ?n\<close> by simp
    qed
    then obtain i where i: "i < ?n" "bcq_contents (x_cols x ! i) @ x_wire x ! i \<noteq> []" by blast
    have len: "length (x_wire x) = ?n" using inv by (simp add: ex_inv_def)
    show ?thesis
    proof (cases "bcq_contents (x_cols x ! i)")
      case (Cons d ds)
      have std: "std_block 0 (mk_Block (replicate BLOCK_SIZE 0) 0)" by simp
      show ?thesis using execute_effect [OF inv i(1) std Cons] ex_step.execute [OF u _ std] i(1) len by metis
    next
      case Nil
      then obtain d rest where w: "x_wire x ! i = d # rest" using i(2) by (cases "x_wire x ! i") auto
      have "\<not> x_mdone x"
      proof
        assume "x_mdone x"
        moreover have "(\<Sum>j < ?n. zeros (feeds ! j)) = ?n" using en by (simp add: ended_def)
        ultimately have "(\<Sum>j < ?n. zeros (x_wire x ! j)) = 0" using inv by (auto simp: ex_inv_def)
        then have "zeros (x_wire x ! i) = 0" using i(1) by simp
        then have "zeros (of_col i (x_got x)) = 1" using le [OF i(1)] Nil by simp
        then show False using ended_prefix [of "of_col i (x_got x)" "x_wire x ! i"] en [OF i(1)] split [OF i(1)] Nil w by simp
      qed
      then show ?thesis using receive_effect [OF inv i(1) w] ex_step.receive i(1) len by metis
    qed
  qed
  then show ?thesis using split all inv by (auto simp: ex_inv_def)
qed

section \<open>An exchange can end\<close>

text \<open>A schedule in which every block received is handed on at once.\<close>

lemma ex_move:
  assumes inv: "ex_inv feeds x" and en: "\<forall>f \<in> set feeds. ended f" and e: "\<forall>i < length feeds. bcq_contents (x_cols x ! i) = []"
    and l: "x_lost x = []" and u: "\<not> x_udone x"
  shows "\<exists>y. ex_step\<^sup>*\<^sup>* x y \<and> ex_inv feeds y \<and> (\<forall>i < length feeds. bcq_contents (x_cols y ! i) = []) \<and> x_lost y = []
    \<and> sum_list (map length (x_wire y)) < sum_list (map length (x_wire x))"
proof -
  let ?n = "length feeds"
  have len: "length (x_wire x) = ?n" "length (x_cols x) = ?n" using inv by (simp_all add: ex_inv_def)
  have one: "zeros (of_col j (x_got x)) + zeros (x_wire x ! j) = 1" if j: "j < ?n" for j
  proof -
    have "of_col j (x_got x) @ x_wire x ! j = feeds ! j" using inv l e j by (simp add: ex_inv_def)
    moreover have "zeros (feeds ! j) = 1" using en j by (simp add: ended_def)
    ultimately show ?thesis by (metis zeros_simps(3))
  qed
  have "(\<Sum>j < ?n. zeros (of_col j (x_got x))) = x_uzero x" using zeros_by_column inv by (simp add: ex_inv_def)
  moreover have "x_uzero x \<noteq> ?n" using inv u by (simp add: ex_inv_def)
  moreover have "(\<Sum>j < ?n. zeros (of_col j (x_got x))) = ?n" if "\<forall>j < ?n. zeros (of_col j (x_got x)) = 1" using that by simp
  ultimately obtain i where i: "i < ?n" "zeros (of_col i (x_got x)) \<noteq> 1" by metis
  then have zi: "zeros (x_wire x ! i) = 1" using one [OF i(1)] by linarith
  then obtain d rest where w: "x_wire x ! i = d # rest" by (cases "x_wire x ! i") auto
  have "(\<Sum>j < ?n. zeros (feeds ! j)) = ?n" using en by (simp add: ended_def)
  moreover have "zeros (x_wire x ! i) \<le> (\<Sum>j < ?n. zeros (x_wire x ! j))" using i(1) by (intro member_le_sum) auto
  ultimately have m: "\<not> x_mdone x" using inv zi by (auto simp: ex_inv_def)
  obtain b q k where r: "bcq_contents q = [d]"
    "m_receive_block i x = Some (x\<lparr>x_wire := (x_wire x)[i := rest], x_cols := (x_cols x)[i := q], x_block := b,
       x_mzero := if image_count d = 0 then Suc (x_mzero x) else x_mzero x,
       x_mdone := (image_count d = 0 \<and> (if image_count d = 0 then Suc (x_mzero x) else x_mzero x) = ?n), x_lost := []\<rparr>)" (is "_ = Some ?x1")
    by (rule receive_effect [OF inv i(1) w]) (use e i(1) l in \<open>auto simp: COLUMN_CON_def\<close>)
  have s1: "ex_step x ?x1" using ex_step.receive [OF m _ r(2)] i(1) len by simp
  have inv1: "ex_inv feeds ?x1" by (rule ex_step_inv [OF s1 inv])
  have c1: "bcq_contents (x_cols ?x1 ! i) = d # []" using r(1) len i(1) by simp
  have std: "std_block 0 (mk_Block (replicate BLOCK_SIZE 0) 0)" by simp
  show ?thesis
  proof (rule execute_effect [OF inv1 i(1) std c1])
    fix t q' k' assume q': "bcq_contents q' = []"
      and y: "SU1_execute i (mk_Block (replicate BLOCK_SIZE 0) 0) ?x1 = Some (\<not> (image_count d = 0 \<and> (if image_count d = 0 then Suc (x_uzero ?x1) else x_uzero ?x1) = ?n),
        ?x1\<lparr>x_cols := (x_cols ?x1)[i := q'], x_temp := t, x_uzero := if image_count d = 0 then Suc (x_uzero ?x1) else x_uzero ?x1,
        x_udone := image_count d = 0 \<and> (if image_count d = 0 then Suc (x_uzero ?x1) else x_uzero ?x1) = ?n, x_got := x_got ?x1 @ [(i, d)]\<rparr>)"
      (is "_ = Some (_, ?y)")
    have s2: "ex_step ?x1 ?y" using ex_step.execute [OF _ _ std y] u i(1) len by simp
    have "sum_list (map length ((x_wire x)[i := rest])) < sum_list (map length (x_wire x))"
      using sum_list_update [of i "map length (x_wire x)" "length rest"] i(1) len w elem_le_sum_list [of i "map length (x_wire x)"]
      by (simp add: map_update)
    then have "sum_list (map length (x_wire ?y)) < sum_list (map length (x_wire x))" by simp
    moreover have "\<forall>j < ?n. bcq_contents (x_cols ?y ! j) = []" using e q' len i(1) by (auto simp: nth_list_update)
    moreover have "ex_step\<^sup>*\<^sup>* x ?y" using s1 s2 by (meson converse_rtranclp_into_rtranclp r_into_rtranclp)
    ultimately show ?thesis using ex_step_inv [OF s2 inv1] by (intro exI [of _ ?y]) simp
  qed
qed

lemma ex_completes:
  assumes "ex_inv feeds x" "\<forall>f \<in> set feeds. ended f" "\<forall>i < length feeds. bcq_contents (x_cols x ! i) = []" "x_lost x = []"
  shows "\<exists>y. ex_step\<^sup>*\<^sup>* x y \<and> x_udone y \<and> x_lost y = []"
  using assms(1,3,4)
proof (induction "sum_list (map length (x_wire x))" arbitrary: x rule: less_induct)
  case less
  show ?case
  proof (cases "x_udone x")
    case False
    obtain y where y: "ex_step\<^sup>*\<^sup>* x y" "ex_inv feeds y" "\<forall>i < length feeds. bcq_contents (x_cols y ! i) = []" "x_lost y = []"
      "sum_list (map length (x_wire y)) < sum_list (map length (x_wire x))"
      using ex_move [OF less.prems(1) assms(2) less.prems(2,3) False] by blast
    then show ?thesis using less.hyps [OF y(5,2-4)] by (meson rtranclp_trans)
  qed (use less.prems in blast)
qed

lemma ex_start_completes:
  assumes "good_junks junks" "\<forall>f \<in> set feeds. \<forall>i \<in> set f. length i = BLOCK_SIZE" "feeds \<noteq> []" "\<forall>f \<in> set feeds. ended f"
  shows "\<exists>x. ex_step\<^sup>*\<^sup>* (ex_start junks ns feeds) x \<and> x_udone x \<and> x_lost x = []"
proof (rule ex_completes [OF ex_start_inv [OF assms(1-3)] assms(4)])
  have "bcq_contents (mk_BlockCircleQueue (junks i) COLUMN_CON) = []" for i
    using mk_BlockCircleQueue_valid [of "junks i" COLUMN_CON] assms(1) by (auto simp: good_junks_def)
  then show "\<forall>i < length feeds. bcq_contents (x_cols (ex_start junks ns feeds) ! i) = []" by (simp add: ex_start_def mk_PCBuffer_def)
qed (simp add: ex_start_def)

section \<open>A lost end mark\<close>

text \<open>What is gone for good: everything but the blocks handed out, in the columns and on the wire.\<close>

definition left_zeros :: "nat \<Rightarrow> exchange \<Rightarrow> nat" where
  "left_zeros n x = x_uzero x + (\<Sum>i < n. zeros (bcq_contents (x_cols x ! i)) + zeros (x_wire x ! i))"

lemma sum_update2:
  fixes a b :: "nat \<Rightarrow> nat"
  assumes "i < n" "\<And>j. j \<noteq> i \<Longrightarrow> a j = b j"
  shows "(\<Sum>j < n. a j) + b i = (\<Sum>j < n. b j) + a i"
proof -
  have "(\<Sum>j \<in> {..<n} - {i}. a j) = (\<Sum>j \<in> {..<n} - {i}. b j)" using assms(2) by (intro sum.cong) auto
  then show ?thesis using assms(1) by (simp add: sum.remove [of "{..<n}" i])
qed

lemma left_update:
  assumes "i < n" "\<And>j. j \<noteq> i \<Longrightarrow> x_cols y ! j = x_cols x ! j \<and> x_wire y ! j = x_wire x ! j"
    and "x_uzero y + zeros (bcq_contents (x_cols y ! i)) + zeros (x_wire y ! i) \<le> x_uzero x + zeros (bcq_contents (x_cols x ! i)) + zeros (x_wire x ! i)"
  shows "left_zeros n y \<le> left_zeros n x"
proof -
  let ?f = "\<lambda>x j. zeros (bcq_contents (x_cols x ! j)) + zeros (x_wire x ! j)"
  have "(\<Sum>j < n. ?f y j) + ?f x i = (\<Sum>j < n. ?f x j) + ?f y i" using assms(1,2) by (intro sum_update2) auto
  then show ?thesis using assms(3) unfolding left_zeros_def by linarith
qed

lemma step_left:
  assumes "ex_step x y" and inv: "ex_inv feeds x"
  shows "left_zeros (length feeds) y \<le> left_zeros (length feeds) x"
  using assms(1)
proof cases
  case (receive i)
  have len: "length (x_wire x) = length feeds" "length (x_cols x) = length feeds" using inv by (simp_all add: ex_inv_def)
  then have i: "i < length feeds" using receive by simp
  obtain d rest where w: "x_wire x ! i = d # rest" using receive(3) by (cases "x_wire x ! i") (auto simp: m_receive_block_def)
  show ?thesis
    by (rule receive_effect [OF inv i w], rule left_update [OF i]) (use receive w len i in \<open>auto split: if_splits\<close>)
next
  case (execute i k block ret)
  have len: "length (x_wire x) = length feeds" "length (x_cols x) = length feeds" using inv by (simp_all add: ex_inv_def)
  then have i: "i < length feeds" using execute by simp
  obtain d ds where d: "bcq_contents (x_cols x ! i) = d # ds" using pop_contents [OF execute(4)] .
  show ?thesis
    by (rule execute_effect [OF inv i execute(3) d], rule left_update [OF i]) (use execute d len i in \<open>auto split: if_splits\<close>)
qed

text \<open>
  C39. An exchange hangs after a lost end mark: the merger ignores that \<open>put\<close> gave up. In a reachable
  state in which fewer end marks are left (handed out, in a column or on the wire) than there are
  senders, whatever happens next \<open>execute\<close> never returns false.
\<close>

theorem exchange_hangs:
  assumes "good_junks junks" "\<forall>f \<in> set feeds. \<forall>i \<in> set f. length i = BLOCK_SIZE" "feeds \<noteq> []"
    and "ex_step\<^sup>*\<^sup>* (ex_start junks ns feeds) x" "left_zeros (length feeds) x < length feeds" "ex_step\<^sup>*\<^sup>* x y"
  shows "\<not> x_udone y"
proof -
  have "ex_inv feeds y \<and> left_zeros (length feeds) y < length feeds"
    using assms(6)
  proof (induction rule: rtranclp_induct)
    case base
    show ?case using ex_reach_inv [OF assms(1-4)] assms(5) by simp
  next
    case (step u v)
    then show ?case using step_left [OF step(2)] ex_step_inv [OF step(2)] by force
  qed
  then show ?thesis by (simp add: ex_inv_def left_zeros_def)
qed

section \<open>Witnesses\<close>

definition junk20 :: "nat \<Rightarrow> bytes list" where
  "junk20 i = replicate COLUMN_CON blank"

definition one_ns :: NewSchema where
  "one_ns = mk_NewSchema [UnLongType t_long, UnLongType t_long]"

lemma junk20_good: "good_junks junk20"
  by (simp add: good_junks_def junk20_def list_all_iff)

text \<open>Two senders, one with a data block: the first step is possible.\<close>

theorem exchange_delivers_witness:
  "\<exists>y. ex_step (ex_start junk20 one_ns [[img 7, img 0], [img 0]]) y"
proof -
  let ?x = "ex_start junk20 one_ns [[img 7, img 0], [img 0]]"
  have "ended [img 7, img 0]" "ended [img 0]" by (simp_all add: ended_def)
  then show ?thesis
    using exchange_delivers [OF junk20_good, of "[[img 7, img 0], [img 0]]" one_ns ?x] by (simp add: ex_start_def)
qed

text \<open>One sender fills its column with twenty blocks; the end mark finds no room.\<close>

definition full_feed :: "bytes list" where
  "full_feed = replicate COLUMN_CON (img 7) @ [img 0]"

lemma feed_sizes: "\<forall>f \<in> set [full_feed]. \<forall>i \<in> set f. length i = BLOCK_SIZE"
  by (simp add: full_feed_def)

lemma column_fills:
  "m \<le> COLUMN_CON \<Longrightarrow> \<exists>x. ex_step\<^sup>*\<^sup>* (ex_start junk20 one_ns [full_feed]) x \<and> x_wire x = [drop m full_feed]
    \<and> bcq_contents (x_cols x ! 0) = replicate m (img 7) \<and> \<not> x_mdone x \<and> x_uzero x = 0 \<and> x_got x = []"
proof (induction m)
  case 0
  have "bcq_contents (x_cols (ex_start junk20 one_ns [full_feed]) ! 0) = []"
    using mk_BlockCircleQueue_valid(2) [of "junk20 0" COLUMN_CON]
    by (simp add: ex_start_def mk_PCBuffer_def junk20_def list_all_iff)
  then show ?case by (intro exI [of _ "ex_start junk20 one_ns [full_feed]"]) (simp add: ex_start_def)
next
  case (Suc m)
  then obtain x where x: "ex_step\<^sup>*\<^sup>* (ex_start junk20 one_ns [full_feed]) x" "x_wire x = [drop m full_feed]"
    "bcq_contents (x_cols x ! 0) = replicate m (img 7)" "\<not> x_mdone x" "x_uzero x = 0" "x_got x = []" by auto
  have inv: "ex_inv [full_feed] x" using ex_reach_inv [OF junk20_good feed_sizes _ x(1)] by simp
  have "drop m full_feed = img 7 # drop (Suc m) full_feed"
    using Suc.prems by (subst Cons_nth_drop_Suc [symmetric]) (simp_all add: full_feed_def nth_append)
  then have w: "x_wire x ! 0 = img 7 # drop (Suc m) full_feed" using x(2) by simp
  have len: "length (x_cols x) = 1" using inv by (simp add: ex_inv_def)
  have i: "0 < length [full_feed]" "0 < length (x_wire x)" using x(2) by simp_all
  show ?case
  proof (rule receive_effect [OF inv i(1) w])
    fix b q k
    assume e: "bcq_contents q = (if length (bcq_contents (x_cols x ! 0)) < COLUMN_CON then bcq_contents (x_cols x ! 0) @ [img 7]
        else bcq_contents (x_cols x ! 0))"
      and m: "m_receive_block 0 x = Some (x\<lparr>x_wire := (x_wire x)[0 := drop (Suc m) full_feed], x_cols := (x_cols x)[0 := q], x_block := b,
        x_mzero := if image_count (img 7) = 0 then Suc (x_mzero x) else x_mzero x,
        x_mdone := image_count (img 7) = 0 \<and> (if image_count (img 7) = 0 then Suc (x_mzero x) else x_mzero x) = length [full_feed],
        x_lost := if length (bcq_contents (x_cols x ! 0)) < COLUMN_CON then x_lost x else x_lost x @ [(0, img 7)]\<rparr>)" (is "_ = Some ?y")
    have "ex_step\<^sup>*\<^sup>* (ex_start junk20 one_ns [full_feed]) ?y" using x(1) ex_step.receive [OF x(4) i(2) m] by (rule rtranclp.rtrancl_into_rtrancl)
    moreover have "bcq_contents q = replicate (Suc m) (img 7)" using e x(3) Suc.prems by (simp flip: replicate_append_same)
    ultimately show ?thesis using x len by (intro exI [of _ ?y]) simp
  qed
qed

theorem exchange_hangs_witness:
  "\<exists>x. ex_step\<^sup>*\<^sup>* (ex_start junk20 one_ns [full_feed]) x \<and> (\<forall>y. ex_step\<^sup>*\<^sup>* x y \<longrightarrow> \<not> x_udone y)"
proof -
  obtain x where x: "ex_step\<^sup>*\<^sup>* (ex_start junk20 one_ns [full_feed]) x" "x_wire x = [drop COLUMN_CON full_feed]"
    "bcq_contents (x_cols x ! 0) = replicate COLUMN_CON (img 7)" "\<not> x_mdone x" "x_uzero x = 0" "x_got x = []"
    using column_fills [of COLUMN_CON] by auto
  have inv: "ex_inv [full_feed] x" using ex_reach_inv [OF junk20_good feed_sizes _ x(1)] by simp
  have w: "x_wire x ! 0 = img 0 # []" using x(2) by (simp add: full_feed_def)
  have i: "0 < length [full_feed]" "0 < length (x_wire x)" using x(2) by simp_all
  obtain y where y: "ex_step\<^sup>*\<^sup>* (ex_start junk20 one_ns [full_feed]) y" "left_zeros (length [full_feed]) y < length [full_feed]"
  proof (rule receive_effect [OF inv i(1) w])
    fix b q k
    assume e: "bcq_contents q = (if length (bcq_contents (x_cols x ! 0)) < COLUMN_CON then bcq_contents (x_cols x ! 0) @ [img 0]
        else bcq_contents (x_cols x ! 0))"
      and m: "m_receive_block 0 x = Some (x\<lparr>x_wire := (x_wire x)[0 := []], x_cols := (x_cols x)[0 := q], x_block := b,
        x_mzero := if image_count (img 0) = 0 then Suc (x_mzero x) else x_mzero x,
        x_mdone := image_count (img 0) = 0 \<and> (if image_count (img 0) = 0 then Suc (x_mzero x) else x_mzero x) = length [full_feed],
        x_lost := if length (bcq_contents (x_cols x ! 0)) < COLUMN_CON then x_lost x else x_lost x @ [(0, img 0)]\<rparr>)" (is "_ = Some ?y")
    have "ex_step\<^sup>*\<^sup>* (ex_start junk20 one_ns [full_feed]) ?y" using x(1) ex_step.receive [OF x(4) i(2) m] by (rule rtranclp.rtrancl_into_rtrancl)
    moreover have "length (x_cols x) = 1" using inv by (simp add: ex_inv_def)
    moreover have "zeros (replicate COLUMN_CON (img 7)) = 0" by (simp add: zeros_def)
    ultimately show ?thesis using that [of ?y] e x by (simp add: left_zeros_def)
  qed
  then have "\<forall>z. ex_step\<^sup>*\<^sup>* y z \<longrightarrow> \<not> x_udone z" using exchange_hangs [OF junk20_good feed_sizes _ y] by simp
  then show ?thesis using y(1) by blast
qed

end
