(* ===== verification/Mosito_Sender.thy ===== *)
theory Mosito_Sender
  imports Mosito_Exchange
begin

text \<open>
  The sending thread \<open>ShuffleLower1::send_route\<close> (\<^verbatim>\<open>physical/m_shuffle_lower1.cpp\<close>) with
  \<open>Block::tag\<close>: it takes the blocks out of the columns, writes a running number into the eight bytes
  before the end and sends them with \<open>Sender::m_send\<close> (\<^verbatim>\<open>common/m_sender.cpp\<close>), whose result it
  ignores. A step is one block sent; columns that are empty at the moment are skipped.
\<close>

record sender =
  sd_cols :: "bytes list list"
  sd_temp :: block
  sd_count :: int
  sd_zero :: nat
  sd_done :: bool
  sd_sent :: "bytes list list"

definition send_block :: "nat \<Rightarrow> sender \<Rightarrow> sender option" where
  "send_block i s =
     (case sd_cols s ! i of
        [] \<Rightarrow> None
      | data # rest \<Rightarrow> do {
          b \<leftarrow> storeBlock (sd_temp s) data BLOCK_SIZE;
          c \<leftarrow> ck_int (sd_count s + 1);
          b' \<leftarrow> tag b BLOCK_SIZE (nat c);
          (z, fin) \<leftarrow> meet_zero (length (sd_cols s)) b' (sd_zero s);
          Some (s\<lparr>sd_cols := (sd_cols s)[i := rest], sd_temp := b', sd_count := c, sd_zero := z, sd_done := fin,
                  sd_sent := (sd_sent s)[i := sd_sent s ! i @ [blk_mem b']]\<rparr>)
        })"

inductive send_step :: "sender \<Rightarrow> sender \<Rightarrow> bool" where
  "\<lbrakk>\<not> sd_done s; i < length (sd_cols s); send_block i s = Some s'\<rbrakk> \<Longrightarrow> send_step s s'"

definition send_start :: "bytes \<Rightarrow> nat \<Rightarrow> bytes list list \<Rightarrow> sender" where
  "send_start junk k outs = \<lparr>sd_cols = outs, sd_temp = mk_Block junk k, sd_count = 0, sd_zero = 0, sd_done = False,
     sd_sent = replicate (length outs) []\<rparr>"

section \<open>The tag\<close>

definition but_tag :: "bytes \<Rightarrow> bytes \<Rightarrow> bool" where
  "but_tag a b \<longleftrightarrow> length a = length b \<and> take (BLOCK_SIZE - 8) a = take (BLOCK_SIZE - 8) b \<and> drop (BLOCK_SIZE - 4) a = drop (BLOCK_SIZE - 4) b"

lemma tag_image:
  assumes "std_block k b"
  shows "\<exists>b'. tag b BLOCK_SIZE c = Some b' \<and> std_block k b' \<and> but_tag (blk_mem b') (blk_mem b)"
proof -
  let ?m = "blk_mem b"
  have l: "length ?m = BLOCK_SIZE" using assms by (simp add: std_block_def)
  let ?m' = "take (BLOCK_SIZE - 8) ?m @ le_bytes 4 c @ drop (BLOCK_SIZE - 4) ?m"
  have "wr_u32 ?m (BLOCK_SIZE - 8) c = Some ?m'" using l by (simp add: wr_u32_def wr_bytes_def BLOCK_SIZE_def)
  then have "tag b BLOCK_SIZE c = Some (b\<lparr>blk_mem := ?m'\<rparr>)" by (simp add: tag_def BLOCK_SIZE_def)
  moreover have "std_block k (b\<lparr>blk_mem := ?m'\<rparr>)" using assms l by (simp add: std_block_def BLOCK_SIZE_def)
  moreover have "but_tag ?m' ?m" using l by (simp add: but_tag_def BLOCK_SIZE_def)
  ultimately show ?thesis by auto
qed

text \<open>The tag leaves the count alone, and the tuples when they end eight bytes before the end.\<close>

lemma but_tag_count: "but_tag a b \<Longrightarrow> image_count a = image_count b"
  by (simp add: but_tag_def image_count_def)

lemma but_tag_tuples:
  assumes "but_tag a b" "image_count b * k \<le> BLOCK_SIZE - 8" "length b = BLOCK_SIZE"
  shows "image_tuples k a = image_tuples k b"
proof -
  have "take k (drop (j * k) a) = take k (drop (j * k) b)" if "j < image_count b" for j
  proof -
    have "Suc j * k \<le> image_count b * k" using that by (intro mult_le_mono1) simp
    then have e: "j * k + k \<le> BLOCK_SIZE - 8" using assms(2) by simp
    have "take k (drop (j * k) x) = drop (j * k) (take (j * k + k) x)" for x :: bytes by (simp add: take_drop add.commute)
    moreover have "take (j * k + k) a = take (j * k + k) b"
      using assms(1) e unfolding but_tag_def by (metis min.absorb1 take_take)
    ultimately show ?thesis by metis
  qed
  then show ?thesis using but_tag_count [OF assms(1)] by (simp add: image_tuples_def)
qed

text \<open>With tuples of four bytes the last one the readers see lies under the tag.\<close>

lemma tag_hits_tuple: "(BLOCK_SIZE - 4) div 4 * 4 = BLOCK_SIZE - 4" "BLOCK_SIZE - 8 < (BLOCK_SIZE - 4) div 4 * 4"
  by (simp_all add: BLOCK_SIZE_def)

section \<open>The invariant\<close>

definition total_len :: "'a list list \<Rightarrow> nat" where
  "total_len cs = sum_list (map length cs)"

lemma total_len_update: "i < length cs \<Longrightarrow> total_len (cs[i := c]) + length (cs ! i) = total_len cs + length c"
proof (induction cs arbitrary: i)
  case (Cons d ds)
  then show ?case by (cases i) (auto simp: total_len_def)
qed simp

lemma total_len_member: "i < length cs \<Longrightarrow> length (cs ! i) \<le> total_len cs"
  unfolding total_len_def by (rule member_le_sum_list) auto

definition send_inv :: "bytes list list \<Rightarrow> sender \<Rightarrow> bool" where
  "send_inv outs s \<longleftrightarrow> length (sd_cols s) = length outs \<and> length (sd_sent s) = length outs \<and> (\<exists>k. std_block k (sd_temp s))
     \<and> 0 \<le> sd_count s \<and> sd_count s + int (total_len (sd_cols s)) = int (total_len outs)
     \<and> sd_zero s + (\<Sum>i < length outs. zeros (sd_cols s ! i)) = (\<Sum>i < length outs. zeros (outs ! i))
     \<and> (sd_done s \<longleftrightarrow> sd_zero s = length outs)
     \<and> (\<forall>i < length outs. \<exists>p. outs ! i = p @ sd_cols s ! i \<and> list_all2 but_tag (sd_sent s ! i) p)"

lemma send_effect:
  assumes inv: "send_inv outs s" and i: "i < length outs" and d: "sd_cols s ! i = d # rest" "length d = BLOCK_SIZE"
    and small: "int (total_len outs) \<le> INT_MAX"
  defines "z \<equiv> if image_count d = 0 then Suc (sd_zero s) else sd_zero s"
  obtains b k where "std_block k b" "but_tag (blk_mem b) d"
    "send_block i s = Some (s\<lparr>sd_cols := (sd_cols s)[i := rest], sd_temp := b, sd_count := sd_count s + 1, sd_zero := z,
       sd_done := (image_count d = 0 \<and> z = length outs), sd_sent := (sd_sent s)[i := sd_sent s ! i @ [blk_mem b]]\<rparr>)"
proof -
  obtain k where k: "std_block k (sd_temp s)" using inv by (auto simp: send_inv_def)
  obtain b where b: "storeBlock (sd_temp s) d BLOCK_SIZE = Some b" "std_block k b" "blk_mem b = d"
    using storeBlock_std [OF k d(2)] by blast
  obtain b' where b': "tag b BLOCK_SIZE (nat (sd_count s + 1)) = Some b'" "std_block k b'" "but_tag (blk_mem b') d"
    using tag_image [OF b(2)] b(3) by metis
  have "length (sd_cols s ! i) \<le> total_len (sd_cols s)" using i inv by (intro total_len_member) (simp add: send_inv_def)
  then have "1 \<le> int (total_len (sd_cols s))" using d(1) by simp
  then have "sd_count s + 1 \<le> INT_MAX" using inv small unfolding send_inv_def by linarith
  then have c: "ck_int (sd_count s + 1) = Some (sd_count s + 1)" using inv by (simp add: ck_int_def send_inv_def INT_MAX_def)
  have "send_block i s = Some (s\<lparr>sd_cols := (sd_cols s)[i := rest], sd_temp := b', sd_count := sd_count s + 1, sd_zero := z,
       sd_done := (image_count d = 0 \<and> z = length outs), sd_sent := (sd_sent s)[i := sd_sent s ! i @ [blk_mem b']]\<rparr>)"
    using d(1) b(1) c b'(1) meet_zero_spec [OF b'(2)] but_tag_count [OF b'(3)] inv by (simp add: send_block_def z_def send_inv_def)
  then show ?thesis using that b'(2,3) by blast
qed

lemma send_step_inv:
  assumes "send_step s s'" and inv: "send_inv outs s" and sizes: "\<forall>f \<in> set outs. \<forall>i \<in> set f. length i = BLOCK_SIZE"
    and small: "int (total_len outs) \<le> INT_MAX"
  shows "send_inv outs s'"
  using assms(1)
proof cases
  case (1 i)
  have len: "length (sd_cols s) = length outs" "length (sd_sent s) = length outs" using inv by (simp_all add: send_inv_def)
  then have i: "i < length outs" using 1 by simp
  obtain d rest where d: "sd_cols s ! i = d # rest" using 1(3) by (cases "sd_cols s ! i") (auto simp: send_block_def)
  have pre: "\<exists>p. outs ! j = p @ sd_cols s ! j \<and> list_all2 but_tag (sd_sent s ! j) p" if "j < length outs" for j
    using inv that by (simp add: send_inv_def)
  have dl: "length d = BLOCK_SIZE" using pre [OF i] d sizes i by (metis in_set_conv_decomp nth_mem append_assoc)
  let ?z = "if image_count d = 0 then Suc (sd_zero s) else sd_zero s"
  obtain b k where e: "std_block k b" "but_tag (blk_mem b) d"
    "send_block i s = Some (s\<lparr>sd_cols := (sd_cols s)[i := rest], sd_temp := b, sd_count := sd_count s + 1, sd_zero := ?z,
       sd_done := (image_count d = 0 \<and> ?z = length outs), sd_sent := (sd_sent s)[i := sd_sent s ! i @ [blk_mem b]]\<rparr>)"
    using send_effect [OF inv i d dl small] by blast
  have s': "s' = s\<lparr>sd_cols := (sd_cols s)[i := rest], sd_temp := b, sd_count := sd_count s + 1, sd_zero := ?z,
       sd_done := (image_count d = 0 \<and> ?z = length outs), sd_sent := (sd_sent s)[i := sd_sent s ! i @ [blk_mem b]]\<rparr>"
    using e(3) 1(3) by simp
  have z: "?z + (\<Sum>j < length outs. zeros ((sd_cols s)[i := rest] ! j)) = (\<Sum>j < length outs. zeros (outs ! j))"
    using sum_update [OF i len(1), of rest] d inv by (auto simp: send_inv_def)
  have "total_len (sd_cols s) = Suc (total_len ((sd_cols s)[i := rest]))" using total_len_update [of i "sd_cols s" rest] d i len by simp
  then have "sd_count s + 1 + int (total_len ((sd_cols s)[i := rest])) = int (total_len outs)" using inv by (simp add: send_inv_def)
  moreover have "\<exists>p. outs ! j = p @ (sd_cols s)[i := rest] ! j \<and> list_all2 but_tag ((sd_sent s)[i := sd_sent s ! i @ [blk_mem b]] ! j) p"
    if j: "j < length outs" for j
  proof (cases "j = i")
    case True
    obtain p where "outs ! j = p @ d # rest" "list_all2 but_tag (sd_sent s ! j) p" using pre [OF j] d True by auto
    then show ?thesis using True i len e(2) by (intro exI [of _ "p @ [d]"]) (simp add: list_all2_appendI)
  qed (use pre [OF j] in simp)
  ultimately show ?thesis using inv 1(1) z e(1) len unfolding send_inv_def s' by (auto split: if_splits)
qed

lemma send_reach_inv:
  assumes "\<forall>f \<in> set outs. \<forall>i \<in> set f. length i = BLOCK_SIZE" "outs \<noteq> []" "int (total_len outs) \<le> INT_MAX" "length junk = BLOCK_SIZE"
    and "send_step\<^sup>*\<^sup>* (send_start junk k outs) s"
  shows "send_inv outs s"
  using assms(5)
proof (induction rule: rtranclp_induct)
  case base
  have "\<exists>k'. std_block k' (mk_Block junk k)" by (rule exI [of _ k]) (simp add: assms(4))
  then show ?case using assms(2) by (simp add: send_inv_def send_start_def)
qed (use send_step_inv assms(1,3) in blast)

lemma send_prefix: "send_inv outs s \<Longrightarrow> i < length outs \<Longrightarrow> \<exists>p. outs ! i = p @ sd_cols s ! i \<and> list_all2 but_tag (sd_sent s ! i) p"
  by (simp add: send_inv_def)

lemma send_zeros:
  assumes "send_inv outs s" "\<forall>f \<in> set outs. ended f"
  shows "sd_zero s + (\<Sum>i < length outs. zeros (sd_cols s ! i)) = length outs"
proof -
  have "zeros (outs ! i) = 1" if "i < length outs" for i using assms(2) that by (simp add: ended_def)
  then show ?thesis using assms(1) by (simp add: send_inv_def)
qed

lemma send_done_all:
  assumes inv: "send_inv outs s" and en: "\<forall>f \<in> set outs. ended f" and dn: "sd_done s" and i: "i < length outs"
  shows "sd_cols s ! i = []"
proof -
  have "sd_zero s = length outs" using inv dn by (simp add: send_inv_def)
  then have z: "zeros (sd_cols s ! i) = 0" using send_zeros [OF inv en] i by simp
  obtain p where p: "outs ! i = p @ sd_cols s ! i" using send_prefix [OF inv i] by blast
  have e: "ended (outs ! i)" using en i by simp
  then have "zeros p = 1" using z p by (simp add: ended_def)
  then show ?thesis using ended_prefix e p by metis
qed

lemma send_can_go:
  assumes inv: "send_inv outs s" and en: "\<forall>f \<in> set outs. ended f" and nd: "\<not> sd_done s"
    and sizes: "\<forall>f \<in> set outs. \<forall>i \<in> set f. length i = BLOCK_SIZE" and small: "int (total_len outs) \<le> INT_MAX"
  shows "\<exists>s'. send_step s s'"
proof -
  let ?n = "length outs"
  have "sd_zero s \<noteq> ?n" using nd inv by (simp add: send_inv_def)
  then have "(\<Sum>i < ?n. zeros (sd_cols s ! i)) \<noteq> 0" using send_zeros [OF inv en] by linarith
  then obtain i where "i \<in> {..<?n}" "zeros (sd_cols s ! i) \<noteq> 0" by (meson sum.not_neutral_contains_not_neutral)
  then have i: "i < ?n" "sd_cols s ! i \<noteq> []" by auto
  then obtain d rest where d: "sd_cols s ! i = d # rest" by (cases "sd_cols s ! i") auto
  obtain p where "outs ! i = p @ d # rest" using send_prefix [OF inv i(1)] d by auto
  then have "d \<in> set (outs ! i)" by simp
  then have dl: "length d = BLOCK_SIZE" using sizes i(1) nth_mem by blast
  have "i < length (sd_cols s)" using inv i(1) by (simp add: send_inv_def)
  then show ?thesis using send_effect [OF inv i(1) d dl small] send_step.intros [OF nd] by blast
qed

lemma send_completes:
  assumes "send_inv outs s" and en: "\<forall>f \<in> set outs. ended f"
    and sizes: "\<forall>f \<in> set outs. \<forall>i \<in> set f. length i = BLOCK_SIZE" and small: "int (total_len outs) \<le> INT_MAX"
  shows "\<exists>s'. send_step\<^sup>*\<^sup>* s s' \<and> sd_done s'"
  using assms(1)
proof (induction "total_len (sd_cols s)" arbitrary: s rule: less_induct)
  case less
  show ?case
  proof (cases "sd_done s")
    case False
    obtain s' where s': "send_step s s'" using send_can_go [OF less.prems en False sizes small] by blast
    then have "total_len (sd_cols s') < total_len (sd_cols s)"
    proof cases
      case (1 i)
      then obtain d rest where "sd_cols s ! i = d # rest" "sd_cols s' = (sd_cols s)[i := rest]"
        by (auto simp: send_block_def bind_iff split: list.splits)
      then show ?thesis using total_len_update [OF 1(2), of rest] by simp
    qed
    from less.hyps [OF this send_step_inv [OF s' less.prems sizes small]] show ?thesis
      using s' by (meson converse_rtranclp_into_rtranclp)
  qed blast
qed

text \<open>
  C12. The sending thread forwards every block: in every reachable state the blocks sent to a
  destination are a prefix of what was put into its column, unchanged but for the tag, and the rest is
  still in the column; when the thread has ended every column is empty, and until then it can go on.
\<close>

theorem sender_forwards:
  assumes "\<forall>f \<in> set outs. ended f" "\<forall>f \<in> set outs. \<forall>i \<in> set f. length i = BLOCK_SIZE" "outs \<noteq> []"
    and "int (total_len outs) \<le> INT_MAX" "length junk = BLOCK_SIZE"
    and "send_step\<^sup>*\<^sup>* (send_start junk k outs) s"
  shows "(\<forall>i < length outs. \<exists>p. outs ! i = p @ sd_cols s ! i \<and> list_all2 but_tag (sd_sent s ! i) p)
    \<and> (if sd_done s then \<forall>i < length outs. sd_cols s ! i = [] else \<exists>s'. send_step s s')"
proof -
  have inv: "send_inv outs s" using send_reach_inv [OF assms(2,3,4,5,6)] .
  then show ?thesis using send_prefix send_done_all assms(1) send_can_go [OF inv assms(1) _ assms(2,4)] by auto
qed

theorem sender_forwards_witness:
  "\<exists>s'. send_step (send_start blank 16 [[img 7, img 0], [img 0]]) s'"
proof -
  let ?o = "[[img 7, img 0], [img 0]]"
  have "ended [img 7, img 0]" "ended [img 0]" by (simp_all add: ended_def)
  moreover have "\<not> sd_done (send_start blank 16 ?o)" by (simp add: send_start_def)
  moreover have "int (total_len ?o) \<le> INT_MAX" by (simp add: INT_MAX_def total_len_def)
  ultimately show ?thesis using sender_forwards [of ?o blank 16 "send_start blank 16 ?o"] by simp
qed

end
