(* ===== verification/Mosito_Merge.thy ===== *)
theory Mosito_Merge
  imports Mosito_Shuffle
begin

text \<open>
  The sorted exchange: \<open>ShuffleUpper::execute\<close> of \<^verbatim>\<open>physical/m_shuffle_upper.cpp\<close> over
  \<open>PCBuffer::get_sorted\<close> of \<^verbatim>\<open>common/m_pc_buffer.cpp\<close>, which merges the sorted columns of the senders
  with a loser tree. The theory proves what the merge delivers, on top of the contract \<open>selector\<close> of the
  tree and of the iterator lemmas of the operators.
\<close>

section \<open>ShuffleUpper\<close>

text \<open>
  The state is that of the buffer and \<open>block_temp_\<close>. When \<open>get_sorted\<close> returns false, the receiving thread is
  joined and \<open>block\<close> is left as it is.
\<close>

definition SU_execute :: "bytes \<Rightarrow> (pc_merge \<times> block) executor" where
  "SU_execute junk s block = do {
     (ok, st, temp) \<leftarrow> get_sorted junk (fst s) (blk_reset (snd s));
     if ok then do {
       block' \<leftarrow> storeBlock block (blk_mem temp) BLOCK_SIZE;
       Some (True, (st, temp), block')
     }
     else Some (False, (st, temp), block)
   }"

section \<open>Columns\<close>

definition mkey :: "bytes \<Rightarrow> nat" where
  "mkey t = the (tuple_key t)"

text \<open>\<open>feed_ok k f us\<close>: the images of a column hold the tuples \<open>us\<close> and then an end mark.\<close>

definition feed_ok :: "nat \<Rightarrow> bytes list \<Rightarrow> bytes list \<Rightarrow> bool" where
  "feed_ok k f us \<longleftrightarrow> (\<exists>imgs z rest. f = imgs @ z # rest \<and> (\<forall>i \<in> set imgs. image_ok k i) \<and> length z = BLOCK_SIZE
     \<and> image_count z = 0 \<and> us = concat (map (image_tuples k) imgs))"

text \<open>\<open>col_ok k st i ts\<close>: the tuples still to come from column \<open>i\<close> are \<open>ts\<close>.\<close>

definition col_ok :: "nat \<Rightarrow> pc_merge \<Rightarrow> nat \<Rightarrow> bytes list \<Rightarrow> bool" where
  "col_ok k st i ts \<longleftrightarrow> std_block k (pm_merged st ! i) \<and> image_count (blk_mem (pm_merged st ! i)) * k \<le> BLOCK_SIZE
     \<and> it_current (pm_itrs st ! i) \<le> image_count (blk_mem (pm_merged st ! i))
     \<and> (\<exists>us. feed_ok k (pm_feed st ! i) us \<and> ts = iter_rest k (pm_merged st ! i) (pm_itrs st ! i) @ us)"

definition sized :: "pc_merge \<Rightarrow> bool" where
  "sized st \<longleftrightarrow> length (pm_feed st) = pm_row st \<and> length (pm_merged st) = pm_row st \<and> length (pm_itrs st) = pm_row st"

text \<open>What a refill of column \<open>i\<close> leaves alone.\<close>

definition only_col :: "nat \<Rightarrow> pc_merge \<Rightarrow> pc_merge \<Rightarrow> bool" where
  "only_col i st st' \<longleftrightarrow> (\<exists>f m t n. st' = st\<lparr>pm_feed := (pm_feed st)[i := f], pm_merged := (pm_merged st)[i := m],
     pm_itrs := (pm_itrs st)[i := t], pm_finished := n\<rparr>)"

lemma only_col_other: "only_col i st st' \<Longrightarrow> j \<noteq> i \<Longrightarrow> col_ok k st' j ts \<longleftrightarrow> col_ok k st j ts"
  by (auto simp: only_col_def col_ok_def)

lemma only_col_simps:
  assumes "only_col i st st'"
  shows "pm_row st' = pm_row st" "pm_lt st' = pm_lt st" "pm_ns st' = pm_ns st" "sized st' \<longleftrightarrow> sized st"
  using assms by (auto simp: only_col_def sized_def)

lemma wait_pop_std:
  assumes "i < pm_row st" "sized st" "pm_feed st ! i = im # rest" "length im = BLOCK_SIZE" "std_block k (pm_merged st ! i)"
  shows "\<exists>b. wait_pop i st = Some (st\<lparr>pm_merged := (pm_merged st)[i := b], pm_feed := (pm_feed st)[i := rest]\<rparr>)
    \<and> std_block k b \<and> blk_mem b = im"
  using assms storeBlock_std [OF assms(5,4)] by (auto simp: wait_pop_def sized_def)

lemma pm_next_run:
  assumes "i < pm_row st" "sized st" "std_block k (pm_merged st ! i)" "image_count (blk_mem (pm_merged st ! i)) * k \<le> BLOCK_SIZE"
    and "0 < k" "it_current (pm_itrs st ! i) \<le> image_count (blk_mem (pm_merged st ! i))"
  shows "iter_rest k (pm_merged st ! i) (pm_itrs st ! i) = t # ts \<Longrightarrow> \<exists>it. pm_next i st = Some (Some t, st\<lparr>pm_itrs := (pm_itrs st)[i := it]\<rparr>)
      \<and> iter_rest k (pm_merged st ! i) it = ts \<and> it_current it \<le> image_count (blk_mem (pm_merged st ! i))"
    and "iter_rest k (pm_merged st ! i) (pm_itrs st ! i) = [] \<Longrightarrow> \<exists>it. pm_next i st = Some (None, st\<lparr>pm_itrs := (pm_itrs st)[i := it]\<rparr>)"
proof -
  have l: "i < length (pm_merged st)" "i < length (pm_itrs st)" "blk_tuple_size (pm_merged st ! i) = k"
    using assms(1-3) by (auto simp: sized_def std_block_def)
  show "\<exists>it. pm_next i st = Some (Some t, st\<lparr>pm_itrs := (pm_itrs st)[i := it]\<rparr>)
      \<and> iter_rest k (pm_merged st ! i) it = ts \<and> it_current it \<le> image_count (blk_mem (pm_merged st ! i))"
    if "iter_rest k (pm_merged st ! i) (pm_itrs st ! i) = t # ts"
    using getNext_tuple(1) [OF assms(3-6) that] l by (auto simp: pm_next_def tuple_at_def Let_def)
  show "\<exists>it. pm_next i st = Some (None, st\<lparr>pm_itrs := (pm_itrs st)[i := it]\<rparr>)"
    if "iter_rest k (pm_merged st ! i) (pm_itrs st ! i) = []"
    using getNext_tuple(2) [OF assms(3-6) that] l by (auto simp: pm_next_def Let_def)
qed

lemma refill_more:
  assumes "i < pm_row st" "sized st" "0 < k" "col_ok k st i (t # ts)"
  shows "\<exists>st'. gs_refill junk i st = Some (False, Some t, st') \<and> only_col i st st' \<and> pm_finished st' = pm_finished st \<and> col_ok k st' i ts"
proof -
  let ?m = "pm_merged st ! i" and ?it = "pm_itrs st ! i"
  have c: "std_block k ?m" "image_count (blk_mem ?m) * k \<le> BLOCK_SIZE" "it_current ?it \<le> image_count (blk_mem ?m)"
    using assms(4) by (auto simp: col_ok_def)
  have l: "i < length (pm_merged st)" "i < length (pm_itrs st)" "i < length (pm_feed st)" using assms(1,2) by (auto simp: sized_def)
  obtain us where us: "feed_ok k (pm_feed st ! i) us" "t # ts = iter_rest k ?m ?it @ us" using assms(4) by (auto simp: col_ok_def)
  show ?thesis
  proof (cases "iter_rest k ?m ?it")
    case (Cons t' ts')
    obtain it where it: "pm_next i st = Some (Some t', st\<lparr>pm_itrs := (pm_itrs st)[i := it]\<rparr>)" "iter_rest k ?m it = ts'"
      "it_current it \<le> image_count (blk_mem ?m)"
      using pm_next_run(1) [OF assms(1,2) c(1,2) assms(3) c(3) Cons] by blast
    let ?st = "st\<lparr>pm_itrs := (pm_itrs st)[i := it]\<rparr>"
    have "?st = st\<lparr>pm_feed := (pm_feed st)[i := pm_feed st ! i], pm_merged := (pm_merged st)[i := ?m], pm_itrs := (pm_itrs st)[i := it],
      pm_finished := pm_finished st\<rparr>" by simp
    then have "only_col i st ?st" unfolding only_col_def by blast
    moreover have "col_ok k ?st i ts" using c it us l Cons by (auto simp: col_ok_def)
    ultimately show ?thesis using it(1) us(2) Cons by (auto simp: gs_refill_def)
  next
    case Nil
    obtain it0 where n: "pm_next i st = Some (None, st\<lparr>pm_itrs := (pm_itrs st)[i := it0]\<rparr>)"
      using pm_next_run(2) [OF assms(1,2) c(1,2) assms(3) c(3) Nil] by blast
    obtain im imgs z rest where f: "pm_feed st ! i = im # imgs @ z # rest" "image_ok k im" "\<forall>i \<in> set imgs. image_ok k i" "length z = BLOCK_SIZE"
      "image_count z = 0" "t # ts = image_tuples k im @ concat (map (image_tuples k) imgs)"
    proof -
      obtain js z rest where "pm_feed st ! i = js @ z # rest" "\<forall>i \<in> set js. image_ok k i" "length z = BLOCK_SIZE" "image_count z = 0"
        "t # ts = concat (map (image_tuples k) js)" using us Nil by (auto simp: feed_ok_def)
      then show ?thesis using that by (cases js) auto
    qed
    let ?st1 = "st\<lparr>pm_itrs := (pm_itrs st)[i := it0], pm_merged := (pm_merged st)[i := blk_reset ?m]\<rparr>"
    have s1: "sized ?st1" "i < pm_row ?st1" "pm_feed ?st1 ! i = im # imgs @ z # rest" "std_block k (pm_merged ?st1 ! i)" "length im = BLOCK_SIZE"
      using assms(1,2) f(1,2) c(1) l by (auto simp: sized_def std_block_def image_ok_def)
    obtain b where b: "wait_pop i ?st1 = Some (?st1\<lparr>pm_merged := (pm_merged ?st1)[i := b], pm_feed := (pm_feed ?st1)[i := imgs @ z # rest]\<rparr>)"
      "std_block k b" "blk_mem b = im" using wait_pop_std [OF s1(2,1,3,5,4)] by blast
    let ?st2 = "st\<lparr>pm_merged := (pm_merged st)[i := b], pm_feed := (pm_feed st)[i := imgs @ z # rest], pm_itrs := (pm_itrs st)[i := createIterator]\<rparr>"
    have g: "get_size b = Some (image_count im)" "image_count im \<noteq> 0" using std_block_get_size [OF b(2)] b(3) f(2) by (auto simp: image_ok_def)
    obtain us' where im: "image_tuples k im = t # us'" "ts = us' @ concat (map (image_tuples k) imgs)"
      using f(6) g(2) by (cases "image_tuples k im") (auto simp: image_tuples_def)
    have s2: "i < pm_row ?st2" "sized ?st2" "std_block k (pm_merged ?st2 ! i)" "image_count (blk_mem (pm_merged ?st2 ! i)) * k \<le> BLOCK_SIZE"
      "it_current (pm_itrs ?st2 ! i) \<le> image_count (blk_mem (pm_merged ?st2 ! i))" "iter_rest k (pm_merged ?st2 ! i) (pm_itrs ?st2 ! i) = t # us'"
      using assms(1,2) b l f(2) im(1) by (auto simp: sized_def image_ok_def createIterator_def iter_rest_def)
    obtain it where it: "pm_next i ?st2 = Some (Some t, ?st2\<lparr>pm_itrs := (pm_itrs ?st2)[i := it]\<rparr>)" "iter_rest k (pm_merged ?st2 ! i) it = us'"
      "it_current it \<le> image_count (blk_mem (pm_merged ?st2 ! i))"
      using pm_next_run(1) [OF s2(1-4) assms(3) s2(5,6)] by blast
    let ?st3 = "?st2\<lparr>pm_itrs := (pm_itrs ?st2)[i := it]\<rparr>"
    have "?st3 = st\<lparr>pm_feed := (pm_feed st)[i := imgs @ z # rest], pm_merged := (pm_merged st)[i := b], pm_itrs := (pm_itrs st)[i := it],
      pm_finished := pm_finished st\<rparr>" by simp
    then have "only_col i st ?st3" unfolding only_col_def by blast
    moreover have "feed_ok k (imgs @ z # rest) (concat (map (image_tuples k) imgs))" using f(3-5) unfolding feed_ok_def by blast
    then have "col_ok k ?st3 i ts" using it(2,3) s2(3,4) l im(2) by (auto simp: col_ok_def)
    moreover have "gs_refill junk i st = Some (False, Some t, ?st3)" using n b(1) l g it(1) by (simp add: gs_refill_def)
    ultimately show ?thesis by auto
  qed
qed

lemma refill_end:
  assumes "i < pm_row st" "sized st" "0 < k" "col_ok k st i []" "max_tuple (ns_vd (pm_ns st)) 0 junk = Some mx"
  shows "\<exists>st'. gs_refill junk i st = Some (Suc (pm_finished st) = pm_row st, Some mx, st') \<and> only_col i st st'
    \<and> pm_finished st' = Suc (pm_finished st)"
proof -
  let ?m = "pm_merged st ! i" and ?it = "pm_itrs st ! i"
  have c: "std_block k ?m" "image_count (blk_mem ?m) * k \<le> BLOCK_SIZE" "it_current ?it \<le> image_count (blk_mem ?m)"
    and us: "feed_ok k (pm_feed st ! i) []" "iter_rest k ?m ?it = []" using assms(4) by (auto simp: col_ok_def)
  have l: "i < length (pm_merged st)" "i < length (pm_itrs st)" "i < length (pm_feed st)" using assms(1,2) by (auto simp: sized_def)
  obtain it0 where n: "pm_next i st = Some (None, st\<lparr>pm_itrs := (pm_itrs st)[i := it0]\<rparr>)"
    using pm_next_run(2) [OF assms(1,2) c(1,2) assms(3) c(3) us(2)] by blast
  obtain z rest where f: "pm_feed st ! i = z # rest" "length z = BLOCK_SIZE" "image_count z = 0"
  proof -
    obtain js z rest where "pm_feed st ! i = js @ z # rest" "\<forall>i \<in> set js. image_ok k i" "length z = BLOCK_SIZE" "image_count z = 0"
      "[] = concat (map (image_tuples k) js)" using us(1) unfolding feed_ok_def by blast
    then show ?thesis using that by (cases js) (auto simp: image_ok_def image_tuples_def)
  qed
  let ?st1 = "st\<lparr>pm_itrs := (pm_itrs st)[i := it0], pm_merged := (pm_merged st)[i := blk_reset ?m]\<rparr>"
  have s1: "sized ?st1" "i < pm_row ?st1" "pm_feed ?st1 ! i = z # rest" "std_block k (pm_merged ?st1 ! i)"
    using assms(1,2) f(1) c(1) l by (auto simp: sized_def std_block_def)
  obtain b where b: "wait_pop i ?st1 = Some (?st1\<lparr>pm_merged := (pm_merged ?st1)[i := b], pm_feed := (pm_feed ?st1)[i := rest]\<rparr>)"
    "std_block k b" "blk_mem b = z" using wait_pop_std [OF s1(2,1,3) f(2) s1(4)] by blast
  let ?st2 = "st\<lparr>pm_itrs := (pm_itrs st)[i := it0], pm_merged := (pm_merged st)[i := b], pm_feed := (pm_feed st)[i := rest],
    pm_finished := Suc (pm_finished st)\<rparr>"
  have g: "get_size b = Some 0" using std_block_get_size [OF b(2)] b(3) f(3) by simp
  have "?st2 = st\<lparr>pm_feed := (pm_feed st)[i := rest], pm_merged := (pm_merged st)[i := b], pm_itrs := (pm_itrs st)[i := it0],
      pm_finished := Suc (pm_finished st)\<rparr>" by simp
  then have "only_col i st ?st2" unfolding only_col_def by blast
  moreover have "gs_refill junk i st = Some (Suc (pm_finished st) = pm_row st, Some mx, ?st2)"
    using n b(1) l g assms(5) by (simp add: gs_refill_def)
  ultimately show ?thesis by auto
qed

section \<open>The merge\<close>

text \<open>
  \<open>merging k tss st\<close>: the tuples column \<open>i\<close> still has to deliver are \<open>tss ! i\<close>, the first of them in its leaf;
  the leaf of a finished column has the largest key.
\<close>

definition merging :: "nat \<Rightarrow> bytes list list \<Rightarrow> pc_merge \<Rightarrow> bool" where
  "merging k tss st \<longleftrightarrow> sized st \<and> length tss = pm_row st \<and> pm_finished st = length (filter (\<lambda>ts. ts = []) tss)
     \<and> (\<exists>lt. pm_lt st = Some lt \<and> lt_good lt \<and> length (lt_vals lt) = pm_row st
          \<and> (\<forall>i < pm_row st. case tss ! i of [] \<Rightarrow> tuple_key (lt_vals lt ! i) = Some ULONG_MAX
                | t # ts \<Rightarrow> lt_vals lt ! i = t \<and> col_ok k st i ts))"

definition sorted_cols :: "nat \<Rightarrow> bytes list list \<Rightarrow> bool" where
  "sorted_cols k tss \<longleftrightarrow> (\<forall>ts \<in> set tss. sorted (map mkey ts) \<and> (\<forall>t \<in> set ts. length t = k \<and> mkey t < ULONG_MAX))"

text \<open>The schema has the tuple size \<open>k\<close>, and the tuple of the finished columns gets a key of all ones.\<close>

definition max_ok :: "bytes \<Rightarrow> nat \<Rightarrow> pc_merge \<Rightarrow> bool" where
  "max_ok junk k st \<longleftrightarrow> ns_totalsize (pm_ns st) = k \<and> (\<exists>mx. max_tuple (ns_vd (pm_ns st)) 0 junk = Some mx \<and> tuple_key mx = Some ULONG_MAX)"

lemma finished_all: "length (filter (\<lambda>ts. ts = []) tss) = length tss \<longleftrightarrow> concat tss = []"
proof (induction tss)
  case (Cons ts tss)
  have "length (filter (\<lambda>ts. ts = []) tss) \<noteq> Suc (length tss)" by (metis length_filter_le Suc_n_not_le_n)
  then show ?case using Cons by auto
qed simp

lemma finished_update:
  assumes "i < length tss" "tss ! i \<noteq> []"
  shows "length (filter (\<lambda>ts. ts = []) (tss[i := ts])) = length (filter (\<lambda>ts. ts = []) tss) + (if ts = [] then 1 else 0)"
  using assms
proof (induction tss arbitrary: i)
  case (Cons us tss)
  then show ?case by (cases i) auto
qed simp

lemma mkey_key: "length t = k \<Longrightarrow> 16 \<le> k \<Longrightarrow> tuple_key t = Some (mkey t)"
  by (simp add: mkey_def tuple_key_def rd_u64_def rd_bytes_def)

lemma lt_winner_leaf:
  assumes "lt_good lt" "lt_winner lt = Some i"
  shows "Winner lt = Some (Suc i)" "Win lt = Some (Some (lt_vals lt ! i))"
proof -
  from assms(1) obtain key where ok: "lt_ok lt key" by (auto simp: lt_good_def)
  from lt_ok_winner [OF ok] obtain w u where w: "Winner lt = Some w" "1 \<le> w" "w \<le> lt_n lt" "Win lt = Some (Some u)" "lt_L lt ! w = Some u"
    by blast
  then have "w = Suc i" using assms(2) by (simp add: lt_winner_def)
  then show "Winner lt = Some (Suc i)" "Win lt = Some (Some (lt_vals lt ! i))" using w by (simp_all add: lt_vals_def)
qed

lemma lt_load_replay:
  assumes "lt_good lt" "lt_winner lt = Some i" "tuple_key u = Some c"
  shows "\<exists>lt1 lt2. Load lt (Suc i) (Some u) = Some lt1 \<and> replay lt1 (Suc i) = Some (0, lt2) \<and> lt_good lt2
    \<and> lt_vals lt2 = (lt_vals lt)[i := u]"
proof -
  from assms(1) obtain key where ok: "lt_ok lt key" by (auto simp: lt_good_def)
  obtain lt1 lt2 where r: "Load lt (Suc i) (Some u) = Some lt1" "replay lt1 (Suc i) = Some (0, lt2)" "lt_ok lt2 (key(Suc i := c))"
    using replay_ok [OF ok lt_winner_leaf(1) [OF assms(1,2)] assms(3)] by blast
  then have "lt_replace lt i u = Some lt2" by (simp add: lt_replace_def)
  then show ?thesis using lt.replace_winner [OF assms] r by (auto simp: lt_good_def)
qed

text \<open>The winner is the first tuple of a column that still has one, and no tuple is below it.\<close>

lemma merging_winner:
  assumes "merging k tss st" "sorted_cols k tss" "16 \<le> k" "concat tss \<noteq> []"
  shows "\<exists>lt i t ts. pm_lt st = Some lt \<and> lt_good lt \<and> lt_winner lt = Some i \<and> i < length tss \<and> tss ! i = t # ts \<and> lt_vals lt ! i = t
    \<and> col_ok k st i ts \<and> (\<forall>x \<in> set (concat tss). mkey t \<le> mkey x)"
proof -
  obtain lt where lt: "pm_lt st = Some lt" "lt_good lt" "length (lt_vals lt) = length tss"
    "\<And>i. i < length tss \<Longrightarrow> case tss ! i of [] \<Rightarrow> tuple_key (lt_vals lt ! i) = Some ULONG_MAX | t # ts \<Rightarrow> lt_vals lt ! i = t \<and> col_ok k st i ts"
    using assms(1) by (auto simp: merging_def)
  obtain i c where i: "lt_winner lt = Some i" "i < length tss" "tuple_key (lt_vals lt ! i) = Some c"
    "\<And>v. v \<in> set (lt_vals lt) \<Longrightarrow> \<exists>c'. tuple_key v = Some c' \<and> c \<le> c'" using lt.winner_least [OF lt(2)] lt(3) by auto
  have key: "tuple_key x = Some (mkey x)" "mkey x < ULONG_MAX" if "x \<in> set ts" "ts \<in> set tss" for x ts
    using that assms(2,3) by (auto simp: sorted_cols_def intro!: mkey_key)
  have below: "c \<le> mkey x" if x: "x \<in> set ts" "ts \<in> set tss" for x ts
  proof -
    obtain j where j: "j < length tss" "ts = tss ! j" using x(2) by (auto simp: in_set_conv_nth)
    obtain y ys where ts: "ts = y # ys" using x(1) by (cases ts) auto
    have "lt_vals lt ! j = y" using lt(4) [OF j(1)] ts unfolding j(2) [symmetric] by simp
    then have "y \<in> set (lt_vals lt)" using j(1) lt(3) nth_mem [of j "lt_vals lt"] by simp
    from i(4) [OF this] have "c \<le> mkey y" using key(1) [of y ts] x(2) ts by auto
    moreover have "mkey y \<le> mkey x" using assms(2) x ts by (auto simp: sorted_cols_def)
    ultimately show ?thesis by linarith
  qed
  obtain ts where ts: "ts \<in> set tss" "ts \<noteq> []" using assms(4) by auto
  obtain x where "x \<in> set ts" using ts(2) by (cases ts) auto
  note x = ts(1) this
  then have "c < ULONG_MAX" using below [OF x(2,1)] key(2) [OF x(2,1)] by linarith
  then obtain t us where t: "tss ! i = t # us" using lt(4) [OF i(2)] i(3) by (cases "tss ! i") auto
  then have "lt_vals lt ! i = t" "col_ok k st i us" using lt(4) [OF i(2)] by auto
  moreover have "mkey t = c" using i(3) \<open>lt_vals lt ! i = t\<close> by (simp add: mkey_def)
  ultimately show ?thesis using lt(1,2) i(1,2) t below by auto
qed

lemma sorted_cols_update:
  assumes "sorted_cols k tss" "i < length tss" "tss ! i = t # ts"
  shows "sorted_cols k (tss[i := ts])"
proof -
  have "t # ts \<in> set tss" using assms(2,3) by (metis nth_mem)
  then have "sorted (map mkey ts) \<and> (\<forall>t \<in> set ts. length t = k \<and> mkey t < ULONG_MAX)" using assms(1) unfolding sorted_cols_def by force
  then show ?thesis using assms(1) set_update_subset_insert [of tss i ts] unfolding sorted_cols_def by blast
qed

lemma mset_concat_head:
  assumes "i < length tss" "tss ! i = t # ts"
  shows "mset (concat tss) = add_mset t (mset (concat (tss[i := ts])))"
  using assms
proof (induction tss arbitrary: i)
  case (Cons us tss)
  then show ?case by (cases i) auto
qed simp

lemma merging_refill:
  assumes m: "merging k tss st" "pm_lt st = Some lt" and i: "i < length tss" "tss ! i = t # ts" and w: "lt_good lt" "lt_winner lt = Some i"
    and st': "only_col i st st'" "pm_finished st' = pm_finished st + (if ts = [] then 1 else 0)"
    and u: "tuple_key u = Some c" "case ts of [] \<Rightarrow> c = ULONG_MAX | t' # ts' \<Rightarrow> u = t' \<and> col_ok k st' i ts'"
  shows "\<exists>lt1 lt2. Load lt (Suc i) (Some u) = Some lt1 \<and> replay lt1 (Suc i) = Some (0, lt2) \<and> merging k (tss[i := ts]) (st'\<lparr>pm_lt := Some lt2\<rparr>)"
proof -
  obtain lt1 lt2 where r: "Load lt (Suc i) (Some u) = Some lt1" "replay lt1 (Suc i) = Some (0, lt2)" "lt_good lt2" "lt_vals lt2 = (lt_vals lt)[i := u]"
    using lt_load_replay [OF w u(1)] by blast
  have o: "sized st" "length tss = pm_row st" "pm_finished st = length (filter (\<lambda>ts. ts = []) tss)" "length (lt_vals lt) = pm_row st"
    "\<And>j. j < pm_row st \<Longrightarrow> case tss ! j of [] \<Rightarrow> tuple_key (lt_vals lt ! j) = Some ULONG_MAX | t # ts \<Rightarrow> lt_vals lt ! j = t \<and> col_ok k st j ts"
    using m by (auto simp: merging_def)
  note s = only_col_simps [OF st'(1)]
  have "case (tss[i := ts]) ! j of [] \<Rightarrow> tuple_key (lt_vals lt2 ! j) = Some ULONG_MAX
      | t # ts \<Rightarrow> lt_vals lt2 ! j = t \<and> col_ok k (st'\<lparr>pm_lt := Some lt2\<rparr>) j ts" if j: "j < pm_row st" for j
  proof -
    have c: "col_ok k (st'\<lparr>pm_lt := Some lt2\<rparr>) j us \<longleftrightarrow> col_ok k st' j us" for us by (simp add: col_ok_def)
    show ?thesis
    proof (cases "j = i")
      case True
      then show ?thesis using u i(1) o(2,4) r(4) unfolding c by (cases ts) auto
    next
      case False
      then show ?thesis using o(5) [OF j] only_col_other [OF st'(1) False] r(4) unfolding c by (auto split: list.splits)
    qed
  qed
  moreover have "pm_finished st' = length (filter (\<lambda>ts. ts = []) (tss[i := ts]))"
    using st'(2) o(3) finished_update [OF i(1), of ts] i(2) by simp
  moreover have "sized (st'\<lparr>pm_lt := Some lt2\<rparr>)" using s o(1) by (simp add: sized_def)
  ultimately have "merging k (tss[i := ts]) (st'\<lparr>pm_lt := Some lt2\<rparr>)" using o s r unfolding merging_def by auto
  then show ?thesis using r(1,2) by blast
qed

text \<open>One round of the loop.\<close>

lemma gs_body_run:
  assumes m: "merging k tss st" "sorted_cols k tss" "16 \<le> k" "concat tss \<noteq> []" "max_ok junk k st"
    and b: "blk_ok block" "holds block us" "blk_tuple_size block = k" "blk_size block = BLOCK_SIZE" "allocateTuple block = Some desc"
  shows "\<exists>i t ts. i < length tss \<and> tss ! i = t # ts \<and> (\<forall>x \<in> set (concat tss). mkey t \<le> mkey x) \<and>
    (if concat (tss[i := ts]) = [] then \<exists>st' b'. gs_body junk st block desc = Some (GsReturn, st', b')
     else \<exists>st' b'. gs_body junk st block desc = Some (GsContinue, st', b') \<and> storeTuple block desc t = Some b'
       \<and> merging k (tss[i := ts]) st' \<and> max_ok junk k st')"
proof -
  obtain lt i t ts where w: "pm_lt st = Some lt" "lt_good lt" "lt_winner lt = Some i" "i < length tss" "tss ! i = t # ts" "lt_vals lt ! i = t"
    "col_ok k st i ts" "\<forall>x \<in> set (concat tss). mkey t \<le> mkey x" using merging_winner [OF m(1-4)] by blast
  have o: "sized st" "length tss = pm_row st" "pm_finished st = length (filter (\<lambda>ts. ts = []) tss)" using m(1) by (auto simp: merging_def)
  have i: "i < pm_row st" using w(4) o(2) by simp
  have k: "0 < k" using m(3) by simp
  have "t # ts \<in> set tss" using w(4,5) by (metis nth_mem)
  then have key: "\<And>x. x \<in> set (t # ts) \<Longrightarrow> length x = k \<and> tuple_key x = Some (mkey x)"
    using m(2,3) unfolding sorted_cols_def by (metis mkey_key)
  then obtain b' where st: "storeTuple block desc t = Some b'" "blk_ok b'" "blk_size b' = BLOCK_SIZE"
    using storeTuple_spec [OF b(1,2) _ b(5), of t] b(3,4) by auto
  note win = lt_winner_leaf [OF w(2,3)]
  have body: "gs_body junk st block desc = (do {
      (ended, tuple, st1) \<leftarrow> gs_refill junk i st;
      if ended then do { b2 \<leftarrow> build b' BLOCK_SIZE 0; Some (GsReturn, st1, b2) }
      else do { lt1 \<leftarrow> Load lt (Suc i) tuple; (r, lt2) \<leftarrow> replay lt1 (Suc i);
        Some (if r \<noteq> 0 then GsBreak else GsContinue, st1\<lparr>pm_lt := Some lt2\<rparr>, b') } })"
    using w(1,6) win key [of t] st(1) by (simp add: gs_body_def)
  have mx: "max_ok junk k (st1\<lparr>pm_lt := l\<rparr>)" if "only_col i st st1" for st1 l using m(5) only_col_simps(3) [OF that] by (simp add: max_ok_def)
  show ?thesis
  proof (cases ts)
    case (Cons t' ts')
    obtain st1 where r: "gs_refill junk i st = Some (False, Some t', st1)" "only_col i st st1" "pm_finished st1 = pm_finished st" "col_ok k st1 i ts'"
      using refill_more [OF i o(1) k] w(7) Cons by blast
    have "tuple_key t' = Some (mkey t')" using key [of t'] Cons by simp
    then obtain lt1 lt2 where l: "Load lt (Suc i) (Some t') = Some lt1" "replay lt1 (Suc i) = Some (0, lt2)" "merging k (tss[i := ts]) (st1\<lparr>pm_lt := Some lt2\<rparr>)"
      using merging_refill [OF m(1) w(1,4,5,2,3) r(2), of t' "mkey t'"] r(3,4) Cons by auto
    have "concat (tss[i := ts]) \<noteq> []" using w(4) Cons by (metis concat_eq_Nil_conv list.distinct(1) nth_list_update_eq nth_mem length_list_update)
    then show ?thesis using w(4,5,8) body r(1) l st(1) mx [OF r(2)] by (intro exI [of _ i] exI [of _ t] exI [of _ ts]) simp
  next
    case Nil
    obtain x where x: "max_tuple (ns_vd (pm_ns st)) 0 junk = Some x" "tuple_key x = Some ULONG_MAX" using m(5) by (auto simp: max_ok_def)
    obtain st1 where r: "gs_refill junk i st = Some (Suc (pm_finished st) = pm_row st, Some x, st1)" "only_col i st st1" "pm_finished st1 = Suc (pm_finished st)"
      using refill_end [OF i o(1) k _ x(1)] w(7) Nil by blast
    have fin: "Suc (pm_finished st) = pm_row st \<longleftrightarrow> concat (tss[i := ts]) = []"
      using finished_all [of "tss[i := ts]"] finished_update [OF w(4), of ts] w(5) Nil o(2,3) by simp
    show ?thesis
    proof (cases "concat (tss[i := ts]) = []")
      case True
      have "\<exists>b2. build b' BLOCK_SIZE 0 = Some b2" using st(2,3) by (simp add: build_def wr_u32_def wr_bytes_def blk_ok_def BLOCK_SIZE_def)
      then show ?thesis using w(4,5,8) body r(1) fin True by (intro exI [of _ i] exI [of _ t] exI [of _ ts]) auto
    next
      case False
      obtain lt1 lt2 where l: "Load lt (Suc i) (Some x) = Some lt1" "replay lt1 (Suc i) = Some (0, lt2)" "merging k (tss[i := ts]) (st1\<lparr>pm_lt := Some lt2\<rparr>)"
        using merging_refill [OF m(1) w(1,4,5,2,3) r(2), of x ULONG_MAX] r(3) x(2) Nil by auto
      have "gs_refill junk i st = Some (False, Some x, st1)" using r(1) fin False by simp
      then have "gs_body junk st block desc = Some (GsContinue, st1\<lparr>pm_lt := Some lt2\<rparr>, b')" using body l by simp
      then show ?thesis using w(4,5,8) False st(1) l(3) mx [OF r(2)]
        by (intro exI [of _ i] exI [of _ t] exI [of _ ts]) (simp del: concat_eq_Nil_conv)
    qed
  qed
qed

text \<open>The loop on a block with room for \<open>n\<close> tuples.\<close>

lemma gs_loop_run:
  assumes "merging k tss st" "sorted_cols k tss" "16 \<le> k" "concat tss \<noteq> []" "max_ok junk k st"
    and "blk_ok block" "holds block us" "blk_tuple_size block = k" "blk_size block = BLOCK_SIZE"
    and "n = (BLOCK_SIZE - blk_free block) div k" "n < fuel"
  shows "if n < length (concat tss)
    then \<exists>st' b' tss' zs. gs_loop fuel junk st block = Some (GsBreak, st', b') \<and> blk_ok b' \<and> holds b' (us @ zs) \<and> blk_tuple_size b' = k
      \<and> blk_size b' = BLOCK_SIZE \<and> length zs = n \<and> mset (concat tss) = mset zs + mset (concat tss') \<and> sorted (map mkey zs)
      \<and> (\<forall>z \<in> set zs. \<forall>x \<in> set (concat tss'). mkey z \<le> mkey x)
      \<and> merging k tss' st' \<and> sorted_cols k tss' \<and> max_ok junk k st'
    else \<exists>st' b'. gs_loop fuel junk st block = Some (GsReturn, st', b')"
  using assms
proof (induction fuel arbitrary: tss st block us n)
  case (Suc fuel)
  have k: "0 < k" using Suc.prems(3) by simp
  have free: "blk_free block \<le> BLOCK_SIZE" using Suc.prems(6,9) by (simp add: blk_ok_def)
  show ?case
  proof (cases "allocateTuple block")
    case None
    then have "BLOCK_SIZE - blk_free block < k" using Suc.prems(8,9) free by (auto simp: allocateTuple_def split: if_splits)
    then have n: "n = 0" using Suc.prems(10) by simp
    have "0 < length (concat tss)" using Suc.prems(4) by blast
    then have "n < length (concat tss)" using n by simp
    then show ?thesis using None n Suc.prems(1-9)
      by (simp only: if_True) (rule exI [of _ st], rule exI [of _ block], rule exI [of _ tss], rule exI [of _ "[]"], simp)
  next
    case (Some desc)
    have fit: "blk_free block + k \<le> BLOCK_SIZE" using Some Suc.prems(8,9) by (auto simp: allocateTuple_def split: if_splits)
    then have "n = (BLOCK_SIZE - (blk_free block + k) + k) div k" unfolding Suc.prems(10) by (intro arg_cong2 [where f = "(div)"]) auto
    then have "n = Suc ((BLOCK_SIZE - (blk_free block + k)) div k)" using k by (simp only: div_add_self2)
    then obtain n' where n': "n = Suc n'" "n' = (BLOCK_SIZE - (blk_free block + k)) div k" by blast
    obtain i t ts where b: "i < length tss" "tss ! i = t # ts" "\<forall>x \<in> set (concat tss). mkey t \<le> mkey x"
      "if concat (tss[i := ts]) = [] then \<exists>st' b'. gs_body junk st block desc = Some (GsReturn, st', b')
       else \<exists>st' b'. gs_body junk st block desc = Some (GsContinue, st', b') \<and> storeTuple block desc t = Some b'
         \<and> merging k (tss[i := ts]) st' \<and> max_ok junk k st'"
      using gs_body_run [OF Suc.prems(1-9) Some] by blast
    have ms: "mset (concat tss) = add_mset t (mset (concat (tss[i := ts])))" by (rule mset_concat_head [OF b(1,2)])
    from arg_cong [OF this, of size] have len: "length (concat tss) = Suc (length (concat (tss[i := ts])))"
      by (simp only: size_mset size_add_mset)
    show ?thesis
    proof (cases "concat (tss[i := ts]) = []")
      case True
      obtain st' b' where "gs_body junk st block desc = Some (GsReturn, st', b')" using b(4) unfolding if_P [OF True] by blast
      moreover have "\<not> n < length (concat tss)" using len n'(1) unfolding True by simp
      ultimately show ?thesis using Some by simp
    next
      case False
      obtain st1 b1 where b1: "gs_body junk st block desc = Some (GsContinue, st1, b1)" "storeTuple block desc t = Some b1"
        "merging k (tss[i := ts]) st1" "max_ok junk k st1" using b(4) unfolding if_not_P [OF False] by blast
      have sc: "sorted_cols k (tss[i := ts])" by (rule sorted_cols_update [OF Suc.prems(2) b(1,2)])
      have "t # ts \<in> set tss" using b(1,2) by (metis nth_mem)
      then have "length t = blk_tuple_size block" using Suc.prems(2,8) unfolding sorted_cols_def by (metis list.set_intros(1))
      then have b1': "blk_ok b1" "holds b1 (us @ [t])" "blk_tuple_size b1 = k" "blk_size b1 = BLOCK_SIZE"
        using storeTuple_spec [OF Suc.prems(6,7) _ Some, of t] b1(2) Suc.prems(8,9) by auto
      have "blk_free b1 = blk_free block + k" using b1(2) Suc.prems(8) by (auto simp: storeTuple_def bind_iff)
      then have n1: "n' = (BLOCK_SIZE - blk_free b1) div k" using n'(2) by simp
      have fl: "n' < fuel" using Suc.prems(11) n'(1) by simp
      note IH = Suc.IH [OF b1(3) sc Suc.prems(3) False b1(4) b1' n1 fl]
      have loop: "gs_loop (Suc fuel) junk st block = gs_loop fuel junk st1 b1" using Some b1(1) by simp
      show ?thesis
      proof (cases "n' < length (concat (tss[i := ts]))")
        case True
        then obtain st' b' tss' zs where z: "gs_loop fuel junk st1 b1 = Some (GsBreak, st', b')" "blk_ok b'" "holds b' ((us @ [t]) @ zs)"
          "blk_tuple_size b' = k" "blk_size b' = BLOCK_SIZE" "length zs = n'" "mset (concat (tss[i := ts])) = mset zs + mset (concat tss')"
          "sorted (map mkey zs)" "\<forall>z \<in> set zs. \<forall>x \<in> set (concat tss'). mkey z \<le> mkey x" "merging k tss' st'" "sorted_cols k tss'" "max_ok junk k st'"
          using IH by (simp only: if_True) blast
        have ms': "mset (concat tss) = mset (t # zs) + mset (concat tss')" using ms z(7) by simp
        from arg_cong [OF this, of set_mset] have "set (concat tss) = set (t # zs) \<union> set (concat tss')"
          by (simp only: set_mset_mset set_mset_union)
        then have "\<forall>x \<in> set zs \<union> set (concat tss'). mkey t \<le> mkey x" using b(3) by auto
        then have "sorted (map mkey (t # zs))" "\<forall>z \<in> set (t # zs). \<forall>x \<in> set (concat tss'). mkey z \<le> mkey x" using z(8,9) by auto
        moreover have "n < length (concat tss)" using True n'(1) len by linarith
        moreover have "holds b' (us @ t # zs)" "length (t # zs) = n" using z(3,6) n'(1) by simp_all
        ultimately show ?thesis using z(1,2,4,5,10-12) ms' unfolding loop
          by (simp only: if_True) blast
      next
        case F: False
        then have "\<not> n < length (concat tss)" using n'(1) len by linarith
        then show ?thesis using IH F unfolding loop by (simp only: if_False)
      qed
    qed
  qed
qed simp

text \<open>One call after the first: the next \<open>n\<close> tuples, or the end.\<close>

lemma get_sorted_call:
  assumes "merging k tss st" "sorted_cols k tss" "16 \<le> k" "k \<le> BLOCK_SIZE" "concat tss \<noteq> []" "max_ok junk k st" "std_block k block"
    and n: "n = BLOCK_SIZE div k"
  shows "if n < length (concat tss)
    then \<exists>st' b' tss' zs. get_sorted junk st block = Some (True, st', b') \<and> std_block k b'
      \<and> image_tuples k (blk_mem b') = take ((BLOCK_SIZE - 4) div k) zs \<and> length zs = n \<and> mset (concat tss) = mset zs + mset (concat tss')
      \<and> sorted (map mkey zs) \<and> (\<forall>z \<in> set zs. \<forall>x \<in> set (concat tss'). mkey z \<le> mkey x)
      \<and> merging k tss' st' \<and> sorted_cols k tss' \<and> max_ok junk k st'
    else \<exists>st' b'. get_sorted junk st block = Some (False, st', b')"
proof -
  let ?b = "blk_reset block"
  have b: "blk_ok ?b" "holds ?b []" "blk_tuple_size ?b = k" "blk_size ?b = BLOCK_SIZE" "n = (BLOCK_SIZE - blk_free ?b) div k"
    using assms(7) n by (simp_all add: std_block_def blk_ok_def BLOCK_SIZE_def)
  have "n \<le> BLOCK_SIZE" unfolding n by (rule div_le_dividend)
  then have fl: "n < Suc BLOCK_SIZE" by simp
  have gs: "get_sorted junk st block = Option.bind (gs_loop (Suc BLOCK_SIZE) junk st ?b) (\<lambda>(out, st2, b).
      if out = GsReturn then Some (False, st2, b)
      else do { b' \<leftarrow> assembling b BLOCK_SIZE (ns_totalsize (pm_ns st2)); Some (True, st2, b') })"
    using assms(1) by (auto simp: get_sorted_def merging_def simp del: gs_loop.simps)
  note run = gs_loop_run [OF assms(1-3,5,6) b fl]
  show ?thesis
  proof (cases "n < length (concat tss)")
    case False
    then show ?thesis using run unfolding gs by (auto simp del: gs_loop.simps concat_eq_Nil_conv)
  next
    case True
    then obtain st' b' tss' zs where z: "gs_loop (Suc BLOCK_SIZE) junk st ?b = Some (GsBreak, st', b')" "blk_ok b'" "holds b' zs" "blk_tuple_size b' = k"
      "blk_size b' = BLOCK_SIZE" "length zs = n" "mset (concat tss) = mset zs + mset (concat tss')" "sorted (map mkey zs)"
      "\<forall>z \<in> set zs. \<forall>x \<in> set (concat tss'). mkey z \<le> mkey x" "merging k tss' st'" "sorted_cols k tss'" "max_ok junk k st'"
      using run by (simp only: if_True append_Nil) blast
    have std: "std_block k b'" using z(2,4,5) by (simp add: std_block_def blk_ok_def)
    have le: "(BLOCK_SIZE - 4) div k \<le> length zs" unfolding z(6) n by (rule div_le_mono) simp
    obtain b2 where b2: "assembling b' BLOCK_SIZE k = Some b2" "std_block k b2" "image_tuples k (blk_mem b2) = take ((BLOCK_SIZE - 4) div k) zs"
      using assembling_image [OF std z(2,3) _ le] assms(3) by auto
    have "get_sorted junk st block = Some (True, st', b2)" using z(1,12) b2(1) unfolding gs by (simp add: max_ok_def del: gs_loop.simps)
    then show ?thesis using True b2(2,3) z(6-12) by (simp only: if_True) blast
  qed
qed

text \<open>
  What comes out of a merged stream when \<open>n\<close> tuples fit a block and \<open>f\<close> of them are visible: the full blocks
  before the last tuple.
\<close>

function delivered :: "nat \<Rightarrow> nat \<Rightarrow> 'a list \<Rightarrow> 'a list list" where
  "delivered n f zs = (if 0 < n \<and> n < length zs then take f (take n zs) # delivered n f (drop n zs) else [])"
  by pat_completeness auto
termination by (relation "measure (\<lambda>(n, f, zs). length zs)") auto

declare delivered.simps [simp del]

lemma length_delivered: "0 < n \<Longrightarrow> length (delivered n f zs) = (length zs - 1) div n"
proof (induction n f zs rule: delivered.induct)
  case (1 n f zs)
  show ?case
  proof (cases "n < length zs")
    case True
    then have "length zs - 1 = (length (drop n zs) - 1) + n" by simp
    then have "(length zs - 1) div n = Suc ((length (drop n zs) - 1) div n)" using "1.prems" by (simp only: div_add_self2)
    then show ?thesis using 1 True by (subst delivered.simps) simp
  next
    case False
    then show ?thesis using "1.prems" by (subst delivered.simps) (simp add: less_imp_diff_less Suc_diff_Suc)
  qed
qed

lemma pull_sorted:
  assumes "merging k tss st" "sorted_cols k tss" "16 \<le> k" "k \<le> BLOCK_SIZE" "concat tss \<noteq> []" "max_ok junk k st" "std_block k temp" "std_block k block"
    and n: "n = BLOCK_SIZE div k" and "length (concat tss) < fuel"
  shows "\<exists>js s' zs. pull_all (SU_execute junk) fuel (st, temp) block = Some (js, s') \<and> mset zs = mset (concat tss) \<and> sorted (map mkey zs)
    \<and> map (image_tuples k) js = delivered n ((BLOCK_SIZE - 4) div k) zs"
  using assms(1,2,5-8,10)
proof (induction fuel arbitrary: tss st temp block)
  case (Suc fuel)
  have npos: "0 < n" using assms(3,4) n by (simp add: div_greater_zero_iff)
  have t: "std_block k (blk_reset temp)" using Suc.prems(5) by (simp add: std_block_def)
  note call = get_sorted_call [OF Suc.prems(1,2) assms(3,4) Suc.prems(3,4) t n]
  show ?case
  proof (cases "n < length (concat tss)")
    case False
    then obtain st' b' where g: "get_sorted junk st (blk_reset temp) = Some (False, st', b')" using call by (simp only: if_False) blast
    define zs where "zs = sort_key mkey (concat tss)"
    have z: "mset zs = mset (concat tss)" "sorted (map mkey zs)" by (simp_all add: zs_def)
    then have "length zs = length (concat tss)" by (metis size_mset)
    then have d: "delivered n ((BLOCK_SIZE - 4) div k) zs = []" using False by (subst delivered.simps) simp
    have "pull_all (SU_execute junk) (Suc fuel) (st, temp) block = Some ([], (st', b'))" using g by (simp add: SU_execute_def)
    then show ?thesis using z d by (metis list.map(1))
  next
    case True
    then obtain st' b' tss' zs where z: "get_sorted junk st (blk_reset temp) = Some (True, st', b')" "std_block k b'"
      "image_tuples k (blk_mem b') = take ((BLOCK_SIZE - 4) div k) zs" "length zs = n" "mset (concat tss) = mset zs + mset (concat tss')"
      "sorted (map mkey zs)" "\<forall>z \<in> set zs. \<forall>x \<in> set (concat tss'). mkey z \<le> mkey x" "merging k tss' st'" "sorted_cols k tss'" "max_ok junk k st'"
      using call by (simp only: if_True) blast
    obtain block' where bl: "storeBlock block (blk_mem b') BLOCK_SIZE = Some block'" "std_block k block'" "blk_mem block' = blk_mem b'"
      using storeBlock_std [OF Suc.prems(6), of "blk_mem b'"] z(2) by (auto simp: std_block_def)
    from arg_cong [OF z(5), of size] have len: "length (concat tss) = n + length (concat tss')"
      using z(4) by (simp only: size_mset size_union)
    then have ne: "concat tss' \<noteq> []" and fl: "length (concat tss') < fuel" using True Suc.prems(7) npos by (auto simp del: concat_eq_Nil_conv)
    obtain js s' zs' where r: "pull_all (SU_execute junk) fuel (st', b') block' = Some (js, s')" "mset zs' = mset (concat tss')" "sorted (map mkey zs')"
      "map (image_tuples k) js = delivered n ((BLOCK_SIZE - 4) div k) zs'"
      using Suc.IH [OF z(8,9) ne z(10,2) bl(2) fl] by blast
    have ms: "mset (zs @ zs') = mset (concat tss)" using z(5) r(2) by simp
    have "set zs' = set (concat tss')" using r(2) by (metis set_mset_mset)
    then have so: "sorted (map mkey (zs @ zs'))" using z(6,7) r(3) by (auto simp: sorted_append)
    have "length zs' = length (concat tss')" using r(2) by (metis size_mset)
    then have "n < length (zs @ zs')" using z(4) ne by (cases "concat tss'") auto
    then have d: "delivered n ((BLOCK_SIZE - 4) div k) (zs @ zs') = take ((BLOCK_SIZE - 4) div k) zs # delivered n ((BLOCK_SIZE - 4) div k) zs'"
      using z(4) npos by (subst delivered.simps) simp
    have "pull_all (SU_execute junk) (Suc fuel) (st, temp) block = Some (blk_mem block' # js, s')"
      using z(1) bl(1) r(1) by (simp add: SU_execute_def)
    then show ?thesis using ms so d r(4) z(3) bl(3) by (metis list.map(2))
  qed
qed simp

section \<open>The first call\<close>

definition same_at :: "nat \<Rightarrow> pc_merge \<Rightarrow> pc_merge \<Rightarrow> bool" where
  "same_at i st st' \<longleftrightarrow> pm_merged st' ! i = pm_merged st ! i \<and> pm_itrs st' ! i = pm_itrs st ! i \<and> pm_feed st' ! i = pm_feed st ! i"

definition same_rest :: "pc_merge \<Rightarrow> pc_merge \<Rightarrow> bool" where
  "same_rest st st' \<longleftrightarrow> pm_row st' = pm_row st \<and> pm_ns st' = pm_ns st \<and> pm_lt st' = pm_lt st \<and> pm_finished st' = pm_finished st \<and> sized st'"

lemma same_at_trans: "same_at i st st' \<Longrightarrow> same_at i st' st'' \<Longrightarrow> same_at i st st''"
  by (simp add: same_at_def)

lemma same_rest_trans: "same_rest st st' \<Longrightarrow> same_rest st' st'' \<Longrightarrow> same_rest st st''"
  by (simp add: same_rest_def)

text \<open>A column whose first block is in place, not empty, and not yet touched by the iterator.\<close>

definition col_filled :: "nat \<Rightarrow> pc_merge \<Rightarrow> nat \<Rightarrow> bytes list \<Rightarrow> bool" where
  "col_filled k st i ts \<longleftrightarrow> col_ok k st i ts \<and> iter_rest k (pm_merged st ! i) (pm_itrs st ! i) \<noteq> []"

lemma col_same: "same_at i st st' \<Longrightarrow> col_ok k st' i ts \<longleftrightarrow> col_ok k st i ts" "same_at i st st' \<Longrightarrow> col_filled k st' i ts \<longleftrightarrow> col_filled k st i ts"
  by (simp_all add: same_at_def col_ok_def col_filled_def)

lemma pm_fill_run:
  assumes "sized st" "distinct js" "\<And>i. i \<in> set js \<Longrightarrow> i < pm_row st \<and> std_block k (pm_merged st ! i) \<and> feed_ok k (pm_feed st ! i) (tss ! i) \<and> tss ! i \<noteq> []"
  shows "\<exists>st'. pm_fill js st = Some st' \<and> same_rest st st' \<and> (\<forall>i \<in> set js. col_filled k st' i (tss ! i)) \<and> (\<forall>i. i \<notin> set js \<longrightarrow> same_at i st st')"
  using assms
proof (induction js arbitrary: st)
  case Nil
  then show ?case by (simp add: same_rest_def same_at_def)
next
  case (Cons i js)
  have i: "i < pm_row st" "std_block k (pm_merged st ! i)" "feed_ok k (pm_feed st ! i) (tss ! i)" "tss ! i \<noteq> []" "i \<notin> set js"
    using Cons.prems(2,3) by auto
  have l: "i < length (pm_merged st)" "i < length (pm_itrs st)" "i < length (pm_feed st)" using i(1) Cons.prems(1) by (auto simp: sized_def)
  obtain im imgs z rest where f: "pm_feed st ! i = im # imgs @ z # rest" "\<forall>x \<in> set (im # imgs). image_ok k x" "length z = BLOCK_SIZE" "image_count z = 0"
    "tss ! i = image_tuples k im @ concat (map (image_tuples k) imgs)"
  proof -
    obtain ims z rest where "pm_feed st ! i = ims @ z # rest" "\<forall>x \<in> set ims. image_ok k x" "length z = BLOCK_SIZE" "image_count z = 0"
      "tss ! i = concat (map (image_tuples k) ims)" using i(3) unfolding feed_ok_def by blast
    then show ?thesis using that i(4) by (cases ims) auto
  qed
  have im: "length im = BLOCK_SIZE" "image_count im * k \<le> BLOCK_SIZE" "0 < image_count im" using f(2) by (auto simp: image_ok_def)
  obtain b where b: "wait_pop i st = Some (st\<lparr>pm_merged := (pm_merged st)[i := b], pm_feed := (pm_feed st)[i := imgs @ z # rest]\<rparr>)"
    "std_block k b" "blk_mem b = im" using wait_pop_std [OF i(1) Cons.prems(1) f(1) im(1) i(2)] by blast
  let ?st = "st\<lparr>pm_merged := (pm_merged st)[i := b], pm_feed := (pm_feed st)[i := imgs @ z # rest], pm_itrs := (pm_itrs st)[i := createIterator]\<rparr>"
  have sr: "same_rest st ?st" "sized ?st" using Cons.prems(1) by (auto simp: same_rest_def sized_def)
  have sa: "same_at j st ?st" if "j \<noteq> i" for j using that by (simp add: same_at_def)
  have "feed_ok k (imgs @ z # rest) (concat (map (image_tuples k) imgs))" using f(2-4) unfolding feed_ok_def by force
  moreover have "image_tuples k im \<noteq> []" using im(3) by (simp add: image_tuples_def)
  ultimately have cf: "col_filled k ?st i (tss ! i)" using l b(2,3) im(2) f(5)
    by (simp add: col_filled_def col_ok_def) (auto simp: createIterator_def iter_rest_def)
  have pre: "j < pm_row ?st \<and> std_block k (pm_merged ?st ! j) \<and> feed_ok k (pm_feed ?st ! j) (tss ! j) \<and> tss ! j \<noteq> []" if "j \<in> set js" for j
  proof -
    have "j \<noteq> i" using that i(5) by blast
    then show ?thesis using Cons.prems(3) [of j] that by simp
  qed
  obtain st' where st': "pm_fill js ?st = Some st'" "same_rest ?st st'" "\<forall>i \<in> set js. col_filled k st' i (tss ! i)" "\<forall>i. i \<notin> set js \<longrightarrow> same_at i ?st st'"
    using Cons.IH [OF sr(2) _ pre] Cons.prems(2) by auto
  have "same_at i ?st st'" using st'(4) i(5) by blast
  then have "col_filled k st' i (tss ! i)" using cf col_same(2) by blast
  moreover have "same_at j st st'" if "j \<notin> set (i # js)" for j
    by (rule same_at_trans [OF sa]) (use that st'(4) in auto)
  ultimately show ?case using b(1) st'(1,3) same_rest_trans [OF sr(1) st'(2)] by auto
qed

lemma pm_firsts_run:
  assumes "sized st" "distinct js" "0 < k" "\<And>i. i \<in> set js \<Longrightarrow> i < pm_row st \<and> col_filled k st i (tss ! i)"
  shows "\<exists>st'. pm_firsts js st = Some (map (\<lambda>i. Some (hd (tss ! i))) js, st') \<and> same_rest st st' \<and> (\<forall>i \<in> set js. col_ok k st' i (tl (tss ! i)))
    \<and> (\<forall>i. i \<notin> set js \<longrightarrow> same_at i st st')"
  using assms(1,2,4)
proof (induction js arbitrary: st)
  case Nil
  then show ?case by (simp add: same_rest_def same_at_def)
next
  case (Cons i js)
  have i: "i < pm_row st" "i \<notin> set js" "iter_rest k (pm_merged st ! i) (pm_itrs st ! i) \<noteq> []" using Cons.prems(2,3) by (auto simp: col_filled_def)
  have c: "std_block k (pm_merged st ! i)" "image_count (blk_mem (pm_merged st ! i)) * k \<le> BLOCK_SIZE"
    "it_current (pm_itrs st ! i) \<le> image_count (blk_mem (pm_merged st ! i))" using Cons.prems(3) [of i] by (auto simp: col_filled_def col_ok_def)
  obtain us where us: "feed_ok k (pm_feed st ! i) us" "tss ! i = iter_rest k (pm_merged st ! i) (pm_itrs st ! i) @ us"
    using Cons.prems(3) [of i] by (auto simp: col_filled_def col_ok_def)
  have l: "i < length (pm_itrs st)" using i(1) Cons.prems(1) by (auto simp: sized_def)
  obtain t ts where t: "iter_rest k (pm_merged st ! i) (pm_itrs st ! i) = t # ts" using i(3) by (meson neq_Nil_conv)
  obtain it where it: "pm_next i st = Some (Some t, st\<lparr>pm_itrs := (pm_itrs st)[i := it]\<rparr>)" "iter_rest k (pm_merged st ! i) it = ts"
    "it_current it \<le> image_count (blk_mem (pm_merged st ! i))" using pm_next_run(1) [OF i(1) Cons.prems(1) c(1,2) assms(3) c(3) t] by blast
  let ?st = "st\<lparr>pm_itrs := (pm_itrs st)[i := it]\<rparr>"
  have sr: "same_rest st ?st" "sized ?st" using Cons.prems(1) by (auto simp: same_rest_def sized_def)
  have sa: "same_at j st ?st" if "j \<noteq> i" for j using that by (simp add: same_at_def)
  have ok: "col_ok k ?st i (tl (tss ! i))" using c it(2,3) us l t by (auto simp: col_ok_def)
  have pre: "j < pm_row ?st \<and> col_filled k ?st j (tss ! j)" if "j \<in> set js" for j
  proof -
    have "same_at j st ?st" using that i(2) by (intro sa) blast
    from col_same(2) [OF this] show ?thesis using Cons.prems(3) [of j] that by simp
  qed
  obtain st' where st': "pm_firsts js ?st = Some (map (\<lambda>i. Some (hd (tss ! i))) js, st')" "same_rest ?st st'" "\<forall>i \<in> set js. col_ok k st' i (tl (tss ! i))"
    "\<forall>i. i \<notin> set js \<longrightarrow> same_at i ?st st'" using Cons.IH [OF sr(2) _ pre] Cons.prems(2) by auto
  have "same_at i ?st st'" using st'(4) i(2) by blast
  then have "col_ok k st' i (tl (tss ! i))" using ok col_same(1) by blast
  moreover have "same_at j st st'" if "j \<notin> set (i # js)" for j
    by (rule same_at_trans [OF sa]) (use that st'(4) in auto)
  ultimately show ?case using it(1) t us(2) st'(1,3) same_rest_trans [OF sr(1) st'(2)] by auto
qed

text \<open>A buffer before the first call, whose columns will deliver the tuples \<open>tss\<close>.\<close>

definition fresh :: "nat \<Rightarrow> bytes list list \<Rightarrow> pc_merge \<Rightarrow> bool" where
  "fresh k tss st \<longleftrightarrow> sized st \<and> pm_lt st = None \<and> pm_finished st = 0 \<and> length tss = pm_row st
     \<and> (\<forall>i < pm_row st. std_block k (pm_merged st ! i) \<and> feed_ok k (pm_feed st ! i) (tss ! i) \<and> tss ! i \<noteq> [])"

lemma pm_begin_run:
  assumes "fresh k tss st" "2 \<le> pm_row st" "16 \<le> k" "sorted_cols k tss"
  shows "\<exists>st'. pm_begin st = Some st' \<and> merging k tss st' \<and> pm_ns st' = pm_ns st"
proof -
  let ?js = "[0..<pm_row st]"
  have fr: "sized st" "pm_lt st = None" "pm_finished st = 0" "length tss = pm_row st"
    "\<And>i. i < pm_row st \<Longrightarrow> std_block k (pm_merged st ! i) \<and> feed_ok k (pm_feed st ! i) (tss ! i) \<and> tss ! i \<noteq> []"
    using assms(1) by (auto simp: fresh_def)
  obtain st1 where st1: "pm_fill ?js st = Some st1" "same_rest st st1" "\<forall>i \<in> set ?js. col_filled k st1 i (tss ! i)"
    using pm_fill_run [OF fr(1), of ?js k tss] fr(5) by auto
  have s1: "sized st1" "pm_row st1 = pm_row st" using st1(2) by (auto simp: same_rest_def)
  obtain st2 where st2: "pm_firsts ?js st1 = Some (map (\<lambda>i. Some (hd (tss ! i))) ?js, st2)" "same_rest st1 st2" "\<forall>i \<in> set ?js. col_ok k st2 i (tl (tss ! i))"
    using pm_firsts_run [OF s1(1), of ?js k tss] st1(3) s1(2) assms(3) by auto
  let ?A = "None # map (\<lambda>i. Some (hd (tss ! i))) ?js" and ?key = "\<lambda>i. mkey (hd (tss ! (i - 1)))"
  have "tuple_key (hd (tss ! i)) = Some (mkey (hd (tss ! i)))" if "i < pm_row st" for i
  proof -
    have "tss ! i \<in> set tss" "hd (tss ! i) \<in> set (tss ! i)" using that fr(4,5) by auto
    then show ?thesis using assms(3,4) unfolding sorted_cols_def by (metis mkey_key)
  qed
  then have K: "lt_keyed ?A (pm_row st) ?key" by (auto simp: lt_keyed_def nth_Cons')
  obtain lt where lt: "lt_initialize ?A (pm_row st) = Some lt" "lt_n lt = pm_row st" "lt_L lt = ?A" "lt_ok lt ?key"
    using lt_initialize_ok [OF assms(2) K] by blast
  have good: "lt_good lt" "length (lt_vals lt) = pm_row st" "\<And>i. i < pm_row st \<Longrightarrow> lt_vals lt ! i = hd (tss ! i)"
    using lt by (auto simp: lt_good_def lt_vals_def)
  have r: "sized st2" "pm_row st2 = pm_row st" "pm_finished st2 = 0" "pm_ns st2 = pm_ns st" using st1(2) st2(2) fr(3) by (auto simp: same_rest_def)
  have ne: "filter (\<lambda>ts. ts = []) tss = []" using fr(4,5) by (auto simp: filter_empty_conv in_set_conv_nth)
  have "case tss ! i of [] \<Rightarrow> tuple_key (lt_vals lt ! i) = Some ULONG_MAX | t # ts \<Rightarrow> lt_vals lt ! i = t \<and> col_ok k (st2\<lparr>pm_lt := Some lt\<rparr>) i ts"
    if "i < pm_row st" for i
  proof -
    have "col_ok k (st2\<lparr>pm_lt := Some lt\<rparr>) i (tl (tss ! i))" using st2(3) that by (simp add: col_ok_def)
    then show ?thesis using fr(5) [OF that] good(3) [OF that] by (cases "tss ! i") auto
  qed
  then have "merging k tss (st2\<lparr>pm_lt := Some lt\<rparr>)" using r fr(4) good ne unfolding merging_def by (auto simp: sized_def)
  then show ?thesis using st1(1) st2(1) lt(1) r(4) by (simp add: pm_begin_def)
qed

text \<open>
  C1. The receiving side of the sorted exchange merges its columns. Let at least two columns deliver sorted
  blocks of tuples (keys below the largest \<open>unsigned long\<close>), each followed by an end mark. Pulled until it
  returns false, \<open>ShuffleUpper\<close> hands out a sorted permutation \<open>zs\<close> of all tuples, cut into blocks of \<open>n\<close>, with
  two losses: only \<open>(BLOCK_SIZE - 4) div k\<close> of the \<open>n = BLOCK_SIZE div k\<close> tuples of a block are visible, and
  the tuples after the \<open>(length zs - 1) div n\<close> full blocks, one at least, are never handed out.
\<close>

theorem sorted_exchange_merges:
  assumes "fresh k tss st" "2 \<le> pm_row st" "16 \<le> k" "k \<le> BLOCK_SIZE" "sorted_cols k tss" "max_ok junk k st"
    and "std_block k temp" "std_block k block" "length (concat tss) < fuel"
  shows "\<exists>js s' zs. pull_all (SU_execute junk) fuel (st, temp) block = Some (js, s') \<and> mset zs = mset (concat tss) \<and> sorted (map mkey zs)
    \<and> map (image_tuples k) js = delivered (BLOCK_SIZE div k) ((BLOCK_SIZE - 4) div k) zs
    \<and> length js = (length zs - 1) div (BLOCK_SIZE div k)"
proof -
  obtain st1 where st1: "pm_begin st = Some st1" "merging k tss st1" "pm_ns st1 = pm_ns st" using pm_begin_run [OF assms(1-3,5)] by blast
  have lt: "pm_lt st = None" "pm_lt st1 \<noteq> None" using assms(1) st1(2) by (auto simp: fresh_def merging_def)
  then have "get_sorted junk st b = get_sorted junk st1 b" for b using st1(1) by (auto simp: get_sorted_def simp del: gs_loop.simps)
  then have "SU_execute junk (st, temp) block = SU_execute junk (st1, temp) block" by (simp add: SU_execute_def)
  then have eq: "pull_all (SU_execute junk) fuel (st, temp) block = pull_all (SU_execute junk) fuel (st1, temp) block" by (cases fuel) simp_all
  have "tss ! 0 \<noteq> []" "0 < length tss" using assms(1,2) by (auto simp: fresh_def)
  then have ne: "concat tss \<noteq> []" by (metis concat_eq_Nil_conv nth_mem)
  have mx: "max_ok junk k st1" using assms(6) st1(3) by (simp add: max_ok_def)
  obtain js s' zs where p: "pull_all (SU_execute junk) fuel (st1, temp) block = Some (js, s')" "mset zs = mset (concat tss)" "sorted (map mkey zs)"
    "map (image_tuples k) js = delivered (BLOCK_SIZE div k) ((BLOCK_SIZE - 4) div k) zs"
    using pull_sorted [OF st1(2) assms(5,3,4) ne mx assms(7,8) refl assms(9)] by blast
  have "0 < BLOCK_SIZE div k" using assms(3,4) by (simp add: div_greater_zero_iff)
  then have "length js = (length zs - 1) div (BLOCK_SIZE div k)" using p(4) length_delivered by (metis length_map)
  then show ?thesis using p eq by auto
qed

section \<open>Witness\<close>

text \<open>Two columns with one block of 4095 tuples of zeros each: one block comes out.\<close>

definition column_image :: bytes where
  "column_image = replicate (BLOCK_SIZE - 4) 0 @ le_bytes 4 4095"

definition long_pair :: NewSchema where
  "long_pair = mk_NewSchema [UnLongType t_long, UnLongType t_long]"

definition two_columns :: pc_merge where
  "two_columns = \<lparr>pm_ns = long_pair, pm_row = 2, pm_feed = replicate 2 [column_image, blank], pm_merged = replicate 2 (mk_Block blank 16),
     pm_itrs = replicate 2 createIterator, pm_lt = None, pm_finished = 0\<rparr>"

lemma column_image_facts: "image_ok 16 column_image" "image_tuples 16 column_image = replicate 4095 (replicate 16 0)"
proof -
  have c: "image_count column_image = 4095" by (simp add: column_image_def image_count_def BLOCK_SIZE_def)
  then show "image_ok 16 column_image" by (simp add: image_ok_def column_image_def BLOCK_SIZE_def)
  have "take 16 (drop (j * 16) column_image) = replicate 16 0" if "j < 4095" for j
    using that by (simp add: column_image_def BLOCK_SIZE_def)
  then have "image_tuples 16 column_image = map (\<lambda>_. replicate 16 0) [0..<4095]" unfolding image_tuples_def c by (intro map_cong) auto
  then show "image_tuples 16 column_image = replicate 4095 (replicate 16 0)" by (simp add: map_replicate_const)
qed

lemma blank_image: "image_count blank = 0"
  by (simp add: image_count_def blank_def BLOCK_SIZE_def)

theorem sorted_exchange_merges_witness:
  "\<exists>js s' zs. pull_all (SU_execute (replicate 16 0)) 10000 (two_columns, mk_Block blank 16) (mk_Block blank 16) = Some (js, s')
    \<and> mset zs = mset (replicate 8190 (replicate 16 0)) \<and> map (image_tuples 16) js = delivered 4096 4095 zs"
proof -
  let ?tss = "replicate 2 (replicate 4095 (replicate 16 0))"
  have "feed_ok 16 [column_image, blank] (replicate 4095 (replicate 16 0))"
    unfolding feed_ok_def using column_image_facts blank_image by (intro exI [of _ "[column_image]"] exI [of _ blank] exI [of _ "[]"]) simp
  then have f: "fresh 16 ?tss two_columns" by (simp add: fresh_def sized_def two_columns_def)
  have key: "tuple_key (replicate 16 0) = Some 0" by (simp add: tuple_key_def rd_u64_def rd_bytes_def)
  have s: "sorted_cols 16 ?tss" using key by (simp add: sorted_cols_def mkey_def ULONG_MAX_def map_replicate_const sorted_replicate)
  have vd: "ns_vd long_pair = [UnLongType t_long, UnLongType t_long]" "ns_totalsize long_pair = 16"
    by (simp_all add: long_pair_def mk_NewSchema_def get_type_def)
  have "wr_u64 (replicate 16 0) 0 ULONG_MAX = Some (le_bytes 8 ULONG_MAX @ replicate 8 0)" by (simp add: wr_u64_def wr_bytes_def)
  moreover have "wr_u64 (le_bytes 8 ULONG_MAX @ replicate 8 0) 8 ULONG_MAX = Some (le_bytes 8 ULONG_MAX @ le_bytes 8 ULONG_MAX)"
    by (simp add: wr_u64_def wr_bytes_def)
  ultimately have "max_tuple (ns_vd long_pair) 0 (replicate 16 0) = Some (le_bytes 8 ULONG_MAX @ le_bytes 8 ULONG_MAX)"
    using vd(1) by (simp add: get_type_def)
  moreover have "tuple_key (le_bytes 8 ULONG_MAX @ le_bytes 8 ULONG_MAX) = Some ULONG_MAX"
    by (simp add: tuple_key_def rd_u64_def rd_bytes_def ULONG_MAX_def)
  ultimately have mx: "max_ok (replicate 16 0) 16 two_columns" using vd(2) by (simp add: max_ok_def two_columns_def)
  have n: "BLOCK_SIZE div 16 = 4096" "(BLOCK_SIZE - 4) div 16 = 4095" by (simp_all add: BLOCK_SIZE_def)
  have c: "concat ?tss = replicate 8190 (replicate 16 0)" by (simp add: numeral_2_eq_2 replicate_add [symmetric])
  have "2 \<le> pm_row two_columns" by (simp add: two_columns_def)
  from sorted_exchange_merges [OF f this _ _ s mx, of "mk_Block blank 16" "mk_Block blank 16" 10000] show ?thesis
    unfolding n c by (auto simp: BLOCK_SIZE_def simp del: pull_all.simps)
qed

end
