(* ===== verification/Mosito_Join.thy ===== *)
theory Mosito_Join
  imports Mosito_Operators Mosito_Heap
begin

text \<open>
  The merge join of \<^verbatim>\<open>physical/m_join.h\<close> and \<^verbatim>\<open>physical/m_join.cpp\<close>, in the variant that is compiled
  (\<open>SYN_JOIN\<close> is not defined). \<open>prelude\<close> gathers the tuples of both children into four growing blocks
  per side, by the key divided by \<open>CPU_CORE\<close>, closes the blocks with \<open>assembling\<close>, and merges the blocks
  of each range in a thread of its own.

  The two gathering threads work on disjoint parts of the operator, so the model runs one after the
  other. \<open>gather_merge\<close> is modelled for the index its thread was started for.
\<close>

section \<open>Gathering\<close>

text \<open>One side of the join: the child, its block, the four flex blocks and the table sizes.\<close>

record 's gathered =
  ga_child :: 's
  ga_block :: block
  ga_flex :: "block list"
  ga_sizes :: "nat list"

record ('s, 't) merge_join =
  mj_l :: "'s gathered"
  mj_r :: "'t gathered"
  mj_lfb_itr :: "iter list"
  mj_rfb_itr :: "iter list"

text \<open>\<open>int range=(value)/CPU_CORE\<close> keeps the low 32 bits of the quotient.\<close>

definition mj_range :: "nat \<Rightarrow> int" where
  "mj_range value = int_of_u32 (wrap32 (value div CPU_CORE))"

text \<open>
  The body of the gathering loop for the tuple at offset \<open>p\<close> of the block; \<open>junk i\<close> supplies what realloc
  appends to block \<open>i\<close>. A range outside the array of blocks is undefined.
\<close>

definition gather_tuple :: "bool \<Rightarrow> (nat \<Rightarrow> nat \<Rightarrow> nat) \<Rightarrow> nat \<Rightarrow> 's gathered \<Rightarrow> 's gathered option" where
  "gather_tuple strict junk p g = do {
     value \<leftarrow> rd_u64 (blk_mem (ga_block g)) (p + 8);
     let range = mj_range value;
     if 0 \<le> range \<and> nat range < length (ga_flex g) then
       (let i = nat range; f = ga_flex g ! i in do {
          t \<leftarrow> rd_bytes (blk_mem (ga_block g)) p (blk_tuple_size f);
          f' \<leftarrow> storeTupleOK strict (junk i) f t;
          Some (g\<lparr>ga_flex := (ga_flex g)[i := f'], ga_sizes := (ga_sizes g)[i := wrap32 (ga_sizes g ! i + 1)]\<rparr>)
        })
     else None
   }"

fun gather_tuples :: "bool \<Rightarrow> (nat \<Rightarrow> nat \<Rightarrow> nat) \<Rightarrow> nat list \<Rightarrow> 's gathered \<Rightarrow> 's gathered option" where
  "gather_tuples strict junk [] g = Some g"
| "gather_tuples strict junk (p # ps) g = do { g' \<leftarrow> gather_tuple strict junk p g; gather_tuples strict junk ps g' }"

fun gather_loop :: "bool \<Rightarrow> 's executor \<Rightarrow> (nat \<Rightarrow> nat \<Rightarrow> nat) \<Rightarrow> nat \<Rightarrow> 's gathered \<Rightarrow> 's gathered option" where
  "gather_loop strict exec junk 0 g = None"
| "gather_loop strict exec junk (Suc fuel) g = do {
     (more, s', b) \<leftarrow> exec (ga_child g) (ga_block g);
     let g1 = g\<lparr>ga_child := s', ga_block := b\<rparr>;
     if more then do {
       n \<leftarrow> get_size b;
       (ps, _) \<leftarrow> drain (Suc n) b createIterator;
       g2 \<leftarrow> gather_tuples strict junk ps g1;
       gather_loop strict exec junk fuel g2
     }
     else Some g1
   }"

text \<open>\<open>gather_left\<close> and \<open>gather_right\<close>, which differ in the side only.\<close>

definition gather_side :: "bool \<Rightarrow> ('s \<Rightarrow> 's option) \<Rightarrow> 's executor \<Rightarrow> (nat \<Rightarrow> nat \<Rightarrow> nat) \<Rightarrow> nat \<Rightarrow> 's gathered \<Rightarrow> 's gathered option" where
  "gather_side strict prelude exec junk fuel g = do {
     s \<leftarrow> prelude (ga_child g);
     gather_loop strict exec junk fuel (g\<lparr>ga_child := s\<rparr>)
   }"

text \<open>The new blocks of a side; \<open>junkb\<close> and \<open>junk i\<close> are the contents malloc returns.\<close>

definition side_new :: "'s \<Rightarrow> NewSchema \<Rightarrow> bytes \<Rightarrow> (nat \<Rightarrow> nat \<Rightarrow> nat) \<Rightarrow> 's gathered" where
  "side_new s ns junkb junk =
     (let k = get_bytes (Schema_of_NewSchema ns) in
      \<lparr>ga_child = s, ga_block = mk_Block junkb k,
       ga_flex = map (\<lambda>i. mk_Block (map (junk i) [0..<INIT_FLEX_BLOCK_SIZE]) k) [0..<CPU_CORE],
       ga_sizes = replicate CPU_CORE 0\<rparr>)"

text \<open>\<open>assembling(tablesize*bytes+4, bytes)\<close>: unsigned arithmetic, passed as an \<open>int\<close>.\<close>

definition assemble_flex :: "nat \<Rightarrow> block \<Rightarrow> nat \<Rightarrow> block option" where
  "assemble_flex k b n = (let sz = wrap32 (n * k + 4) in if sz < 2 ^ 31 then assembling b sz k else None)"

definition assemble_side :: "nat \<Rightarrow> 's gathered \<Rightarrow> 's gathered option" where
  "assemble_side k g = do {
     bs \<leftarrow> those (map (\<lambda>i. assemble_flex k (ga_flex g ! i) (ga_sizes g ! i)) [0..<CPU_CORE]);
     Some (g\<lparr>ga_flex := bs\<rparr>)
   }"

text \<open>\<open>prelude\<close> up to the start of the merging threads.\<close>

definition MergeJoin_prelude :: "bool \<Rightarrow> ('s \<Rightarrow> 's option) \<Rightarrow> 's executor \<Rightarrow> ('t \<Rightarrow> 't option) \<Rightarrow> 't executor \<Rightarrow>
    (nat \<Rightarrow> nat \<Rightarrow> nat) \<Rightarrow> bytes \<Rightarrow> nat \<Rightarrow> NewSchema \<Rightarrow> NewSchema \<Rightarrow> 's \<Rightarrow> 't \<Rightarrow> ('s, 't) merge_join option" where
  "MergeJoin_prelude strict prel execl prer execr junk junkb fuel nsl nsr l r = do {
     gl \<leftarrow> gather_side strict prel execl junk fuel (side_new l nsl junkb junk);
     gr \<leftarrow> gather_side strict prer execr junk fuel (side_new r nsr junkb junk);
     gl' \<leftarrow> assemble_side (get_bytes (Schema_of_NewSchema nsl)) gl;
     gr' \<leftarrow> assemble_side (get_bytes (Schema_of_NewSchema nsr)) gr;
     Some \<lparr>mj_l = gl', mj_r = gr', mj_lfb_itr = replicate CPU_CORE createIterator,
           mj_rfb_itr = replicate CPU_CORE createIterator\<rparr>
   }"

text \<open>\<open>execute\<close> hands out nothing.\<close>

definition MergeJoin_execute :: "('s, 't) merge_join executor" where
  "MergeJoin_execute mj block = Some (False, mj, block)"

section \<open>Merging\<close>

text \<open>
  The state of one merging thread: the two blocks and their iterators, the output block, \<open>count_[i]\<close> and
  \<open>count_o_[i]\<close>, the output blocks that were built (and dropped), and how many were made. \<open>fake_r\<close> is advanced with the iterator
  of the left side, so a pointer says which block it points into.
\<close>

datatype side = Lft | Rgt

record merge_state =
  mg_l :: block
  mg_r :: block
  mg_lit :: iter
  mg_rit :: iter
  mg_block :: block
  mg_count :: nat
  mg_count_o :: nat
  mg_built :: "block list"
  mg_made :: nat

definition mg_mem :: "merge_state \<Rightarrow> side \<Rightarrow> bytes" where
  "mg_mem st s = blk_mem (case s of Lft \<Rightarrow> mg_l st | Rgt \<Rightarrow> mg_r st)"

definition mj_compare :: "merge_state \<Rightarrow> side \<times> nat \<Rightarrow> side \<times> nat \<Rightarrow> int option" where
  "mj_compare st p q = do {
     a \<leftarrow> rd_u64 (mg_mem st (fst p)) (snd p + 8);
     b \<leftarrow> rd_u64 (mg_mem st (fst q)) (snd q + 8);
     Some (if a = b then 1 else if a < b then 0 else - 1)
   }"

definition combine :: "merge_state \<Rightarrow> nat \<Rightarrow> side \<times> nat \<Rightarrow> side \<times> nat \<Rightarrow> bytes option" where
  "combine st des p q = do {
     x \<leftarrow> rd_bytes (mg_mem st (fst p)) (snd p) (blk_tuple_size (mg_l st));
     y \<leftarrow> rd_bytes (mg_mem st (fst q)) (snd q) (blk_tuple_size (mg_r st));
     m \<leftarrow> wr_bytes (blk_mem (mg_block st)) des x;
     wr_bytes m (des + blk_tuple_size (mg_l st)) y
   }"

text \<open>The output of a pair. A full block is built, and false stands for \<open>goto funck\<close>: the pair is dropped.\<close>

definition mj_emit :: "side \<times> nat \<Rightarrow> side \<times> nat \<Rightarrow> merge_state \<Rightarrow> (bool \<times> merge_state) option" where
  "mj_emit p q st =
     (case allocateTuple (mg_block st) of
        Some desc \<Rightarrow> do {
          m \<leftarrow> combine st desc p q;
          Some (True, st\<lparr>mg_block := updateFree ((mg_block st)\<lparr>blk_mem := m\<rparr>), mg_count := wrap32 (mg_count st + 1)\<rparr>)
        }
      | None \<Rightarrow> do {
          b \<leftarrow> build (mg_block st) BLOCK_SIZE (mg_count st);
          Some (False, st\<lparr>mg_block := blk_reset b, mg_count_o := wrap32 (mg_count_o st + 1), mg_built := mg_built st @ [b]\<rparr>)
        })"

text \<open>The inner loops. Neither pointer ever becomes null: only a differing key or a full block ends them.\<close>

fun fake_left :: "nat \<Rightarrow> nat \<Rightarrow> nat \<Rightarrow> merge_state \<Rightarrow> (bool \<times> merge_state) option" where
  "fake_left 0 r fake_l st = None"
| "fake_left (Suc fuel) r fake_l st = do {
     c \<leftarrow> mj_compare st (Lft, fake_l) (Rgt, r);
     if c = 1 then do {
       (ok, st1) \<leftarrow> mj_emit (Lft, fake_l) (Rgt, r) st;
       if ok then do {
         (fake_l', it) \<leftarrow> getNextFake (mg_l st1) (mg_lit st1);
         fake_left fuel r fake_l' (st1\<lparr>mg_lit := it\<rparr>)
       }
       else Some (False, st1)
     }
     else Some (True, st)
   }"

fun fake_right :: "nat \<Rightarrow> nat \<Rightarrow> side \<times> nat \<Rightarrow> merge_state \<Rightarrow> (bool \<times> merge_state) option" where
  "fake_right 0 l fake_r st = None"
| "fake_right (Suc fuel) l fake_r st = do {
     c \<leftarrow> mj_compare st (Lft, l) fake_r;
     if c = 1 then do {
       (ok, st1) \<leftarrow> mj_emit (Lft, l) fake_r st;
       if ok then do {
         (p, it) \<leftarrow> getNextFake (mg_l st1) (mg_lit st1);
         fake_right fuel l (Lft, p) (st1\<lparr>mg_lit := it\<rparr>)
       }
       else Some (False, st1)
     }
     else Some (True, st)
   }"

text \<open>A pair of equal tuples: the pair itself, then the pairs of the inner loops.\<close>

definition mj_equal :: "nat \<Rightarrow> nat \<Rightarrow> nat \<Rightarrow> merge_state \<Rightarrow> (bool \<times> merge_state) option" where
  "mj_equal fuel l r st = do {
     (ok, st1) \<leftarrow> mj_emit (Lft, l) (Rgt, r) st;
     if ok then do {
       (fake_l, lit) \<leftarrow> getNextFake (mg_l st1) (mg_lit st1);
       (fake_r, rit) \<leftarrow> getNextFake (mg_r st1) (mg_rit st1);
       (ok2, st2) \<leftarrow> fake_left fuel r fake_l (st1\<lparr>mg_lit := lit, mg_rit := rit\<rparr>);
       if ok2 then fake_right fuel l (Rgt, fake_r) st2 else Some (False, st2)
     }
     else Some (False, st1)
   }"

definition next_l :: "merge_state \<Rightarrow> (nat option \<times> merge_state) option" where
  "next_l st = do { (p, it) \<leftarrow> getNext (mg_l st) (mg_lit st); Some (p, st\<lparr>mg_lit := it\<rparr>) }"

definition next_r :: "merge_state \<Rightarrow> (nat option \<times> merge_state) option" where
  "next_r st = do { (p, it) \<leftarrow> getNext (mg_r st) (mg_rit st); Some (p, st\<lparr>mg_rit := it\<rparr>) }"

text \<open>The label \<open>funck\<close>: both sides advance and a new output block replaces the old one.\<close>

definition funck :: "(nat \<Rightarrow> bytes) \<Rightarrow> nat \<Rightarrow> merge_state \<Rightarrow> (nat option \<times> nat option \<times> merge_state) option" where
  "funck junk k st = do {
     (l, st1) \<leftarrow> next_l st;
     (r, st2) \<leftarrow> next_r st1;
     Some (l, r, st2\<lparr>mg_block := mk_Block (junk (mg_made st)) k, mg_made := Suc (mg_made st)\<rparr>)
   }"

fun merge_loop :: "nat \<Rightarrow> (nat \<Rightarrow> bytes) \<Rightarrow> nat \<Rightarrow> nat option \<Rightarrow> nat option \<Rightarrow> merge_state \<Rightarrow> merge_state option" where
  "merge_loop 0 junk k l r st = None"
| "merge_loop (Suc fuel) junk k l r st =
     (case (l, r) of
        (Some p, Some q) \<Rightarrow> do {
          c \<leftarrow> mj_compare st (Lft, p) (Rgt, q);
          if c = 1 then do {
            (ok, st1) \<leftarrow> mj_equal fuel p q st;
            if ok then do {
              (l', st2) \<leftarrow> next_l st1;
              (r', st3) \<leftarrow> next_r st2;
              merge_loop fuel junk k l' r' st3
            }
            else do { (l', r', st2) \<leftarrow> funck junk k st1; merge_loop fuel junk k l' r' st2 }
          }
          else if c = 0 then do { (l', st1) \<leftarrow> next_l st; merge_loop fuel junk k l' r st1 }
          else do { (r', st1) \<leftarrow> next_r st; merge_loop fuel junk k l r' st1 }
        }
      | _ \<Rightarrow> Some st)"

text \<open>
  \<open>gather_merge\<close> for index \<open>i\<close>: \<open>count_o\<close> is the value \<open>count_o_[i]\<close> has, which nothing initialises.
  The empty output block before the label is a placeholder for none.
\<close>

definition gather_merge :: "nat \<Rightarrow> (nat \<Rightarrow> bytes) \<Rightarrow> nat \<Rightarrow> nat \<Rightarrow> nat \<Rightarrow> ('s, 't) merge_join \<Rightarrow> merge_state option" where
  "gather_merge fuel junk k count_o i mj = do {
     (l, r, st) \<leftarrow> funck junk k \<lparr>mg_l = ga_flex (mj_l mj) ! i, mg_r = ga_flex (mj_r mj) ! i,
        mg_lit = mj_lfb_itr mj ! i, mg_rit = mj_rfb_itr mj ! i, mg_block = mk_Block [] k, mg_count = 0,
        mg_count_o = count_o, mg_built = [], mg_made = 0\<rparr>;
     merge_loop fuel junk k l r st
   }"


section \<open>What the merge computes\<close>

definition tkey :: "bytes \<Rightarrow> nat" where
  "tkey u = le_val (take 8 (drop 8 u))"

text \<open>The reference: the pairs of tuples with equal keys, and the merge that finds them in sorted lists.\<close>

definition equi_join :: "bytes list \<Rightarrow> bytes list \<Rightarrow> bytes list" where
  "equi_join us vs = [x @ y. x \<leftarrow> us, y \<leftarrow> vs, tkey x = tkey y]"

fun merge_join_ref :: "bytes list \<Rightarrow> bytes list \<Rightarrow> bytes list" where
  "merge_join_ref (x # us) (y # vs) =
     (if tkey x = tkey y then (x @ y) # merge_join_ref us vs
      else if tkey x < tkey y then merge_join_ref us (y # vs)
      else merge_join_ref (x # us) vs)"
| "merge_join_ref _ _ = []"

lemma equi_join_Nil [simp]: "equi_join us [] = []" "equi_join [] vs = []"
  by (simp_all add: equi_join_def)

lemma equi_join_Cons: "equi_join (x # us) vs = [x @ y. y \<leftarrow> vs, tkey x = tkey y] @ equi_join us vs"
  by (simp add: equi_join_def)

lemma equi_join_skip:
  assumes "\<And>x. x \<in> set us \<Longrightarrow> tkey x \<noteq> tkey y"
  shows "equi_join us (y # vs) = equi_join us vs"
  using assms by (induction us) (auto simp: equi_join_Cons)

lemma partners_none:
  assumes "\<And>y. y \<in> set vs \<Longrightarrow> tkey x \<noteq> tkey y"
  shows "[x @ y. y \<leftarrow> vs, tkey x = tkey y] = []"
  using assms by auto

lemma merge_join_ref_eq:
  assumes "sorted_wrt (<) (map tkey us)" "sorted_wrt (<) (map tkey vs)"
  shows "merge_join_ref us vs = equi_join us vs"
  using assms
proof (induction us vs rule: merge_join_ref.induct)
  case (1 x us y vs)
  consider "tkey x = tkey y" | "tkey x < tkey y" | "tkey y < tkey x" by (rule linorder_cases)
  then show ?case
  proof cases
    case 1
    then have "[x @ z. z \<leftarrow> vs, tkey x = tkey z] = []" "equi_join us (y # vs) = equi_join us vs"
      using "1.prems" by (auto intro!: partners_none equi_join_skip)
    then show ?thesis using 1 "1.IH"(1) "1.prems" by (simp add: equi_join_Cons)
  next
    case 2
    then have "[x @ z. z \<leftarrow> y # vs, tkey x = tkey z] = []" using "1.prems" by (intro partners_none) auto
    then show ?thesis using 2 "1.IH"(2) "1.prems" by (simp add: equi_join_Cons [of x us])
  next
    case 3
    then have "equi_join (x # us) (y # vs) = equi_join (x # us) vs" using "1.prems" by (intro equi_join_skip) auto
    then show ?thesis using 3 "1.IH"(3) "1.prems" by simp
  qed
qed auto

section \<open>The merge loop\<close>

text \<open>The key field of the slot \<open>i\<close> of a block, also behind the last tuple.\<close>

definition slot_key :: "nat \<Rightarrow> block \<Rightarrow> nat \<Rightarrow> nat" where
  "slot_key k b i = le_val (take 8 (drop (i * k + 8) (blk_mem b)))"

text \<open>
  \<open>run_ok k b us\<close>: the iterator of the block sees the tuples \<open>us\<close>, and the key fields of the two slots behind
  them are inside the allocation.
\<close>

definition run_ok :: "nat \<Rightarrow> block \<Rightarrow> bytes list \<Rightarrow> bool" where
  "run_ok k b us \<longleftrightarrow> blk_tuple_size b = k \<and> 16 \<le> k \<and> get_size b = Some (length us)
     \<and> (\<forall>i < length us. rd_bytes (blk_mem b) (i * k) k = Some (us ! i))
     \<and> (length us + 1) * k + 16 \<le> length (blk_mem b) \<and> length (blk_mem b) < 2 ^ 32"

text \<open>\<open>mergeable\<close>: two such blocks with ascending keys, and no key that a slot behind the other side's end has.\<close>

definition mergeable :: "nat \<Rightarrow> nat \<Rightarrow> block \<Rightarrow> block \<Rightarrow> bytes list \<Rightarrow> bytes list \<Rightarrow> bool" where
  "mergeable lb rb L R us vs \<longleftrightarrow> run_ok lb L us \<and> run_ok rb R vs
     \<and> sorted_wrt (<) (map tkey us) \<and> sorted_wrt (<) (map tkey vs)
     \<and> (\<forall>y \<in> set vs. tkey y \<notin> {slot_key lb L (length us), slot_key lb L (length us + 1)})
     \<and> (\<forall>x \<in> set us. tkey x \<notin> {slot_key rb R (length vs), slot_key rb R (length vs + 1)})"

lemma slot_in:
  assumes "run_ok k b us" "i \<le> length us + 1"
  shows "i * k + 16 \<le> length (blk_mem b)" "i * k < 2 ^ 32" "i < 2 ^ 32"
proof -
  have "i * k \<le> (length us + 1) * k" using assms(2) by (rule mult_le_mono1)
  moreover have "i * 1 \<le> i * k" by (rule mult_le_mono2) (use assms(1) in \<open>simp add: run_ok_def\<close>)
  ultimately show "i * k + 16 \<le> length (blk_mem b)" "i * k < 2 ^ 32" "i < 2 ^ 32"
    using assms(1) unfolding run_ok_def by linarith+
qed

lemma wr_bytes_append:
  assumes "d + length x + length y \<le> length m"
  shows "Option.bind (wr_bytes m d x) (\<lambda>m1. wr_bytes m1 (d + length x) y) = wr_bytes m d (x @ y)"
  using assms by (simp add: wr_bytes_def ac_simps)

lemma rd_bytes_length: "rd_bytes m off n = Some x \<Longrightarrow> length x = n"
  by (auto simp: rd_bytes_def split: if_splits)

lemma rd_slot:
  assumes "run_ok k b us" "i \<le> length us + 1"
  shows "rd_u64 (blk_mem b) (i * k + 8) = Some (slot_key k b i)"
  using slot_in [OF assms] by (simp add: rd_u64_def rd_bytes_def slot_key_def)

lemma slot_tuple:
  assumes "run_ok k b us" "i < length us"
  shows "slot_key k b i = tkey (us ! i)"
proof -
  have "us ! i = take k (drop (i * k) (blk_mem b))" and k: "16 \<le> k"
    using assms by (auto simp: run_ok_def rd_bytes_def split: if_splits)
  then show ?thesis by (simp add: slot_key_def tkey_def drop_take min_def add.commute)
qed

lemma skipped_slot:
  assumes "mergeable lb rb L R us vs" "i < length us" "j < length vs" "tkey (us ! i) = tkey (vs ! j)"
  shows "slot_key lb L (i + 2) \<noteq> tkey (vs ! j)" "slot_key rb R (j + 2) \<noteq> tkey (us ! i)"
proof -
  have asc: "tkey (ts ! a) < tkey (ts ! b)" if "sorted_wrt (<) (map tkey ts)" "a < b" "b < length ts" for ts a b
    using that sorted_wrt_nth_less [of "(<)" "map tkey ts" a b] by simp
  have beyond: "slot_key k B (a + 2) \<noteq> tkey t"
    if "run_ok k B ts" "sorted_wrt (<) (map tkey ts)" "a < length ts" "tkey (ts ! a) = tkey t"
      "tkey t \<notin> {slot_key k B (length ts), slot_key k B (length ts + 1)}" for k B ts a t
  proof (cases "a + 2 < length ts")
    case True
    then show ?thesis using slot_tuple [OF that(1) True] asc [OF that(2) _ True, of a] that(4) by simp
  next
    case False
    then have "a + 2 = length ts \<or> a + 2 = length ts + 1" using that(3) by linarith
    then show ?thesis using that(5) by auto
  qed
  show "slot_key lb L (i + 2) \<noteq> tkey (vs ! j)" "slot_key rb R (j + 2) \<noteq> tkey (us ! i)"
    using assms beyond [of lb L us i "vs ! j"] beyond [of rb R vs j "us ! i"] nth_mem [OF assms(2)] nth_mem [OF assms(3)]
    unfolding mergeable_def by metis+
qed

text \<open>The iterator after it handed out slot \<open>a\<close> of \<open>n\<close>, and the pointer it handed out.\<close>

definition cur_it :: "nat \<Rightarrow> nat \<Rightarrow> iter" where
  "cur_it n a = \<lparr>it_current = min (Suc a) n, it_fake = Some 0\<rparr>"

definition cur_ptr :: "nat \<Rightarrow> nat \<Rightarrow> nat \<Rightarrow> nat option" where
  "cur_ptr k n a = (if a < n then Some (a * k) else None)"

lemma getNext_run:
  assumes "run_ok k b us" "it_current it = min a (length us)"
  shows "getNext b it = Some (cur_ptr k (length us) a, cur_it (length us) a)"
proof (cases "a < length us")
  case True
  then have "a * k < 2 ^ 32" using slot_in(2) [OF assms(1), of a] by simp
  moreover have "Suc a < 2 ^ 32" using slot_in(3) [OF assms(1), of "Suc a"] True by simp
  ultimately show ?thesis using assms True
    by (cases it) (simp add: getNext_def run_ok_def cur_ptr_def cur_it_def Let_def min_def)
next
  case False
  then show ?thesis using assms by (cases it) (simp add: getNext_def run_ok_def cur_ptr_def cur_it_def Let_def min_def)
qed

lemma getNextFake_run:
  assumes "run_ok k b us" "a < length us"
  shows "getNextFake b (cur_it (length us) a) = Some ((a + 2) * k, \<lparr>it_current = Suc a, it_fake = Some 1\<rparr>)"
proof -
  have "a + 2 < 2 ^ 32" "(a + 2) * k < 2 ^ 32" using slot_in(2,3) [OF assms(1), of "a + 2"] assms(2) by simp_all
  then have "wrap32 (wrap32 (a + 2) * k) = (a + 2) * k" by simp
  moreover have "min (Suc a) (length us) = Suc a" using assms(2) by simp
  ultimately show ?thesis using assms(1) by (simp add: getNextFake_def cur_it_def run_ok_def Let_def)
qed

text \<open>The output block: \<open>BLOCK_SIZE\<close> bytes that hold the joined tuples so far.\<close>

definition out_ok :: "nat \<Rightarrow> block \<Rightarrow> bytes list \<Rightarrow> bool" where
  "out_ok k b ps \<longleftrightarrow> blk_ok b \<and> holds b ps \<and> blk_size b = BLOCK_SIZE \<and> blk_tuple_size b = k"

lemma mj_emit_run:
  assumes m: "mergeable (blk_tuple_size (mg_l st)) (blk_tuple_size (mg_r st)) (mg_l st) (mg_r st) us vs"
    and ij: "i < length us" "j < length vs"
    and k: "k = blk_tuple_size (mg_l st) + blk_tuple_size (mg_r st)"
    and o: "out_ok k (mg_block st) ps" "Suc (length ps) * k \<le> BLOCK_SIZE" "mg_count st = length ps"
  shows "\<exists>b. mj_emit (Lft, i * blk_tuple_size (mg_l st)) (Rgt, j * blk_tuple_size (mg_r st)) st
      = Some (True, st\<lparr>mg_block := b, mg_count := Suc (length ps)\<rparr>) \<and> out_ok k b (ps @ [us ! i @ vs ! j])"
proof -
  let ?lb = "blk_tuple_size (mg_l st)" and ?rb = "blk_tuple_size (mg_r st)" and ?b = "mg_block st"
  have x: "rd_bytes (blk_mem (mg_l st)) (i * ?lb) ?lb = Some (us ! i)" "rd_bytes (blk_mem (mg_r st)) (j * ?rb) ?rb = Some (vs ! j)"
    using m ij by (auto simp: mergeable_def run_ok_def)
  then have len: "length (us ! i) = ?lb" "length (vs ! j) = ?rb" by (auto intro: rd_bytes_length)
  have free: "blk_free ?b = length ps * k" "blk_size ?b = BLOCK_SIZE" "blk_tuple_size ?b = k" "length (blk_mem ?b) = BLOCK_SIZE"
    using o(1) by (auto simp: out_ok_def holds_def blk_ok_def)
  have fit: "blk_free ?b + ?lb + ?rb \<le> BLOCK_SIZE" using o(2) free(1) k by simp
  let ?t = "us ! i @ vs ! j"
  have a: "allocateTuple ?b = Some (blk_free ?b)" using fit free k by (simp add: allocateTuple_def)
  have s: "storeTuple ?b (blk_free ?b) ?t = Some (updateFree (?b\<lparr>blk_mem := take (blk_free ?b) (blk_mem ?b) @ ?t @ drop (blk_free ?b + k) (blk_mem ?b)\<rparr>))"
    using len k free fit by (simp add: storeTuple_def rd_bytes_def wr_bytes_def updateFree_def add.assoc)
  have c: "combine st (blk_free ?b) (Lft, i * ?lb) (Rgt, j * ?rb) = Some (take (blk_free ?b) (blk_mem ?b) @ ?t @ drop (blk_free ?b + k) (blk_mem ?b))"
    using x len k free(4) fit wr_bytes_append [of "blk_free ?b" "us ! i" "vs ! j" "blk_mem ?b"]
    by (simp add: combine_def mg_mem_def) (simp add: wr_bytes_def)
  have n: "wrap32 (Suc (length ps)) = Suc (length ps)"
  proof -
    have "16 \<le> k" using m k by (auto simp: mergeable_def run_ok_def)
    then have "Suc (length ps) * 16 \<le> Suc (length ps) * k" by (intro mult_le_mono2)
    then show ?thesis using o(2) by (simp add: BLOCK_SIZE_def)
  qed
  have "length ?t = blk_tuple_size ?b" using len k free(3) by simp
  then obtain b' where b': "storeTuple ?b (blk_free ?b) ?t = Some b'" "blk_ok b'" "holds b' (ps @ [?t])"
    "blk_size b' = blk_size ?b" "blk_tuple_size b' = blk_tuple_size ?b"
    using storeTuple_spec [of ?b ps ?t "blk_free ?b"] o(1) a by (auto simp: out_ok_def)
  then show ?thesis using a c s n o(3) free by (auto simp: mj_emit_def out_ok_def)
qed

text \<open>
  The state of the loop at slots \<open>a\<close> and \<open>b\<close> with the output \<open>ps\<close>.
\<close>

definition merge_at :: "block \<Rightarrow> block \<Rightarrow> nat \<Rightarrow> nat \<Rightarrow> nat \<Rightarrow> nat \<Rightarrow> bytes list \<Rightarrow> merge_state \<Rightarrow> bool" where
  "merge_at L R n m a b ps st \<longleftrightarrow> mg_l st = L \<and> mg_r st = R \<and> mg_lit st = cur_it n a \<and> mg_rit st = cur_it m b
     \<and> out_ok (blk_tuple_size L + blk_tuple_size R) (mg_block st) ps \<and> mg_count st = length ps \<and> mg_built st = []"

lemma next_l_run:
  assumes "run_ok k (mg_l st) us" "it_current (mg_lit st) = min a (length us)"
  shows "next_l st = Some (cur_ptr k (length us) a, st\<lparr>mg_lit := cur_it (length us) a\<rparr>)"
  using getNext_run [OF assms] by (simp add: next_l_def)

lemma next_r_run:
  assumes "run_ok k (mg_r st) us" "it_current (mg_rit st) = min a (length us)"
  shows "next_r st = Some (cur_ptr k (length us) a, st\<lparr>mg_rit := cur_it (length us) a\<rparr>)"
  using getNext_run [OF assms] by (simp add: next_r_def)

lemma compare_run:
  assumes "run_ok lb (mg_l st) us" "run_ok rb (mg_r st) vs" "a \<le> length us + 1" "b \<le> length vs + 1"
  shows "mj_compare st (Lft, a * lb) (Rgt, b * rb) =
    Some (if slot_key lb (mg_l st) a = slot_key rb (mg_r st) b then 1
      else if slot_key lb (mg_l st) a < slot_key rb (mg_r st) b then 0 else - 1)"
  using rd_slot [OF assms(1,3)] rd_slot [OF assms(2,4)] by (simp add: mj_compare_def mg_mem_def)

lemma mj_equal_run:
  assumes m: "mergeable lb rb L R us vs" and st: "merge_at L R (length us) (length vs) a b ps st"
    and ab: "a < length us" "b < length vs" "tkey (us ! a) = tkey (vs ! b)"
    and room: "Suc (length ps) * (lb + rb) \<le> BLOCK_SIZE"
  shows "\<exists>st'. mj_equal (Suc fuel) (a * lb) (b * rb) st = Some (True, st')
    \<and> merge_at L R (length us) (length vs) a b (ps @ [us ! a @ vs ! b])
        (st'\<lparr>mg_lit := cur_it (length us) a, mg_rit := cur_it (length vs) b\<rparr>)
    \<and> it_current (mg_lit st') = Suc a \<and> it_current (mg_rit st') = Suc b"
proof -
  have rl: "run_ok lb L us" "run_ok rb R vs" and lb: "blk_tuple_size L = lb" "blk_tuple_size R = rb"
    using m by (auto simp: mergeable_def run_ok_def)
  have s: "mg_l st = L" "mg_r st = R" "mg_lit st = cur_it (length us) a" "mg_rit st = cur_it (length vs) b"
    "out_ok (lb + rb) (mg_block st) ps" "mg_count st = length ps" "mg_built st = []" using st lb by (auto simp: merge_at_def)
  obtain w where e: "mj_emit (Lft, a * lb) (Rgt, b * rb) st = Some (True, st\<lparr>mg_block := w, mg_count := Suc (length ps)\<rparr>)"
    "out_ok (lb + rb) w (ps @ [us ! a @ vs ! b])"
    using mj_emit_run [of st us vs a b "lb + rb" ps] m ab(1,2) s room lb by auto
  let ?it = "\<lambda>c. \<lparr>it_current = Suc c, it_fake = Some 1\<rparr>"
  let ?st = "st\<lparr>mg_block := w, mg_count := Suc (length ps), mg_lit := ?it a, mg_rit := ?it b\<rparr>"
  have f: "getNextFake L (cur_it (length us) a) = Some ((a + 2) * lb, ?it a)" "getNextFake R (cur_it (length vs) b) = Some ((b + 2) * rb, ?it b)"
    using getNextFake_run [OF rl(1) ab(1)] getNextFake_run [OF rl(2) ab(2)] by auto
  have sk: "slot_key lb L (a + 2) \<noteq> slot_key rb R b" "slot_key rb R (b + 2) \<noteq> slot_key lb L a"
    using skipped_slot [OF m ab] slot_tuple [OF rl(1) ab(1)] slot_tuple [OF rl(2) ab(2)] by auto
  have "fake_left (Suc fuel) (b * rb) ((a + 2) * lb) ?st = Some (True, ?st)"
    using compare_run [of lb ?st us rb vs "a + 2" b] rl s ab sk(1) by simp
  moreover have "fake_right (Suc fuel) (a * lb) (Rgt, (b + 2) * rb) ?st = Some (True, ?st)"
    using compare_run [of lb ?st us rb vs a "b + 2"] rl s ab sk(2) by simp
  ultimately have "mj_equal (Suc fuel) (a * lb) (b * rb) st = Some (True, ?st)"
    using e(1) f s by (simp add: mj_equal_def del: fake_left.simps fake_right.simps mult_Suc mult_Suc_right)
  then show ?thesis using e(2) s lb by (intro exI [of _ ?st]) (simp add: merge_at_def)
qed

lemma merge_loop_run:
  assumes m: "mergeable lb rb L R us vs" and "merge_at L R (length us) (length vs) a b ps st"
    and "l = cur_ptr lb (length us) a" "r = cur_ptr rb (length vs) b"
    and "(length ps + length (merge_join_ref (drop a us) (drop b vs))) * (lb + rb) \<le> BLOCK_SIZE"
    and "(length us - a) + (length vs - b) < fuel"
  shows "\<exists>st'. merge_loop fuel junk k l r st = Some st' \<and> mg_built st' = []
    \<and> out_ok (lb + rb) (mg_block st') (ps @ merge_join_ref (drop a us) (drop b vs))
    \<and> mg_count st' = length ps + length (merge_join_ref (drop a us) (drop b vs))"
  using assms(2-)
proof (induction fuel arbitrary: a b ps st l r)
  case (Suc fuel)
  have rl: "run_ok lb L us" "run_ok rb R vs" and lb: "blk_tuple_size L = lb" "blk_tuple_size R = rb"
    using m by (auto simp: mergeable_def run_ok_def)
  have s: "mg_l st = L" "mg_r st = R" "mg_lit st = cur_it (length us) a" "mg_rit st = cur_it (length vs) b"
    using Suc.prems(1) by (auto simp: merge_at_def)
  show ?case
  proof (cases "a < length us \<and> b < length vs")
    case False
    then have "merge_join_ref (drop a us) (drop b vs) = []" by (cases "drop a us") auto
    then show ?thesis using False Suc.prems lb by (auto simp: cur_ptr_def merge_at_def)
  next
    case True
    then have ab: "a < length us" "b < length vs" by auto
    then have d: "drop a us = us ! a # drop (Suc a) us" "drop b vs = vs ! b # drop (Suc b) vs" by (simp_all add: Cons_nth_drop_Suc)
    have ptr: "l = Some (a * lb)" "r = Some (b * rb)" using Suc.prems(2,3) ab by (simp_all add: cur_ptr_def)
    have c: "mj_compare st (Lft, a * lb) (Rgt, b * rb) = Some (if tkey (us ! a) = tkey (vs ! b) then 1
        else if tkey (us ! a) < tkey (vs ! b) then 0 else - 1)"
      using compare_run [of lb st us rb vs a b] rl s ab slot_tuple [OF rl(1) ab(1)] slot_tuple [OF rl(2) ab(2)] by simp
    consider (eq) "tkey (us ! a) = tkey (vs ! b)" | (less) "tkey (us ! a) < tkey (vs ! b)" | (greater) "tkey (us ! a) > tkey (vs ! b)"
      by (rule linorder_cases)
    then show ?thesis
    proof cases
      case eq
      obtain f where f: "fuel = Suc f" using Suc.prems(5) ab by (cases fuel) auto
      have "Suc (length ps) * (lb + rb) \<le> (length ps + length (merge_join_ref (drop a us) (drop b vs))) * (lb + rb)"
        by (rule mult_le_mono1) (use d eq in simp)
      then have room: "Suc (length ps) * (lb + rb) \<le> BLOCK_SIZE" using Suc.prems(4) by linarith
      obtain st1 where st1: "mj_equal fuel (a * lb) (b * rb) st = Some (True, st1)"
        "merge_at L R (length us) (length vs) a b (ps @ [us ! a @ vs ! b])
          (st1\<lparr>mg_lit := cur_it (length us) a, mg_rit := cur_it (length vs) b\<rparr>)"
        "it_current (mg_lit st1) = Suc a" "it_current (mg_rit st1) = Suc b"
        using mj_equal_run [OF m Suc.prems(1) ab eq room, of f] f by auto
      let ?st2 = "st1\<lparr>mg_lit := cur_it (length us) (Suc a)\<rparr>"
      let ?st3 = "?st2\<lparr>mg_rit := cur_it (length vs) (Suc b)\<rparr>"
      have n: "next_l st1 = Some (cur_ptr lb (length us) (Suc a), ?st2)" "next_r ?st2 = Some (cur_ptr rb (length vs) (Suc b), ?st3)"
        using st1 ab rl by (auto intro!: next_l_run next_r_run simp: merge_at_def)
      have at': "merge_at L R (length us) (length vs) (Suc a) (Suc b) (ps @ [us ! a @ vs ! b]) ?st3"
        using st1(2) by (simp add: merge_at_def)
      have sz: "(length (ps @ [us ! a @ vs ! b]) + length (merge_join_ref (drop (Suc a) us) (drop (Suc b) vs))) * (lb + rb) \<le> BLOCK_SIZE"
        using Suc.prems(4) d eq by simp
      have fl: "(length us - Suc a) + (length vs - Suc b) < fuel" using Suc.prems(5) ab by linarith
      note Suc.IH [OF at' refl refl sz fl]
      then show ?thesis using c eq ptr st1(1) n d by simp
    next
      case less
      let ?st1 = "st\<lparr>mg_lit := cur_it (length us) (Suc a)\<rparr>"
      have n: "next_l st = Some (cur_ptr lb (length us) (Suc a), ?st1)" using s rl ab by (intro next_l_run) (auto simp: cur_it_def)
      have "merge_at L R (length us) (length vs) (Suc a) b ps ?st1" using Suc.prems(1) by (simp add: merge_at_def)
      from Suc.IH [OF this refl Suc.prems(3)] show ?thesis using Suc.prems(4,5) d less ab c ptr n by auto
    next
      case greater
      let ?st1 = "st\<lparr>mg_rit := cur_it (length vs) (Suc b)\<rparr>"
      have n: "next_r st = Some (cur_ptr rb (length vs) (Suc b), ?st1)" using s rl ab by (intro next_r_run) (auto simp: cur_it_def)
      have "merge_at L R (length us) (length vs) a (Suc b) ps ?st1" using Suc.prems(1) by (simp add: merge_at_def)
      from Suc.IH [OF this Suc.prems(2) refl] show ?thesis using Suc.prems(4,5) d greater ab c ptr n by auto
    qed
  qed
qed simp

text \<open>
  C6. The merging thread of a range computes the equi-join of its two blocks: for keys that ascend without
  repetition on both sides, an output that fits one block, and key fields behind the ends of the blocks
  that are readable and equal no key of the other side, it emits exactly the combined pairs of tuples with
  equal keys, in the order of the left side, and \<open>count_\<close> is their number. Repeated keys are excluded
  because \<open>getNextFake\<close> starts two slots ahead, behind the neighbour.
\<close>

theorem merge_join_distinct:
  assumes "mergeable lb rb (ga_flex (mj_l mj) ! i) (ga_flex (mj_r mj) ! i) us vs"
    and "mj_lfb_itr mj ! i = createIterator" "mj_rfb_itr mj ! i = createIterator"
    and "length (junk 0) = BLOCK_SIZE" "length (equi_join us vs) * (lb + rb) \<le> BLOCK_SIZE" "length us + length vs < fuel"
  shows "\<exists>st. gather_merge fuel junk (lb + rb) count_o i mj = Some st \<and> holds (mg_block st) (equi_join us vs)
    \<and> mg_count st = length (equi_join us vs) \<and> mg_built st = []"
proof -
  let ?L = "ga_flex (mj_l mj) ! i" and ?R = "ga_flex (mj_r mj) ! i"
  let ?st = "\<lparr>mg_l = ?L, mg_r = ?R, mg_lit = createIterator, mg_rit = createIterator, mg_block = mk_Block [] (lb + rb),
    mg_count = 0, mg_count_o = count_o, mg_built = [], mg_made = 0\<rparr>"
  let ?st1 = "?st\<lparr>mg_lit := cur_it (length us) 0\<rparr>"
  let ?st2 = "?st1\<lparr>mg_rit := cur_it (length vs) 0\<rparr>"
  let ?st3 = "?st2\<lparr>mg_block := mk_Block (junk 0) (lb + rb), mg_made := 1\<rparr>"
  have rl: "run_ok lb ?L us" "run_ok rb ?R vs" and asc: "sorted_wrt (<) (map tkey us)" "sorted_wrt (<) (map tkey vs)"
    and lb: "blk_tuple_size ?L = lb" "blk_tuple_size ?R = rb" using assms(1) by (auto simp: mergeable_def run_ok_def)
  have n: "next_l ?st = Some (cur_ptr lb (length us) 0, ?st1)" "next_r ?st1 = Some (cur_ptr rb (length vs) 0, ?st2)"
    using rl next_l_run [of lb ?st us 0] next_r_run [of rb ?st1 vs 0] by (simp_all add: createIterator_def)
  have f: "funck junk (lb + rb) ?st = Some (cur_ptr lb (length us) 0, cur_ptr rb (length vs) 0, ?st3)"
    using n by (simp add: funck_def)
  have at0: "merge_at ?L ?R (length us) (length vs) 0 0 [] ?st3"
    using assms(4) lb by (simp add: merge_at_def out_ok_def) (simp add: BLOCK_SIZE_def)
  have ref: "merge_join_ref (drop 0 us) (drop 0 vs) = equi_join us vs" using merge_join_ref_eq [OF asc] by simp
  from merge_loop_run [OF assms(1) at0 refl refl, of fuel junk "lb + rb"] assms(5,6)
  show ?thesis using f assms(2,3) unfolding ref by (auto simp: gather_merge_def out_ok_def)
qed

section \<open>What is gathered\<close>

text \<open>The tuples of range \<open>i\<close>.\<close>

definition in_range :: "nat \<Rightarrow> bytes list \<Rightarrow> bytes list" where
  "in_range i ts = filter (\<lambda>t. mj_range (tkey t) = int i) ts"

text \<open>A flex block as the gathering leaves it: no bigger than doubling from the initial size had to make it.\<close>

definition flex_tight :: "block \<Rightarrow> bool" where
  "flex_tight b \<longleftrightarrow> length (blk_mem b) = blk_size b
     \<and> (\<exists>j. blk_size b = INIT_FLEX_BLOCK_SIZE * 2 ^ j \<and> (j = 0 \<or> INIT_FLEX_BLOCK_SIZE * 2 ^ (j - 1) < blk_free b))"

definition gathers :: "nat \<Rightarrow> bytes list \<Rightarrow> 's gathered \<Rightarrow> bool" where
  "gathers k ts g \<longleftrightarrow> length (ga_flex g) = CPU_CORE \<and> length (ga_sizes g) = CPU_CORE
     \<and> (\<forall>i < CPU_CORE. flex_ok (ga_flex g ! i) \<and> flex_tight (ga_flex g ! i) \<and> holds (ga_flex g ! i) (in_range i ts)
          \<and> blk_tuple_size (ga_flex g ! i) = k \<and> ga_sizes g ! i = length (in_range i ts))"

lemma grow_tight:
  assumes "length (blk_mem b) = blk_size b" "blk_size b = INIT_FLEX_BLOCK_SIZE * 2 ^ j"
    and "j = 0 \<or> INIT_FLEX_BLOCK_SIZE * 2 ^ (j - 1) < blk_free b + blk_tuple_size b" "grow junk b = Some (d, b')"
  shows "length (blk_mem b') = blk_size b' \<and> blk_free b' = blk_free b \<and> blk_tuple_size b' = blk_tuple_size b
    \<and> (\<exists>j. blk_size b' = INIT_FLEX_BLOCK_SIZE * 2 ^ j \<and> (j = 0 \<or> INIT_FLEX_BLOCK_SIZE * 2 ^ (j - 1) < blk_free b + blk_tuple_size b))"
  using assms
proof (induction junk b arbitrary: j rule: grow.induct)
  case (1 junk b)
  show ?case
  proof (cases "allocateTuple b")
    case (Some e)
    then show ?thesis using "1.prems" by (subst (asm) grow.simps) auto
  next
    case None
    then have small: "blk_size b < blk_free b + blk_tuple_size b" by (auto simp: allocateTuple_def split: if_splits)
    have nz: "blk_size b \<noteq> 0" using "1.prems"(2) by (simp add: INIT_FLEX_BLOCK_SIZE_def)
    obtain b1 where b1: "double_buffer junk b = Some b1" "grow junk b1 = Some (d, b')"
      using "1.prems"(4) None nz by (subst (asm) grow.simps) (auto split: option.splits)
    then have "blk_size b1 = blk_size b * 2" "length (blk_mem b1) = blk_size b1" "blk_free b1 = blk_free b" "blk_tuple_size b1 = blk_tuple_size b"
      using "1.prems"(1) by (auto simp: double_buffer_def Let_def split: if_splits)
    then show ?thesis using "1.IH" [OF None nz b1(1), of "Suc j"] "1.prems"(2) b1(2) small by simp
  qed
qed

lemma store_tight:
  assumes "flex_tight b" "storeTupleOK strict junk b t = Some b'"
  shows "flex_tight b'"
proof -
  obtain j where j: "length (blk_mem b) = blk_size b" "blk_size b = INIT_FLEX_BLOCK_SIZE * 2 ^ j"
    "j = 0 \<or> INIT_FLEX_BLOCK_SIZE * 2 ^ (j - 1) < blk_free b + blk_tuple_size b"
    using assms(1) trans_less_add1 unfolding flex_tight_def by blast
  obtain d b1 where g: "grow junk b = Some (d, b1)" "storeTuple b1 d t = Some b'"
    using assms(2) by (auto simp: storeTupleOK_def bind_iff no_return_def split: if_splits)
  have "blk_size b' = blk_size b1" "length (blk_mem b') = length (blk_mem b1)" "blk_free b' = blk_free b1 + blk_tuple_size b1"
    using g(2) by (auto simp: storeTuple_def bind_iff dest: wr_bytes_length)
  then show ?thesis using grow_tight [OF j g(1)] by (simp add: flex_tight_def)
qed


text \<open>A key whose range is one of the four blocks; no tuple is stored when the missing return is undefined.\<close>

definition good_key :: "bool \<Rightarrow> bytes \<Rightarrow> bool" where
  "good_key strict t \<longleftrightarrow> \<not> strict \<and> 0 \<le> mj_range (tkey t) \<and> nat (mj_range (tkey t)) < CPU_CORE"

lemma gather_tuple_step:
  assumes g: "gathers k ts g" and b: "p + k \<le> length (blk_mem (ga_block g))" "16 \<le> k"
    and t: "t = take k (drop p (blk_mem (ga_block g)))" and small: "Suc (length ts) * k < 2 ^ 31"
  shows "if good_key strict t then \<exists>g'. gather_tuple strict junk p g = Some g' \<and> gathers k (ts @ [t]) g' \<and> ga_child g' = ga_child g \<and> ga_block g' = ga_block g
    else gather_tuple strict junk p g = None"
proof -
  have key: "rd_u64 (blk_mem (ga_block g)) (p + 8) = Some (tkey t)"
    using b t by (simp add: rd_u64_def rd_bytes_def tkey_def drop_take min_def add.commute)
  have len: "length (ga_flex g) = CPU_CORE" "length (ga_sizes g) = CPU_CORE" using g by (auto simp: gathers_def)
  show ?thesis
  proof (cases "good_key strict t")
    case False
    then show ?thesis using key len by (cases strict) (auto simp: gather_tuple_def good_key_def Let_def bind_iff)
  next
    case True
    let ?i = "nat (mj_range (tkey t))" and ?f = "ga_flex g ! nat (mj_range (tkey t))"
    have i: "?i < CPU_CORE" "mj_range (tkey t) = int ?i" using True by (auto simp: good_key_def)
    have f: "flex_ok ?f" "flex_tight ?f" "holds ?f (in_range ?i ts)" "blk_tuple_size ?f = k" "ga_sizes g ! ?i = length (in_range ?i ts)"
      using g i(1) by (auto simp: gathers_def)
    have le: "length (in_range ?i ts) \<le> length ts" by (simp add: in_range_def)
    then have "Suc (length (in_range ?i ts)) * k \<le> Suc (length ts) * k" by (intro mult_le_mono1) simp
    moreover have "blk_free ?f = length (in_range ?i ts) * k" using f(3,4) unfolding holds_def by blast
    ultimately have bd: "blk_free ?f + blk_tuple_size ?f < 2 ^ 31" using f(4) small unfolding mult_Suc by linarith
    have "length ts * 1 \<le> length ts * k" by (rule mult_le_mono2) (use b(2) in simp)
    moreover have "(2::nat) ^ 31 + 1 < 2 ^ 32" by simp
    ultimately have "length (in_range ?i ts) + 1 < 2 ^ 32" using le small unfolding mult_Suc mult_1_right by linarith
    then have cnt: "wrap32 (ga_sizes g ! ?i + 1) = Suc (length (in_range ?i ts))" using f(5) by simp
    have lt: "length t = blk_tuple_size ?f" using t b(1) f(4) by simp
    obtain f' where f': "storeTupleOK strict (junk ?i) ?f t = Some f'" "flex_ok f'" "holds f' (in_range ?i ts @ [t])" "blk_tuple_size f' = k"
      using storeTupleOK_spec [OF f(1,3) bd lt, of "junk ?i"] f(4) True by (auto simp: good_key_def)
    let ?g = "g\<lparr>ga_flex := (ga_flex g)[?i := f'], ga_sizes := (ga_sizes g)[?i := Suc (length (in_range ?i ts))]\<rparr>"
    have rd: "rd_bytes (blk_mem (ga_block g)) p (blk_tuple_size ?f) = Some t" using b(1) t f(4) by (simp add: rd_bytes_def)
    have "gather_tuple strict junk p g = Some ?g" using key True len rd f'(1) cnt by (simp add: gather_tuple_def Let_def good_key_def)
    moreover have "gathers k (ts @ [t]) ?g"
      unfolding gathers_def
    proof (intro conjI allI impI)
      fix j assume j: "j < CPU_CORE"
      have "in_range j (ts @ [t]) = (if j = ?i then in_range ?i ts @ [t] else in_range j ts)"
        using True by (auto simp: in_range_def good_key_def)
      then show "flex_ok (ga_flex ?g ! j)" "flex_tight (ga_flex ?g ! j)" "holds (ga_flex ?g ! j) (in_range j (ts @ [t]))"
        "blk_tuple_size (ga_flex ?g ! j) = k" "ga_sizes ?g ! j = length (in_range j (ts @ [t]))"
        using g j len f' store_tight [OF f(2) f'(1)] by (cases "j = ?i"; auto simp: gathers_def)+
    qed (simp_all add: len)
    ultimately show ?thesis using True by simp
  qed
qed

lemma gather_tuples_run:
  assumes "gathers k ts g" "16 \<le> k" "\<forall>j \<in> set js. j * k + k \<le> length (blk_mem (ga_block g))"
    and "us = map (\<lambda>j. take k (drop (j * k) (blk_mem (ga_block g)))) js" "(length ts + length us) * k < 2 ^ 31"
  shows "if list_all (good_key strict) us then \<exists>g'. gather_tuples strict junk (map (\<lambda>j. j * k) js) g = Some g' \<and> gathers k (ts @ us) g'
      \<and> ga_child g' = ga_child g \<and> ga_block g' = ga_block g
    else gather_tuples strict junk (map (\<lambda>j. j * k) js) g = None"
  using assms
proof (induction js arbitrary: ts g us)
  case (Cons j js)
  let ?t = "take k (drop (j * k) (blk_mem (ga_block g)))" and ?us = "map (\<lambda>j. take k (drop (j * k) (blk_mem (ga_block g)))) js"
  have "Suc (length ts) * k \<le> (length ts + length us) * k" using Cons.prems(4) by (intro mult_le_mono1) simp
  then have small: "Suc (length ts) * k < 2 ^ 31" using Cons.prems(5) by linarith
  have st: "if good_key strict ?t then \<exists>g'. gather_tuple strict junk (j * k) g = Some g' \<and> gathers k (ts @ [?t]) g' \<and> ga_child g' = ga_child g \<and> ga_block g' = ga_block g
    else gather_tuple strict junk (j * k) g = None"
    by (rule gather_tuple_step [OF Cons.prems(1) _ Cons.prems(2) refl small]) (use Cons.prems(3) in simp)
  show ?case
  proof (cases "good_key strict ?t")
    case True
    then obtain g1 where g1: "gather_tuple strict junk (j * k) g = Some g1" "gathers k (ts @ [?t]) g1" "ga_child g1 = ga_child g" "ga_block g1 = ga_block g"
      using st by auto
    show ?thesis using Cons.IH [OF g1(2) Cons.prems(2), of ?us] Cons.prems(3-5) g1 True by (simp split: if_splits)
  qed (use st Cons.prems(4) in simp)
qed simp

context query_plan
begin

lemma gather_loop_run:
  assumes "valid (ga_child g)" "std_block k (ga_block g)" "length (rest (ga_child g)) < fuel" "16 \<le> k"
    and "\<forall>i \<in> set (rest (ga_child g)). image_count i * k \<le> BLOCK_SIZE" "gathers k ts g"
    and "(length ts + length (concat (map (image_tuples k) (rest (ga_child g))))) * k < 2 ^ 31"
  shows "if list_all (good_key strict) (concat (map (image_tuples k) (rest (ga_child g))))
    then \<exists>g'. gather_loop strict exec junk fuel g = Some g' \<and> gathers k (ts @ concat (map (image_tuples k) (rest (ga_child g)))) g' \<and> rest (ga_child g') = []
    else gather_loop strict exec junk fuel g = None"
  using assms
proof (induction fuel arbitrary: g ts)
  case (Suc fuel)
  show ?case
  proof (cases "rest (ga_child g)")
    case Nil
    then show ?thesis using exec_end [OF Suc.prems(1) Nil Suc.prems(2)] Suc.prems(6) by (auto simp: gathers_def)
  next
    case (Cons i js)
    obtain s' b' where e: "exec (ga_child g) (ga_block g) = Some (True, s', b')" "valid s'" "rest s' = js" "std_block k b'" "blk_mem b' = i"
      using exec_more [OF Suc.prems(1) Cons Suc.prems(2)] by blast
    let ?g = "g\<lparr>ga_child := s', ga_block := b'\<rparr>"
    have sz: "get_size b' = Some (image_count i)" using std_block_get_size [OF e(4)] e(5) by simp
    have fit: "image_count i * k \<le> BLOCK_SIZE" using Suc.prems(5) Cons by simp
    have "image_count i * 1 \<le> image_count i * k" by (rule mult_le_mono2) (use Suc.prems(4) in simp)
    then have "image_count i \<le> BLOCK_SIZE" using fit unfolding mult_1_right by (rule le_trans)
    then have n: "image_count i < 2 ^ 32" by (simp add: BLOCK_SIZE_def)
    have off: "j * k + k \<le> BLOCK_SIZE" if "j < image_count i" for j
      using mult_le_mono1 [of "Suc j" "image_count i" k] that fit by simp
    have "map (\<lambda>j. wrap32 (j * k)) [0..<image_count i] = map (\<lambda>j. j * k) [0..<image_count i]"
      using off by (force simp: BLOCK_SIZE_def)
    then obtain it where d: "drain (Suc (image_count i)) b' createIterator = Some (map (\<lambda>j. j * k) [0..<image_count i], it)"
      using drain_spec [OF sz n, of createIterator "Suc (image_count i)"] e(4) by (simp add: createIterator_def std_block_def)
    have gg: "gathers k ts ?g" using Suc.prems(6) by (simp add: gathers_def)
    have "(length ts + length (image_tuples k i)) * k \<le> (length ts + length (concat (map (image_tuples k) (rest (ga_child g))))) * k"
      using Cons by (intro mult_le_mono1) simp
    then have small: "(length ts + length (image_tuples k i)) * k < 2 ^ 31" using Suc.prems(7) by linarith
    have side: "\<forall>j \<in> set [0..<image_count i]. j * k + k \<le> length (blk_mem (ga_block ?g))" using off e(4) by (simp add: std_block_def)
    have im: "image_tuples k i = map (\<lambda>j. take k (drop (j * k) (blk_mem (ga_block ?g)))) [0..<image_count i]"
      using e(5) by (simp add: image_tuples_def)
    note tp = gather_tuples_run [OF gg Suc.prems(4) side im small, of strict junk]
    show ?thesis
    proof (cases "list_all (good_key strict) (image_tuples k i)")
      case False
      then show ?thesis using tp e(1) sz d Cons by (simp del: drain.simps)
    next
      case True
      then obtain g1 where g1: "gather_tuples strict junk (map (\<lambda>j. j * k) [0..<image_count i]) ?g = Some g1" "gathers k (ts @ image_tuples k i) g1"
        "ga_child g1 = s'" "ga_block g1 = b'" using tp by auto
      then show ?thesis
        using Suc.IH [of g1 "ts @ image_tuples k i"] Suc.prems(3-5,7) e sz d Cons True
        by (simp add: add.assoc del: drain.simps split: if_splits)
    qed
  qed
qed simp

end

lemma gathers_new:
  assumes "k = get_bytes (Schema_of_NewSchema ns)"
  shows "gathers k [] (side_new s ns junkb junk)"
proof -
  have "flex_tight (mk_Block (map (junk i) [0..<INIT_FLEX_BLOCK_SIZE]) k)" "flex_ok (mk_Block (map (junk i) [0..<INIT_FLEX_BLOCK_SIZE]) k)" for i
    by (auto simp: flex_tight_def flex_ok_def intro!: exI [of _ 0]) (simp add: INIT_FLEX_BLOCK_SIZE_def)
  then show ?thesis using assms by (simp add: gathers_def side_new_def Let_def in_range_def)
qed

lemma gather_scan:
  assumes "scan_valid s" "\<forall>i \<in> set (scan_rest s). image_count i * k \<le> BLOCK_SIZE" "pre child = Some s"
    and "k = get_bytes (Schema_of_NewSchema ns)" "16 \<le> k" "length junkb = BLOCK_SIZE" "length (scan_rest s) < fuel"
    and "ts = concat (map (image_tuples k) (scan_rest s))" "length ts * k < 2 ^ 31"
  shows "if list_all (good_key strict) ts then \<exists>g. gather_side strict pre Scan_execute junk fuel (side_new child ns junkb junk) = Some g \<and> gathers k ts g
    else gather_side strict pre Scan_execute junk fuel (side_new child ns junkb junk) = None"
proof -
  let ?g = "(side_new child ns junkb junk)\<lparr>ga_child := s\<rparr>"
  have g: "gathers k [] ?g" "ga_child ?g = s" "std_block k (ga_block ?g)"
    using gathers_new [OF assms(4), of child junkb junk] assms(4,6) by (simp_all add: gathers_def side_new_def Let_def)
  have "gather_side strict pre Scan_execute junk fuel (side_new child ns junkb junk) = gather_loop strict Scan_execute junk fuel ?g"
    using assms(3) by (simp add: gather_side_def side_new_def Let_def)
  then show ?thesis using sc.gather_loop_run [of ?g k fuel "[]" strict junk] assms(1,2,5,7-9) g by auto
qed

lemma mj_range_small: "i < 4 \<Longrightarrow> mj_range v = int i \<longleftrightarrow> wrap32 (v div 4) = i"
proof -
  assume i: "i < 4"
  have "wrap32 (v div 4) < 2 ^ 32" by simp
  then show ?thesis using i by (auto simp: mj_range_def int_of_u32_def CPU_CORE_def)
qed

lemma good_key_small: "good_key strict t \<longleftrightarrow> \<not> strict \<and> wrap32 (tkey t div 4) < 4"
proof
  assume "good_key strict t"
  then have "mj_range (tkey t) = int (nat (mj_range (tkey t)))" "nat (mj_range (tkey t)) < 4" "\<not> strict" by (auto simp: good_key_def CPU_CORE_def)
  then show "\<not> strict \<and> wrap32 (tkey t div 4) < 4" using mj_range_small by metis
next
  assume s: "\<not> strict \<and> wrap32 (tkey t div 4) < 4"
  then have "mj_range (tkey t) = int (wrap32 (tkey t div 4))" using mj_range_small by blast
  then show "good_key strict t" using s by (simp add: good_key_def CPU_CORE_def)
qed

lemma in_range_small: "i < 4 \<Longrightarrow> in_range i ts = filter (\<lambda>t. wrap32 (tkey t div 4) = i) ts"
  by (simp add: in_range_def mj_range_small)

text \<open>
  C26. What the gathering thread of a side does over a scan. With the missing return of \<open>storeTupleOK\<close>
  read as a plain return, and when the key of every tuple divided by 4 is below 4 after the conversion to
  32 bits, block \<open>i\<close> ends up with exactly the tuples of range \<open>i\<close> in order and the table size counts them.
  One tuple with another key makes the gathering undefined, since its range indexes past the four blocks.
  By the letter of the C++ standard (\<open>strict\<close>) every tuple makes it undefined.
\<close>

theorem merge_join_gathers:
  assumes "scan_valid s" "\<forall>i \<in> set (scan_rest s). image_count i * k \<le> BLOCK_SIZE" "pre s0 = Some s"
    and "k = get_bytes (Schema_of_NewSchema ns)" "16 \<le> k" "length junkb = BLOCK_SIZE" "length (scan_rest s) < fuel"
    and "ts = concat (map (image_tuples k) (scan_rest s))" "length ts * k < 2 ^ 31"
  shows "if list_all (\<lambda>t. \<not> strict \<and> wrap32 (tkey t div 4) < 4) ts
    then \<exists>g. gather_side strict pre Scan_execute junk fuel (side_new s0 ns junkb junk) = Some g
      \<and> (\<forall>i < 4. holds (ga_flex g ! i) (filter (\<lambda>t. wrap32 (tkey t div 4) = i) ts)
           \<and> ga_sizes g ! i = length (filter (\<lambda>t. wrap32 (tkey t div 4) = i) ts))
    else gather_side strict pre Scan_execute junk fuel (side_new s0 ns junkb junk) = None"
proof -
  have g: "good_key strict = (\<lambda>t. \<not> strict \<and> wrap32 (tkey t div 4) < 4)" by (rule ext) (rule good_key_small)
  have r: "holds (ga_flex gg ! i) (filter (\<lambda>t. wrap32 (tkey t div 4) = i) ts) \<and> ga_sizes gg ! i = length (filter (\<lambda>t. wrap32 (tkey t div 4) = i) ts)"
    if "gathers k ts gg" "i < 4" for gg :: "(scan \<times> memory_store) gathered" and i
    unfolding in_range_small [OF that(2), symmetric] using that by (simp add: gathers_def CPU_CORE_def)
  show ?thesis
    using gather_scan [where pre = pre and child = s0 and junk = junk and strict = strict, OF assms] r unfolding g by (auto split: if_splits)
qed

lemma those_None: "None \<in> set xs \<Longrightarrow> those xs = None"
  by (induction xs) (auto split: option.splits)

lemma tight_full:
  assumes "flex_tight b" "blk_free b = INIT_FLEX_BLOCK_SIZE * 2 ^ m" "blk_free b \<le> blk_size b"
  shows "length (blk_mem b) = blk_free b"
proof -
  obtain j where j: "length (blk_mem b) = INIT_FLEX_BLOCK_SIZE * 2 ^ j" "blk_size b = INIT_FLEX_BLOCK_SIZE * 2 ^ j"
    "j = 0 \<or> INIT_FLEX_BLOCK_SIZE * 2 ^ (j - 1) < INIT_FLEX_BLOCK_SIZE * (2 ^ m :: nat)"
    using assms(1,2) by (auto simp: flex_tight_def)
  have "j = 0 \<or> (2::nat) ^ (j - 1) < 2 ^ m" using j(3) by auto
  then have "j \<le> m" by auto
  moreover have "(2::nat) ^ m \<le> 2 ^ j" using assms(2,3) j(2) by (simp add: INIT_FLEX_BLOCK_SIZE_def)
  then have "m \<le> j" by simp
  ultimately show ?thesis using j(1) assms(2) by simp
qed

text \<open>
  C14. Tuples that exactly fill a block are fatal: when the tuples of a range take \<open>64 * 2 ^ m\<close> bytes, for
  instance four tuples of 16 bytes, the block was never grown past them, and \<open>assembling\<close>, which puts the
  tuple count behind the last tuple, writes four bytes past the allocation. (With the missing return of
  \<open>storeTupleOK\<close> read as a plain return; otherwise the gathering itself is undefined.)
\<close>

theorem merge_join_overrun:
  assumes "scan_valid s" "\<forall>i \<in> set (scan_rest s). image_count i * k \<le> BLOCK_SIZE" "prel s0 = Some s"
    and "k = get_bytes (Schema_of_NewSchema ns)" "16 \<le> k" "length junkb = BLOCK_SIZE" "length (scan_rest s) < fuel"
    and "ts = concat (map (image_tuples k) (scan_rest s))" "length ts * k < 2 ^ 31"
    and "list_all (\<lambda>t. wrap32 (tkey t div 4) < 4) ts"
    and "i < 4" "length (filter (\<lambda>t. wrap32 (tkey t div 4) = i) ts) * k = INIT_FLEX_BLOCK_SIZE * 2 ^ m"
  shows "\<exists>g. gather_side False prel Scan_execute junk fuel (side_new s0 ns junkb junk) = Some g \<and> assemble_side k g = None
    \<and> MergeJoin_prelude False prel Scan_execute prer execr junk junkb fuel ns nsr s0 r = None"
proof -
  have "list_all (good_key False) ts" using assms(10) by (simp add: good_key_small list_all_iff)
  then obtain g where g: "gather_side False prel Scan_execute junk fuel (side_new s0 ns junkb junk) = Some g" "gathers k ts g"
    using gather_scan [where pre = prel and child = s0 and strict = False, OF assms(1-9)] by auto
  let ?b = "ga_flex g ! i"
  have b: "flex_tight ?b" "flex_ok ?b" "holds ?b (in_range i ts)" "blk_tuple_size ?b = k" "ga_sizes g ! i = length (in_range i ts)"
    using g(2) assms(11) by (auto simp: gathers_def CPU_CORE_def)
  have full: "length (in_range i ts) * k = INIT_FLEX_BLOCK_SIZE * 2 ^ m" using assms(11,12) in_range_small by simp
  have free: "blk_free ?b = length (in_range i ts) * k" using b(3,4) unfolding holds_def by blast
  then have "length (blk_mem ?b) = length (in_range i ts) * k"
    using tight_full [OF b(1), of m] full b(2) by (simp add: flex_ok_def)
  moreover have "length (in_range i ts) * k \<le> length ts * k" by (rule mult_le_mono1) (simp add: in_range_def)
  then have "length (in_range i ts) * k + 4 < 2 ^ 31 + 4" using assms(9) by linarith
  then have "wrap32 (length (in_range i ts) * k + 4) = length (in_range i ts) * k + 4" by (intro mod_less) simp
  ultimately have "assemble_flex k ?b (ga_sizes g ! i) = None"
    using b(5) by (simp add: assemble_flex_def assembling_def wr_u32_def wr_bytes_def Let_def)
  then have "None \<in> set (map (\<lambda>i. assemble_flex k (ga_flex g ! i) (ga_sizes g ! i)) [0..<CPU_CORE])"
    using assms(11) by (force simp: CPU_CORE_def)
  then have "assemble_side k g = None" by (simp add: assemble_side_def those_None del: set_map)
  then show ?thesis using g(1) assms(4) by (auto simp: MergeJoin_prelude_def bind_iff)
qed

section \<open>Witnesses\<close>

text \<open>Two tuples with the keys 1 and 3 meet one with the key 3; the bytes behind the counts are all ones.\<close>

definition key_tuple :: "nat \<Rightarrow> bytes" where
  "key_tuple v = replicate 8 7 @ le_bytes 8 v"

definition run_block :: "nat list \<Rightarrow> block" where
  "run_block ks = \<lparr>blk_mem = concat (map key_tuple ks) @ le_bytes 4 (length ks) @ replicate (60 - 16 * length ks) 255,
     blk_free = 16 * length ks, blk_size = 16 * length ks + 4, blk_tuple_size = 16\<rparr>"

definition small_join :: "(unit, unit) merge_join" where
  "small_join = \<lparr>mj_l = \<lparr>ga_child = (), ga_block = mk_Block [] 16, ga_flex = [run_block [1, 3]], ga_sizes = [2]\<rparr>,
     mj_r = \<lparr>ga_child = (), ga_block = mk_Block [] 16, ga_flex = [run_block [3]], ga_sizes = [1]\<rparr>,
     mj_lfb_itr = [createIterator], mj_rfb_itr = [createIterator]\<rparr>"

lemma small_join_mergeable:
  "mergeable 16 16 (run_block [1, 3]) (run_block [3]) [key_tuple 1, key_tuple 3] [key_tuple 3]"
proof -
  have "run_ok 16 (run_block [1, 3]) [key_tuple 1, key_tuple 3]"
    by (simp add: run_ok_def run_block_def key_tuple_def get_size_def rd_u32_def rd_bytes_def less_Suc_eq all_conj_distrib imp_disjL)
  moreover have "run_ok 16 (run_block [3]) [key_tuple 3]"
    by (simp add: run_ok_def run_block_def key_tuple_def get_size_def rd_u32_def rd_bytes_def)
  moreover have "(8::nat) = Suc (Suc (Suc (Suc (Suc (Suc (Suc (Suc 0)))))))" by simp
  then have "le_val (replicate 8 255) = 18446744073709551615" by (simp only: replicate_Suc replicate_0) simp
  ultimately show ?thesis by (simp add: mergeable_def tkey_def key_tuple_def slot_key_def run_block_def)
qed

theorem merge_join_distinct_witness:
  "\<exists>st. gather_merge 4 (\<lambda>_. blank) 32 0 0 small_join = Some st \<and> holds (mg_block st) [key_tuple 3 @ key_tuple 3]
    \<and> mg_count st = 1"
proof -
  have e: "equi_join [key_tuple 1, key_tuple 3] [key_tuple 3] = [key_tuple 3 @ key_tuple 3]"
    by (simp add: equi_join_def tkey_def key_tuple_def)
  show ?thesis
    using merge_join_distinct [of 16 16 small_join 0 "[key_tuple 1, key_tuple 3]" "[key_tuple 3]" "\<lambda>_. blank" 4 0] small_join_mergeable
    unfolding e by (auto simp: small_join_def BLOCK_SIZE_def)
qed

text \<open>A scan whose only block holds four tuples of zeros.\<close>

definition null_image :: bytes where
  "null_image = replicate (BLOCK_SIZE - 4) 0 @ le_bytes 4 4"

definition scan4 :: "scan \<times> memory_store" where
  "scan4 = (mk_Scan (mk_NewSchema []) ''t'', MemoryStore\<lparr>ms_blocks := [[] \<mapsto> [mk_Block null_image 0]]\<rparr>)"

definition two_longs :: NewSchema where
  "two_longs = mk_NewSchema [UnLongType t_long, UnLongType t_long]"

lemma null_image_facts: "length null_image = BLOCK_SIZE" "image_count null_image = 4"
  "image_tuples 16 null_image = replicate 4 (replicate 16 0)"
proof -
  show "length null_image = BLOCK_SIZE" and c: "image_count null_image = 4"
    by (simp_all add: null_image_def image_count_def BLOCK_SIZE_def)
  have "take 16 (drop (j * 16) null_image) = replicate 16 0" if "j < 4" for j
    using that by (simp add: null_image_def BLOCK_SIZE_def)
  then have "image_tuples 16 null_image = map (\<lambda>_. replicate 16 0) [0..<4]"
    unfolding image_tuples_def c by (intro map_cong) auto
  then show "image_tuples 16 null_image = replicate 4 (replicate 16 0)" by (simp add: map_replicate_const)
qed

lemma scan4_facts: "scan_valid scan4" "scan_rest scan4 = [null_image]"
  by (simp_all add: scan4_def scan_valid_def scan_rest_def mk_Scan_def stored_def null_image_facts)

lemma two_longs_bytes: "get_bytes (Schema_of_NewSchema two_longs) = 16"
  unfolding two_longs_def Schema_of_mk_NewSchema by (simp add: get_bytes_def storable_def get_type_def)

lemma null_key: "tkey (replicate 16 0) = 0"
  by (simp add: tkey_def)

lemma scan4_hyps:
  "\<forall>i \<in> set (scan_rest scan4). image_count i * 16 \<le> BLOCK_SIZE" "length (scan_rest scan4) < 2"
  "replicate 4 (replicate 16 0) = concat (map (image_tuples 16) (scan_rest scan4))"
  "length (replicate 4 (replicate 16 (0::nat))) * 16 < 2 ^ 31"
  "list_all (\<lambda>t. wrap32 (tkey t div 4) < 4) (replicate 4 (replicate 16 0))"
  "filter (\<lambda>t. wrap32 (tkey t div 4) = 0) (replicate 4 (replicate 16 0)) = replicate 4 (replicate 16 0)"
  "filter (\<lambda>t. wrap32 (tkey t div 4) = 1) (replicate 4 (replicate 16 0)) = []"
  by (simp_all add: scan4_facts null_image_facts null_key list_all_iff) (simp add: BLOCK_SIZE_def)

theorem merge_join_gathers_witness:
  "\<exists>g. gather_side False Some Scan_execute (\<lambda>_ _. 0) 2 (side_new scan4 two_longs blank (\<lambda>_ _. 0)) = Some g
    \<and> holds (ga_flex g ! 0) (replicate 4 (replicate 16 0)) \<and> ga_sizes g ! 0 = 4 \<and> ga_sizes g ! 1 = 0"
proof -
  obtain g where g: "gather_side False Some Scan_execute (\<lambda>_ _. 0) 2 (side_new scan4 two_longs blank (\<lambda>_ _. 0)) = Some g"
    "\<forall>i < 4. holds (ga_flex g ! i) (filter (\<lambda>t. wrap32 (tkey t div 4) = i) (replicate 4 (replicate 16 0)))
      \<and> ga_sizes g ! i = length (filter (\<lambda>t. wrap32 (tkey t div 4) = i) (replicate 4 (replicate 16 0)))"
    using merge_join_gathers [where pre = Some and strict = False and junk = "\<lambda>_ _. 0", OF scan4_facts(1) scan4_hyps(1) refl two_longs_bytes [symmetric] _ blank_length scan4_hyps(2-4)]
      scan4_hyps(5) by auto
  have "(0::nat) < 4" "(1::nat) < 4" by simp_all
  then show ?thesis using g scan4_hyps(6,7) by (metis length_replicate list.size(3))
qed

theorem merge_join_overrun_witness:
  "\<exists>g. gather_side False Some Scan_execute (\<lambda>_ _. 0) 2 (side_new scan4 two_longs blank (\<lambda>_ _. 0)) = Some g \<and> assemble_side 16 g = None
    \<and> MergeJoin_prelude False Some Scan_execute Some Scan_execute (\<lambda>_ _. 0) blank 2 two_longs two_longs scan4 scan4 = None"
proof (rule merge_join_overrun [where prel = Some, OF scan4_facts(1) scan4_hyps(1) refl two_longs_bytes [symmetric] _ blank_length scan4_hyps(2-5)])
  show "length (filter (\<lambda>t. wrap32 (tkey t div 4) = 0) (replicate 4 (replicate 16 0))) * 16 = INIT_FLEX_BLOCK_SIZE * 2 ^ 0"
    unfolding scan4_hyps(6) by (simp add: INIT_FLEX_BLOCK_SIZE_def)
qed simp_all

end
