(* ===== verification/Mosito_Plan.thy ===== *)
theory Mosito_Plan
  imports Mosito_Join Mosito_Shuffle
begin

text \<open>
  The query plans of \<^verbatim>\<open>deploy/m_coordinator.cpp\<close>. A plan is the tree of the serialisable operator objects
  (\<open>ScanSerObj\<close>, \<open>SortSerObj\<close>, \<open>ShuffleUpperSerObj\<close>, \<open>ShuffleUpper1SerObj\<close>, \<open>MergeJoinSerObj\<close>) the coordinator builds.
  Nothing in the program checks that the schemas written into them fit together: \<open>plan_ok\<close> states what must
  hold, and the theorems show what it is good for and that the three plans have it. \<open>casts_ok\<close> states what the
  cast in \<open>Sort::prelude\<close> takes for granted.
\<close>

section \<open>Plans\<close>

datatype plan =
    ScanPlan NewSchema string
  | SortPlan NewSchema plan
  | ShuffleUpperPlan NewSchema "string list" "string list" plan int
  | ShuffleUpper1Plan NewSchema "string list" "string list" plan int
  | MergeJoinPlan NewSchema NewSchema NewSchema plan plan
  | DebugPlan plan

text \<open>\<open>newoutput\<close> of each operator; that of \<open>Debug\<close> has no return statement.\<close>

fun plan_newoutput :: "plan \<Rightarrow> NewSchema option" where
  "plan_newoutput (ScanPlan vd path) = Some vd"
| "plan_newoutput (SortPlan ns c) = Some ns"
| "plan_newoutput (ShuffleUpperPlan ns us ls c ex) = Some ns"
| "plan_newoutput (ShuffleUpper1Plan ns us ls c ex) = Some ns"
| "plan_newoutput (MergeJoinPlan l r out cl cr) = Some out"
| "plan_newoutput (DebugPlan c) = None"

fun exchange_ids :: "plan \<Rightarrow> int list" where
  "exchange_ids (ScanPlan vd path) = []"
| "exchange_ids (SortPlan ns c) = exchange_ids c"
| "exchange_ids (ShuffleUpperPlan ns us ls c ex) = ex # exchange_ids c"
| "exchange_ids (ShuffleUpper1Plan ns us ls c ex) = ex # exchange_ids c"
| "exchange_ids (MergeJoinPlan l r out cl cr) = exchange_ids cl @ exchange_ids cr"
| "exchange_ids (DebugPlan c) = exchange_ids c"

text \<open>
  The ports an exchange opens: that of its data (\<open>PORT_BASE+exchange_id_\<close>) and the two of the start-up
  handshake between the receiving nodes (\<open>gather_all\<close> and \<open>send_gather\<close>).
\<close>

definition exchange_ports :: "int \<Rightarrow> int list" where
  "exchange_ports exchange_id = [int PORT_BASE + exchange_id, 10000 + exchange_id, 10001 + exchange_id]"

section \<open>The queries of the coordinator\<close>

definition two_long :: "DataType list" where
  "two_long = [UnLongType t_long, UnLongType t_long]"

definition four_long :: "DataType list" where
  "four_long = [UnLongType t_long, UnLongType t_long, UnLongType t_long, UnLongType t_long]"

definition workers :: "string list" where
  "workers = [''10.11.1.191'', ''10.11.1.192'', ''10.11.1.193'', ''10.11.1.194'']"

definition table_scan :: plan where
  "table_scan = ScanPlan (mk_NewSchema two_long) ''table.left''"

definition do_join_query :: plan where
  "do_join_query =
     (let ve = mk_NewSchema two_long; ve1 = mk_NewSchema four_long;
          su = ShuffleUpper1Plan ve workers workers table_scan 500;
          su1 = ShuffleUpper1Plan ve workers workers table_scan 50;
          join = MergeJoinPlan ve ve ve1 (SortPlan ve su) (SortPlan ve su1)
      in DebugPlan (ShuffleUpper1Plan ve1 [''10.11.1.190''] workers join 10))"

definition do_final_query :: plan where
  "do_final_query =
     (let ve = mk_NewSchema two_long; ve1 = mk_NewSchema four_long;
          su = ShuffleUpperPlan ve workers workers (SortPlan ve table_scan) 500;
          su1 = ShuffleUpperPlan ve workers workers (SortPlan ve table_scan) 50;
          join = MergeJoinPlan ve ve ve1 su su1
      in DebugPlan (ShuffleUpper1Plan ve1 [''10.11.1.190''] workers join 10))"

definition do_final_query1 :: plan where
  "do_final_query1 =
     (let ve = mk_NewSchema two_long; ve1 = mk_NewSchema four_long;
          su = ShuffleUpperPlan ve workers workers table_scan 500;
          su1 = ShuffleUpper1Plan ve workers workers table_scan 50;
          join = MergeJoinPlan ve ve ve1 su (SortPlan ve su1)
      in DebugPlan (ShuffleUpper1Plan ve1 [''10.11.1.190''] workers join 10))"

section \<open>Well-typed plans\<close>

text \<open>The tuples have an \<open>unsigned long\<close> at byte 8, the key of every operator.\<close>

definition keyed_schema :: "NewSchema \<Rightarrow> bool" where
  "keyed_schema ns \<longleftrightarrow> list_ex (\<lambda>i. ns_accum ns ! i = 8 \<and> get_type (ns_vd ns ! i) = t_long) [0..<length (ns_vd ns)]"

definition seqs_ok :: "string list \<Rightarrow> bool" where
  "seqs_ok seqs \<longleftrightarrow> length seqs = 1 \<or> length seqs = 2 \<or> length seqs = CPU_CORE"

fun plan_ok :: "plan \<Rightarrow> bool" where
  "plan_ok (ScanPlan vd path) \<longleftrightarrow> vd = mk_NewSchema (ns_vd vd) \<and> 0 < ns_totalsize vd"
| "plan_ok (SortPlan ns c) \<longleftrightarrow> plan_ok c \<and> plan_newoutput c = Some ns \<and> keyed_schema ns"
| "plan_ok (ShuffleUpperPlan ns us ls c ex) \<longleftrightarrow> plan_ok c \<and> plan_newoutput c = Some ns \<and> keyed_schema ns \<and> seqs_ok us \<and> 2 \<le> length ls"
| "plan_ok (ShuffleUpper1Plan ns us ls c ex) \<longleftrightarrow> plan_ok c \<and> plan_newoutput c = Some ns \<and> keyed_schema ns \<and> seqs_ok us \<and> 1 \<le> length ls"
| "plan_ok (MergeJoinPlan l r out cl cr) \<longleftrightarrow> plan_ok cl \<and> plan_ok cr \<and> plan_newoutput cl = Some l \<and> plan_newoutput cr = Some r
     \<and> keyed_schema l \<and> keyed_schema r \<and> out = mk_NewSchema (ns_vd l @ ns_vd r)"
| "plan_ok (DebugPlan c) \<longleftrightarrow> plan_ok c \<and> plan_newoutput c \<noteq> None"

text \<open>
  \<open>Sort::prelude\<close> casts its child to \<open>ShuffleUpper1\<close> to read the list of lower nodes from it; on an object of
  another class the cast is undefined.
\<close>

definition is_ShuffleUpper1 :: "plan \<Rightarrow> bool" where
  "is_ShuffleUpper1 p = (case p of ShuffleUpper1Plan ns us ls c ex \<Rightarrow> True | _ \<Rightarrow> False)"

fun casts_ok :: "plan \<Rightarrow> bool" where
  "casts_ok (ScanPlan vd path) \<longleftrightarrow> True"
| "casts_ok (SortPlan ns c) \<longleftrightarrow> is_ShuffleUpper1 c \<and> casts_ok c"
| "casts_ok (ShuffleUpperPlan ns us ls c ex) \<longleftrightarrow> casts_ok c"
| "casts_ok (ShuffleUpper1Plan ns us ls c ex) \<longleftrightarrow> casts_ok c"
| "casts_ok (MergeJoinPlan l r out cl cr) \<longleftrightarrow> casts_ok cl \<and> casts_ok cr"
| "casts_ok (DebugPlan c) \<longleftrightarrow> casts_ok c"

fun subplans :: "plan \<Rightarrow> plan list" where
  "subplans (ScanPlan vd path) = [ScanPlan vd path]"
| "subplans (SortPlan ns c) = SortPlan ns c # subplans c"
| "subplans (ShuffleUpperPlan ns us ls c ex) = ShuffleUpperPlan ns us ls c ex # subplans c"
| "subplans (ShuffleUpper1Plan ns us ls c ex) = ShuffleUpper1Plan ns us ls c ex # subplans c"
| "subplans (MergeJoinPlan l r out cl cr) = MergeJoinPlan l r out cl cr # subplans cl @ subplans cr"
| "subplans (DebugPlan c) = DebugPlan c # subplans c"

lemma subplan_ok: "plan_ok p \<Longrightarrow> q \<in> set (subplans p) \<Longrightarrow> plan_ok q"
  by (induction p) auto

lemma mk_NewSchema_idem: "mk_NewSchema (ns_vd (mk_NewSchema ds)) = mk_NewSchema ds"
proof -
  have st: "storable (ns_vd (mk_NewSchema ds)) = ns_vd (mk_NewSchema ds)"
    by (auto simp: storable_def mk_NewSchema_def NewSchema_loop_eq get_type_def filter_id_conv)
  have "ns_vd (mk_NewSchema (ns_vd (mk_NewSchema ds))) = ns_vd (mk_NewSchema ds)"
    unfolding mk_NewSchema_def [of "ns_vd (mk_NewSchema ds)"] NewSchema_loop_eq st
    by (auto simp: mk_NewSchema_def NewSchema_loop_eq get_type_def)
  moreover have "widths (storable (ns_vd (mk_NewSchema ds))) = widths (storable ds)" unfolding st by (rule widths_NewSchema)
  ultimately show ?thesis
    using mk_NewSchema_accum [of ds] mk_NewSchema_accum [of "ns_vd (mk_NewSchema ds)"]
      mk_NewSchema_totalsize [of ds] mk_NewSchema_totalsize [of "ns_vd (mk_NewSchema ds)"]
    by (intro NewSchema.equality) simp_all
qed

lemma plan_schema_wf: "plan_ok p \<Longrightarrow> plan_newoutput p = Some ns \<Longrightarrow> ns = mk_NewSchema (ns_vd ns)"
  by (induction p arbitrary: ns) (auto simp: mk_NewSchema_idem)

section \<open>The layout of a joined tuple\<close>

text \<open>Column \<open>i\<close> of a tuple, read through the schema as the comparator and the printer do.\<close>

definition column_value :: "Schema \<Rightarrow> bytes \<Rightarrow> nat \<Rightarrow> int option" where
  "column_value s t i = do { a \<leftarrow> get_addr s i; d \<leftarrow> getDataType s i; dt_load d (drop a t) }"

lemma schema_columns: "d \<in> set (ns_vd (mk_NewSchema ds)) \<Longrightarrow> d = IntegerType t_int \<or> d = UnLongType t_long"
  by (auto simp: mk_NewSchema_def NewSchema_loop_eq)

lemma dt_load_append:
  assumes "d = IntegerType t_int \<or> d = UnLongType t_long" "width (get_type d) \<le> length p"
  shows "dt_load d (p @ q) = dt_load d p"
  using assms by (auto simp: rd_u32_def rd_u64_def rd_bytes_def get_type_def)

lemma prefix_sums_append: "prefix_sums n (ws @ vs) = prefix_sums n ws @ prefix_sums (n + sum_list ws) vs"
  by (induction ws arbitrary: n) (auto simp: add.assoc)

lemma wf_schema:
  assumes "ns = mk_NewSchema (ns_vd ns)"
  shows "sch_v_d (Schema_of_NewSchema ns) = ns_vd ns" "sch_offset (Schema_of_NewSchema ns) = map Some (prefix_sums 0 (widths (ns_vd ns)))"
    "get_bytes (Schema_of_NewSchema ns) = sum_list (widths (ns_vd ns))"
    "d \<in> set (ns_vd ns) \<Longrightarrow> d = IntegerType t_int \<or> d = UnLongType t_long"
proof -
  have w: "widths (storable (ns_vd ns)) = widths (ns_vd ns)" using widths_NewSchema [of "ns_vd ns"] assms by simp
  have e: "Schema_of_NewSchema ns = \<lparr>sch_v_d = ns_vd ns, sch_offset = map Some (prefix_sums 0 (widths (ns_vd ns))), sch_bytes = sum_list (widths (ns_vd ns))\<rparr>"
    using Schema_of_mk_NewSchema [of "ns_vd ns"] unfolding w assms [symmetric] .
  show "sch_v_d (Schema_of_NewSchema ns) = ns_vd ns" "sch_offset (Schema_of_NewSchema ns) = map Some (prefix_sums 0 (widths (ns_vd ns)))"
    "get_bytes (Schema_of_NewSchema ns) = sum_list (widths (ns_vd ns))" by (simp_all add: e get_bytes_def)
  show "d \<in> set (ns_vd ns) \<Longrightarrow> d = IntegerType t_int \<or> d = UnLongType t_long" using schema_columns [of d "ns_vd ns"] assms by simp
qed

lemma column_value_wf:
  assumes "ns = mk_NewSchema (ns_vd ns)" "i < length (ns_vd ns)"
  shows "column_value (Schema_of_NewSchema ns) t i = dt_load (ns_vd ns ! i) (drop (sum_list (take i (widths (ns_vd ns)))) t)"
  using assms(2) wf_schema(1,2) [OF assms(1)] by (simp add: column_value_def get_addr_def getDataType_def nth_prefix_sums)

lemma joined_columns:
  assumes l: "l = mk_NewSchema (ns_vd l)" and r: "r = mk_NewSchema (ns_vd r)"
  shows "ns_vd (mk_NewSchema (ns_vd l @ ns_vd r)) = ns_vd l @ ns_vd r"
proof -
  let ?ds = "ns_vd l @ ns_vd r"
  have d: "d = IntegerType t_int \<or> d = UnLongType t_long" if "d \<in> set ?ds" for d
    using that wf_schema(4) [OF l] wf_schema(4) [OF r] by auto
  have "storable ?ds = ?ds" unfolding storable_def by (rule filter_id_conv [THEN iffD2]) (use d in \<open>force simp: get_type_def\<close>)
  moreover have "map (\<lambda>d. if get_type d = t_int then IntegerType t_int else UnLongType t_long) ?ds = ?ds"
    by (rule map_idI) (use d in \<open>force simp: get_type_def\<close>)
  ultimately show ?thesis by (simp add: mk_NewSchema_def NewSchema_loop_eq del: map_append)
qed

lemma joined_layout:
  assumes l: "l = mk_NewSchema (ns_vd l)" and r: "r = mk_NewSchema (ns_vd r)" and out: "out = mk_NewSchema (ns_vd l @ ns_vd r)"
    and x: "length x = get_bytes (Schema_of_NewSchema l)" and y: "length y = get_bytes (Schema_of_NewSchema r)"
  shows "get_bytes (Schema_of_NewSchema out) = length x + length y"
    "i < length (ns_vd l) \<Longrightarrow> column_value (Schema_of_NewSchema out) (x @ y) i = column_value (Schema_of_NewSchema l) x i"
    "j < length (ns_vd r) \<Longrightarrow> column_value (Schema_of_NewSchema out) (x @ y) (length (ns_vd l) + j) = column_value (Schema_of_NewSchema r) y j"
proof -
  have vd: "ns_vd out = ns_vd l @ ns_vd r" unfolding out by (rule joined_columns [OF l r])
  have w: "out = mk_NewSchema (ns_vd out)" unfolding vd by (rule out)
  have lx: "length x = sum_list (widths (ns_vd l))" using x wf_schema(3) [OF l] by simp
  show "get_bytes (Schema_of_NewSchema out) = length x + length y"
    using wf_schema(3) [OF w] wf_schema(3) [OF r] lx y unfolding vd by simp
  show "column_value (Schema_of_NewSchema out) (x @ y) i = column_value (Schema_of_NewSchema l) x i" if i: "i < length (ns_vd l)"
  proof -
    let ?a = "sum_list (take i (widths (ns_vd l)))" and ?d = "ns_vd l ! i"
    have "?a + width (get_type ?d) \<le> length x" using schema_column_fits [of i "widths (ns_vd l)"] i lx by simp
    moreover have "?d = IntegerType t_int \<or> ?d = UnLongType t_long" using wf_schema(4) [OF l] i by simp
    ultimately have "dt_load ?d (drop ?a x @ y) = dt_load ?d (drop ?a x)" by (intro dt_load_append) auto
    moreover have "?a \<le> length x" using \<open>?a + width (get_type ?d) \<le> length x\<close> by simp
    ultimately show ?thesis using column_value_wf [OF w, of i] column_value_wf [OF l i] i unfolding vd by (simp add: nth_append)
  qed
  show "column_value (Schema_of_NewSchema out) (x @ y) (length (ns_vd l) + j) = column_value (Schema_of_NewSchema r) y j" if j: "j < length (ns_vd r)"
    using column_value_wf [OF w, of "length (ns_vd l) + j"] column_value_wf [OF r j] j lx unfolding vd by simp
qed

lemma combine_writes:
  assumes "combine st des p q = Some m" "rd_bytes (mg_mem st (fst p)) (snd p) (blk_tuple_size (mg_l st)) = Some x"
    "rd_bytes (mg_mem st (fst q)) (snd q) (blk_tuple_size (mg_r st)) = Some y"
  shows "rd_bytes m des (length x + length y) = Some (x @ y)"
proof -
  have len: "length x = blk_tuple_size (mg_l st)" using rd_bytes_length assms(2) by blast
  obtain m1 where m1: "wr_bytes (blk_mem (mg_block st)) des x = Some m1" "wr_bytes m1 (des + length x) y = Some m"
    using assms len by (auto simp: combine_def bind_iff)
  then have "wr_bytes (blk_mem (mg_block st)) des (x @ y) = Some m"
    using wr_bytes_append [of des x y "blk_mem (mg_block st)"] by (auto simp: wr_bytes_def split: if_splits)
  then show ?thesis by (rule rd_wr_same) simp
qed

text \<open>
  C13. Joined tuples have the type the plan says. In a well-typed plan, take a merge join and two tuples of
  its children: what \<open>combine\<close> writes for them is a tuple of the join's output schema, of exactly its size,
  in which the first columns read as the columns of the left tuple and the remaining ones as those of
  the right tuple.
\<close>

theorem join_tuple_typed:
  assumes "plan_ok p" "MergeJoinPlan l r out cl cr \<in> set (subplans p)"
    and "blk_tuple_size (mg_l st) = get_bytes (Schema_of_NewSchema l)" "blk_tuple_size (mg_r st) = get_bytes (Schema_of_NewSchema r)"
    and "rd_bytes (mg_mem st (fst a)) (snd a) (blk_tuple_size (mg_l st)) = Some x"
    and "rd_bytes (mg_mem st (fst b)) (snd b) (blk_tuple_size (mg_r st)) = Some y" "combine st des a b = Some m"
  shows "\<exists>t. rd_bytes m des (get_bytes (Schema_of_NewSchema out)) = Some t
    \<and> (\<forall>i < length (ns_vd l). column_value (Schema_of_NewSchema out) t i = column_value (Schema_of_NewSchema l) x i)
    \<and> (\<forall>j < length (ns_vd r). column_value (Schema_of_NewSchema out) t (length (ns_vd l) + j) = column_value (Schema_of_NewSchema r) y j)"
proof -
  have ok: "plan_ok (MergeJoinPlan l r out cl cr)" by (rule subplan_ok [OF assms(1,2)])
  then have l: "l = mk_NewSchema (ns_vd l)" and r: "r = mk_NewSchema (ns_vd r)" and out: "out = mk_NewSchema (ns_vd l @ ns_vd r)"
    using plan_schema_wf by auto
  have x: "length x = get_bytes (Schema_of_NewSchema l)" and y: "length y = get_bytes (Schema_of_NewSchema r)"
    using rd_bytes_length [OF assms(5)] rd_bytes_length [OF assms(6)] assms(3,4) by simp_all
  note lay = joined_layout [OF l r out x y]
  have "rd_bytes m des (get_bytes (Schema_of_NewSchema out)) = Some (x @ y)"
    using combine_writes [OF assms(7,5,6)] lay(1) by simp
  then show ?thesis using lay(2,3) by blast
qed

section \<open>The plans of the coordinator\<close>

text \<open>
  In each of the three queries every operator gets the schema its child produces and the join's output
  schema is the concatenation of its inputs, and no two exchanges open the same port.
\<close>

lemma coordinator_plans_ok: "plan_ok do_join_query" "plan_ok do_final_query" "plan_ok do_final_query1"
  by code_simp+

lemma coordinator_ports:
  "q \<in> {do_join_query, do_final_query, do_final_query1} \<Longrightarrow> distinct (concat (map exchange_ports (exchange_ids q)))"
proof -
  have "list_all (\<lambda>q. distinct (concat (map exchange_ports (exchange_ids q)))) [do_join_query, do_final_query, do_final_query1]"
    by code_simp
  then show "q \<in> {do_join_query, do_final_query, do_final_query1} \<Longrightarrow> distinct (concat (map exchange_ports (exchange_ids q)))"
    by auto
qed

text \<open>
  Two of them are also safe with respect to the cast in \<open>Sort::prelude\<close>; \<open>do_final_query\<close> is not: it sorts
  directly above a scan, and the prelude takes the scan for an exchange.
\<close>

lemma coordinator_casts: "casts_ok do_join_query" "casts_ok do_final_query1" "\<not> casts_ok do_final_query"
  by code_simp+

text \<open>Two tuples of the example tables, a left block and a right block holding one each, and a blank output block.\<close>

definition pair_state :: merge_state where
  "pair_state = \<lparr>mg_l = \<lparr>blk_mem = key_tuple 3, blk_free = 16, blk_size = 16, blk_tuple_size = 16\<rparr>,
     mg_r = \<lparr>blk_mem = key_tuple 5, blk_free = 16, blk_size = 16, blk_tuple_size = 16\<rparr>,
     mg_lit = createIterator, mg_rit = createIterator,
     mg_block = \<lparr>blk_mem = replicate 40 0, blk_free = 0, blk_size = 40, blk_tuple_size = 32\<rparr>,
     mg_count = 0, mg_count_o = 0, mg_built = [], mg_made = 1\<rparr>"

theorem join_tuple_typed_witness:
  "\<exists>m t. combine pair_state 0 (Lft, 0) (Rgt, 0) = Some m
    \<and> rd_bytes m 0 (get_bytes (Schema_of_NewSchema (mk_NewSchema four_long))) = Some t
    \<and> column_value (Schema_of_NewSchema (mk_NewSchema four_long)) t 1 = Some 3
    \<and> column_value (Schema_of_NewSchema (mk_NewSchema four_long)) t 3 = Some 5"
proof -
  let ?ns = "mk_NewSchema two_long" and ?out = "mk_NewSchema four_long"
  obtain m where m: "combine pair_state 0 (Lft, 0) (Rgt, 0) = Some m" by (cases "combine pair_state 0 (Lft, 0) (Rgt, 0)") (code_simp, simp)
  have sub: "MergeJoinPlan ?ns ?ns ?out (ShuffleUpperPlan ?ns workers workers (SortPlan ?ns table_scan) 500)
      (ShuffleUpperPlan ?ns workers workers (SortPlan ?ns table_scan) 50) \<in> set (subplans do_final_query)"
    by (simp add: do_final_query_def Let_def)
  have sz: "blk_tuple_size (mg_l pair_state) = get_bytes (Schema_of_NewSchema ?ns)" "blk_tuple_size (mg_r pair_state) = get_bytes (Schema_of_NewSchema ?ns)"
    by code_simp+
  have x: "rd_bytes (mg_mem pair_state (fst (Lft, 0))) (snd (Lft, 0)) (blk_tuple_size (mg_l pair_state)) = Some (key_tuple 3)"
    "rd_bytes (mg_mem pair_state (fst (Rgt, 0))) (snd (Rgt, 0)) (blk_tuple_size (mg_r pair_state)) = Some (key_tuple 5)"
    by code_simp+
  have cols: "length (ns_vd ?ns) = 2" "column_value (Schema_of_NewSchema ?ns) (key_tuple 3) 1 = Some 3"
    "column_value (Schema_of_NewSchema ?ns) (key_tuple 5) 1 = Some 5"
    by code_simp+
  obtain t where "rd_bytes m 0 (get_bytes (Schema_of_NewSchema ?out)) = Some t"
    "\<forall>i < 2. column_value (Schema_of_NewSchema ?out) t i = column_value (Schema_of_NewSchema ?ns) (key_tuple 3) i"
    "\<forall>j < 2. column_value (Schema_of_NewSchema ?out) t (2 + j) = column_value (Schema_of_NewSchema ?ns) (key_tuple 5) j"
    using join_tuple_typed [OF coordinator_plans_ok(2) sub sz x m] unfolding cols(1) by blast
  moreover from this(3) have "column_value (Schema_of_NewSchema ?out) t 3 = Some 5" using cols(3) by (force simp: numeral_3_eq_3)
  ultimately show ?thesis using m cols(2) by force
qed

section \<open>The result exchange\<close>

text \<open>
  C40. A query's result is always empty. \<open>MergeJoin::execute\<close> returns false at its first call, so the exchange
  above the join sends nothing but one end mark (a block with tuple count zero) to each of its upper
  nodes, whatever the join's children hold.
\<close>

theorem join_result_never_sent:
  assumes "pre child = Some mj" "SL1_prelude pre ns seqs exchange_id junk junks child = Some st"
    "seqs \<noteq> []" "length junk = BLOCK_SIZE"
  shows "\<exists>st'. SL1_execute MergeJoin_execute (Suc fuel) st = Some (False, st') \<and> length (sl_out st') = length seqs
    \<and> (\<forall>c < length seqs. \<exists>z. image_count z = 0 \<and> sl_out st' ! c = [z])"
proof -
  have st: "sl_seqs st = length seqs" "sl_out st = replicate (length seqs) []" "sl_buffer st = mk_Block junk (ns_get_bytes ns)"
    using assms(1,2) by (auto simp: SL1_prelude_def)
  have "std_block (ns_get_bytes ns) (sl_buffer st)" using assms(4) unfolding st by (simp add: std_block_def mk_Block_def)
  from sl_end_spec [of st "length seqs" _ 0, OF _ this] st obtain st' where
    "sl_end [0..<length seqs] st = Some st'" "length (sl_out st') = length seqs"
    "\<forall>c < length seqs. \<exists>z. image_count z = 0 \<and> sl_out st' ! c = [z]" by auto
  then show ?thesis using assms(3) st(1) by (simp add: SL1_execute_def MergeJoin_execute_def)
qed

theorem join_result_never_sent_witness:
  "\<exists>st st'. SL1_prelude Some (mk_NewSchema four_long) [''10.11.1.190''] 10 blank (\<lambda>_. blank) small_join = Some st
    \<and> SL1_execute MergeJoin_execute 1 st = Some (False, st') \<and> (\<exists>z. image_count z = 0 \<and> sl_out st' = [[z]])"
proof -
  obtain st where st: "SL1_prelude Some (mk_NewSchema four_long) [''10.11.1.190''] 10 blank (\<lambda>_. blank) small_join = Some st"
    by (auto simp: SL1_prelude_def)
  from join_result_never_sent [where fuel = 0, OF refl st] obtain st' where
    "SL1_execute MergeJoin_execute (Suc 0) st = Some (False, st')" "length (sl_out st') = 1" "\<exists>z. image_count z = 0 \<and> sl_out st' ! 0 = [z]"
    using blank_length by auto
  moreover from this(2) have "sl_out st' = [sl_out st' ! 0]" by (cases "sl_out st'") auto
  ultimately show ?thesis using st by (metis One_nat_def)
qed

end
