(* ===== verification/Mosito_Lower.thy ===== *)
theory Mosito_Lower
  imports Mosito_Shuffle
begin

text \<open>
  The sending side of the sorted exchange, \<open>ShuffleLower\<close> (\<^verbatim>\<open>physical/m_shuffle_lower.cpp\<close>). \<open>prelude\<close> drains the
  child, splits its tuples into \<open>CPU_CORE\<close> key ranges and sorts each of them; \<open>execute\<close> combines the ranges of
  each destination, fills one block per destination and puts it into the column of the destination.

  A single \<open>pcbuffer_->put\<close> may fail, when the sending thread is too slow. The outcome of every put is an argument
  of the model: one list of outcomes, a flag per destination, for every iteration of the loops of \<open>execute\<close>.
  The counters \<open>temp_cur_\<close>, \<open>count_\<close> and \<open>count_child_\<close>, which are written and never read, are left out.
\<close>

section \<open>prelude\<close>

record shuffle_lower =
  lw_seqs :: nat
  lw_totalsize :: nat
  lw_ranges :: "bytes list list"
  lw_new_ranges :: "bytes list list"
  lw_buffers :: "block list"
  lw_emptys :: nat
  lw_one_empty :: bool
  lw_oks :: "bool list"
  lw_out :: "bytes list list"

definition compare1 :: "bytes \<Rightarrow> bytes \<Rightarrow> bool option" where
  "compare1 left right = do {
     l \<leftarrow> tuple_key left;
     r \<leftarrow> tuple_key right;
     if l < r then Some False else Some True
   }"

text \<open>\<open>single_sort1\<close> is declared \<open>void *\<close> and has no return statement; the value is not used.\<close>

definition single_sort1 :: "bool \<Rightarrow> bytes list \<Rightarrow> bytes list option" where
  "single_sort1 strict rg = do {
     rg' \<leftarrow> (if asym_on compare1 rg then stable_sort_from compare1 rg [] else None);
     no_return strict rg'
   }"

text \<open>The blocks of the child, copied into blocks of the operator's own.\<close>

fun lw_read :: "'s executor \<Rightarrow> bytes \<Rightarrow> nat \<Rightarrow> nat \<Rightarrow> 's \<Rightarrow> block \<Rightarrow> block list \<Rightarrow> block list option" where
  "lw_read exec junk bytes 0 s buffer0 blocks = None"
| "lw_read exec junk bytes (Suc fuel) s buffer0 blocks = do {
     (more, s', b) \<leftarrow> exec s buffer0;
     if more then do {
       block \<leftarrow> storeBlock (mk_Block junk bytes) (blk_mem b) BLOCK_SIZE;
       lw_read exec junk bytes fuel s' b (blocks @ [block])
     }
     else Some blocks
   }"

text \<open>\<open>r\<close> lives outside the loops: a key above all bounds goes where the tuple before it went.\<close>

fun lw_partition :: "int list \<Rightarrow> nat \<Rightarrow> bytes list \<Rightarrow> bytes list list \<Rightarrow> bytes list list option" where
  "lw_partition bounds r [] rs = Some rs"
| "lw_partition bounds r (t # ts) rs = do {
     v \<leftarrow> tuple_key t;
     let r' = (case range_of v bounds 0 of None \<Rightarrow> r | Some i \<Rightarrow> i);
     if r' < length rs then lw_partition bounds r' ts (rs[r' := rs ! r' @ [t]]) else None
   }"

definition SL_prelude :: "bool \<Rightarrow> ('s \<Rightarrow> 's option) \<Rightarrow> 's executor \<Rightarrow> nat \<Rightarrow> NewSchema \<Rightarrow> string list \<Rightarrow> bytes \<Rightarrow> (nat \<Rightarrow> bytes) \<Rightarrow> 's \<Rightarrow>
    shuffle_lower option" where
  "SL_prelude strict prelude exec fuel ns seqs junk junks child = do {
     s \<leftarrow> prelude child;
     blocks \<leftarrow> lw_read exec junk (get_bytes (Schema_of_NewSchema ns)) fuel s (mk_Block junk (ns_get_bytes ns)) [];
     tss \<leftarrow> those (map block_tuples blocks);
     rs \<leftarrow> lw_partition (map range_bound [0..<CPU_CORE]) 0 (concat tss) (replicate CPU_CORE []);
     rs' \<leftarrow> those (map (single_sort1 strict) rs);
     Some \<lparr>lw_seqs = length seqs, lw_totalsize = ns_totalsize ns, lw_ranges = rs', lw_new_ranges = [],
           lw_buffers = map (\<lambda>i. mk_Block (junks i) (ns_get_bytes ns)) [0..<CPU_CORE],
           lw_emptys = 0, lw_one_empty = False, lw_oks = [], lw_out = replicate (length seqs) []\<rparr>
   }"

section \<open>execute\<close>

text \<open>
  The local variables \<open>oks\<close> and \<open>new_ranges_\<close>: a destination gets \<open>CPU_CORE/size\<close> neighbouring ranges, the
  highest first.
\<close>

definition new_range :: "nat \<Rightarrow> bytes list list \<Rightarrow> nat \<Rightarrow> bytes list" where
  "new_range mul rs i = concat (map (\<lambda>j. rs ! j) (rev [i * mul..<(1 + i) * mul]))"

definition lw_start :: "shuffle_lower \<Rightarrow> shuffle_lower option" where
  "lw_start st =
     (if lw_seqs st = 0 then None
      else Some (st\<lparr>lw_oks := replicate CPU_CORE False,
             lw_new_ranges := map (new_range (CPU_CORE div lw_seqs st) (lw_ranges st)) [0..<lw_seqs st]\<rparr>))"

text \<open>The loop that fills a block from the end of its range, until the block is full or the range empty.\<close>

function lw_fill :: "bytes list \<Rightarrow> block \<Rightarrow> (bytes list \<times> block) option" where
  "lw_fill rg b =
     (case allocateTuple b of
        None \<Rightarrow> Some (rg, b)
      | Some desc \<Rightarrow>
          if rg = [] then None
          else (case storeTuple b desc (last rg) of
                  None \<Rightarrow> None
                | Some b' \<Rightarrow> if butlast rg = [] then Some ([], b') else lw_fill (butlast rg) b'))"
  by pat_completeness auto
termination by (relation "measure (\<lambda>(rg, b). length rg)") auto

declare lw_fill.simps [simp del]

text \<open>The gathering loop over the destinations. There are \<open>CPU_CORE\<close> blocks: a fifth destination is out of bounds.\<close>

fun lw_gather :: "nat list \<Rightarrow> shuffle_lower \<Rightarrow> shuffle_lower option" where
  "lw_gather [] st = Some st"
| "lw_gather (i # is) st =
     (if i < length (lw_buffers st) then
        (if blk_empty (lw_buffers st ! i) \<and> lw_new_ranges st ! i \<noteq> [] then do {
           (rg, b) \<leftarrow> lw_fill (lw_new_ranges st ! i) (lw_buffers st ! i);
           let e = (if rg = [] then lw_emptys st + 1 else lw_emptys st);
           lw_gather is (st\<lparr>lw_new_ranges := (lw_new_ranges st)[i := rg], lw_buffers := (lw_buffers st)[i := b], lw_emptys := e,
             lw_one_empty := (lw_one_empty st \<or> rg = [] \<and> e = lw_seqs st)\<rparr>)
         }
         else lw_gather is st)
      else None)"

text \<open>The sending loop: a block whose put failed stays and is put again in the next iteration.\<close>

fun lw_send :: "bool list \<Rightarrow> nat list \<Rightarrow> shuffle_lower \<Rightarrow> shuffle_lower option" where
  "lw_send puts [] st = Some st"
| "lw_send puts (i # is) st =
     (if blk_empty (lw_buffers st ! i) then lw_send puts is st
      else do {
        b \<leftarrow> assembling (lw_buffers st ! i) BLOCK_SIZE (lw_totalsize st);
        if puts ! i then do {
          out \<leftarrow> put_wait b i (lw_out st);
          lw_send puts is (st\<lparr>lw_buffers := (lw_buffers st)[i := blk_reset b], lw_out := out\<rparr>)
        }
        else lw_send puts is (st\<lparr>lw_buffers := (lw_buffers st)[i := b]\<rparr>)
      })"

text \<open>
  The loop over the destinations once all ranges are empty. Its test of \<open>put\<close> is negated: the block is dropped when the put
  failed, and kept, to be put once more, when it succeeded.
\<close>

fun lw_flush :: "bool list \<Rightarrow> nat list \<Rightarrow> shuffle_lower \<Rightarrow> shuffle_lower option" where
  "lw_flush puts [] st = Some st"
| "lw_flush puts (i # is) st =
     (if blk_empty (lw_buffers st ! i) then lw_flush puts is (st\<lparr>lw_oks := (lw_oks st)[i := True]\<rparr>)
      else do {
        b \<leftarrow> assembling (lw_buffers st ! i) BLOCK_SIZE (lw_totalsize st);
        if puts ! i then do {
          out \<leftarrow> put_wait b i (lw_out st);
          lw_flush puts is (st\<lparr>lw_buffers := (lw_buffers st)[i := b], lw_out := out\<rparr>)
        }
        else lw_flush puts is (st\<lparr>lw_buffers := (lw_buffers st)[i := blk_reset b], lw_oks := (lw_oks st)[i := True]\<rparr>)
      })"

fun lw_end :: "nat list \<Rightarrow> shuffle_lower \<Rightarrow> shuffle_lower option" where
  "lw_end [] st = Some st"
| "lw_end (i # is) st = do {
     b \<leftarrow> build (lw_buffers st ! i) BLOCK_SIZE 0;
     out \<leftarrow> put_wait b i (lw_out st);
     lw_end is (st\<lparr>lw_buffers := (lw_buffers st)[i := b], lw_out := out\<rparr>)
   }"

text \<open>One iteration of the outer loop, or of the inner one once it is entered; \<open>Inr\<close> when \<open>execute\<close> returns false.\<close>

definition lw_iter :: "bool list \<Rightarrow> shuffle_lower \<Rightarrow> (shuffle_lower + shuffle_lower) option" where
  "lw_iter puts st =
     (let is = [0..<lw_seqs st] in
      if lw_one_empty st then
        (if list_all (\<lambda>i. lw_oks st ! i) is then map_option Inr (lw_end is st) else map_option Inl (lw_flush puts is st))
      else do {
        st1 \<leftarrow> lw_gather is st;
        if lw_one_empty st1 then Some (Inl st1) else map_option Inl (lw_send puts is st1)
      })"

fun lw_run :: "bool list list \<Rightarrow> shuffle_lower \<Rightarrow> (shuffle_lower + shuffle_lower) option" where
  "lw_run [] st = Some (Inl st)"
| "lw_run (puts # ps) st = do {
     r \<leftarrow> lw_iter puts st;
     (case r of Inl st' \<Rightarrow> lw_run ps st' | Inr st' \<Rightarrow> Some (Inr st'))
   }"

definition SL_execute :: "bool list list \<Rightarrow> shuffle_lower \<Rightarrow> (shuffle_lower + shuffle_lower) option" where
  "SL_execute ps st = do { st' \<leftarrow> lw_start st; lw_run ps st' }"

section \<open>Sorting the tuples of a destination\<close>

lemma single_sort1_eq: "single_sort1 = single_sort"
proof -
  have "compare1 = Sort_compare" by (intro ext) (simp add: compare1_def Sort_compare_def)
  then show ?thesis by (intro ext) (simp add: single_sort1_def single_sort_def)
qed

lemma lw_partition_eq:
  "\<forall>t \<in> set ts. tuple_key t \<noteq> None \<and> range_of (kt t) bounds 0 \<noteq> None \<Longrightarrow>
   lw_partition bounds r ts rs = partition_tuples bounds ts rs"
  by (induction ts arbitrary: r rs) (auto simp: kt_def Let_def)

context query_plan
begin

lemma lw_read_rest:
  assumes "valid s" "std_block k b" "length junk = BLOCK_SIZE" "length (rest s) < fuel" "\<forall>i \<in> set (rest s). length i = BLOCK_SIZE"
  shows "\<exists>bs. lw_read exec junk k fuel s b blocks = Some (blocks @ bs) \<and> list_all2 (\<lambda>b i. std_block k b \<and> blk_mem b = i) bs (rest s)"
  using assms
proof (induction fuel arbitrary: s b blocks)
  case (Suc fuel)
  show ?case
  proof (cases "rest s")
    case Nil
    then show ?thesis using exec_end [OF Suc.prems(1) Nil Suc.prems(2)] by auto
  next
    case (Cons i js)
    obtain s' b' where e: "exec s b = Some (True, s', b')" "valid s'" "rest s' = js" "std_block k b'" "blk_mem b' = i"
      using exec_more [OF Suc.prems(1) Cons Suc.prems(2)] by blast
    obtain c where c: "storeBlock (mk_Block junk k) i BLOCK_SIZE = Some c" "std_block k c" "blk_mem c = i"
      using storeBlock_std [of k "mk_Block junk k" i] Suc.prems(3,5) Cons by auto
    obtain bs where "lw_read exec junk k fuel s' b' (blocks @ [c]) = Some ((blocks @ [c]) @ bs)" "list_all2 (\<lambda>b i. std_block k b \<and> blk_mem b = i) bs js"
      using Suc.IH [OF e(2,4), of "blocks @ [c]"] Suc.prems(3-5) e(3) Cons by auto
    then show ?thesis using e(1,5) c Cons by (intro exI [of _ "c # bs"]) simp
  qed
qed simp

end

lemma blocks_tuples:
  assumes "list_all2 (\<lambda>b i. std_block k b \<and> blk_mem b = i) bs js" "0 < k" "\<forall>i \<in> set js. image_count i * k \<le> BLOCK_SIZE"
  shows "those (map block_tuples bs) = Some (map (image_tuples k) js)"
  using assms
proof (induction bs js rule: list_all2_induct)
  case (Cons b bs i js)
  then show ?case using image_block_tuples [of k b] by auto
qed simp

text \<open>A run of neighbouring ranges holds the tuples of these ranges.\<close>

lemma filter_ranges:
  assumes "\<forall>r < length rs. \<forall>t \<in> set (rs ! r). rng t = Some r" "a \<le> b" "b \<le> length rs"
  shows "concat (map ((!) rs) [a..<b]) = filter (\<lambda>t. \<exists>r. rng t = Some r \<and> a \<le> r \<and> r < b) (concat rs)"
proof -
  let ?P = "\<lambda>t. \<exists>r. rng t = Some r \<and> a \<le> r \<and> r < b" and ?g = "\<lambda>x y. concat (map ((!) rs) [x..<y])"
  have "[0..<length rs] = [0..<a] @ [a..<b] @ [b..<length rs]"
    using assms(2,3) by (metis le_add_diff_inverse le_trans upt_add_eq_append zero_le)
  then have "concat rs = ?g 0 a @ ?g a b @ ?g b (length rs)" by (metis concat_append map_append map_nth)
  moreover have mem: "\<exists>r. rng t = Some r \<and> x \<le> r \<and> r < y" if "t \<in> set (?g x y)" "y \<le> length rs" for t x y
  proof -
    from that(1) obtain j where "x \<le> j" "j < y" "t \<in> set (rs ! j)" by auto
    then show ?thesis using assms(1) that(2) by (intro exI [of _ j]) auto
  qed
  moreover have "filter ?P (?g a b) = ?g a b" using mem [where x = a and y = b] assms(3) by (intro filter_True) blast
  moreover have "filter ?P (?g 0 a) = []" using mem [where x = 0 and y = a] assms(2,3) by (intro filter_False) fastforce
  moreover have "filter ?P (?g b (length rs)) = []" using mem [where x = b and y = "length rs"] by (intro filter_False) fastforce
  ultimately show ?thesis by (simp del: concat_eq_Nil_conv)
qed

lemma new_range_spec:
  assumes rs: "\<forall>r < length rs. \<forall>t \<in> set (rs ! r). rng t = Some r" and len: "length rs' = length rs"
    and s: "\<forall>r < length rs. mset (rs' ! r) = mset (rs ! r) \<and> desc_sorted (rs' ! r)"
    and less: "\<And>r r' t t'. \<lbrakk>r < r'; r' < length rs; t \<in> set (rs ! r); t' \<in> set (rs ! r')\<rbrakk> \<Longrightarrow> kt t \<le> kt t'"
    and c: "(1 + c) * mul \<le> length rs" "0 < mul"
  shows "sorted (map kt (rev (new_range mul rs' c)))"
    "mset (new_range mul rs' c) = mset (filter (\<lambda>t. \<exists>r. rng t = Some r \<and> r div mul = c) (concat rs))"
proof -
  let ?a = "c * mul" and ?b = "(1 + c) * mul"
  have rev: "rev (new_range mul rs' c) = concat (map (\<lambda>j. rev (rs' ! j)) [?a..<?b])"
    unfolding new_range_def by (simp add: rev_concat rev_map comp_def)
  have set: "set (rs' ! r) = set (rs ! r)" if "r < length rs" for r using s that by (metis set_mset_mset)
  show "sorted (map kt (rev (new_range mul rs' c)))" unfolding rev
  proof (rule sorted_concat)
    let ?l = "map (\<lambda>j. rev (rs' ! j)) [?a..<?b]"
    show "sorted (map kt (?l ! r))" if "r < length ?l" for r
      using that s c(1) by (simp add: desc_rev)
    show "kt t \<le> kt t'" if "r < r'" "r' < length ?l" "t \<in> set (?l ! r)" "t' \<in> set (?l ! r')" for r r' t t'
      using that less [of "?a + r" "?a + r'" t t'] set [of "?a + r"] set [of "?a + r'"] c(1) by simp
  qed
  have m: "mset (concat (map (\<lambda>j. rev (rs' ! j)) js)) = mset (concat (map ((!) rs) js))" if "\<forall>j \<in> set js. j < length rs" for js
    using that s by (induction js) auto
  have "mset (new_range mul rs' c) = mset (rev (new_range mul rs' c))" by simp
  also have "\<dots> = mset (concat (map ((!) rs) [?a..<?b]))" unfolding rev using c(1) by (intro m) auto
  also have "\<dots> = mset (filter (\<lambda>t. \<exists>r. rng t = Some r \<and> ?a \<le> r \<and> r < ?b) (concat rs))"
    using filter_ranges [OF rs _ c(1)] by simp
  also have "(\<lambda>t. \<exists>r. rng t = Some r \<and> ?a \<le> r \<and> r < ?b) = (\<lambda>t. \<exists>r. rng t = Some r \<and> r div mul = c)"
  proof -
    have "?a \<le> r \<and> r < ?b \<longleftrightarrow> r div mul = c" for r
      using c(2) less_eq_div_iff_mult_less_eq [of mul c r] div_less_iff_less_mult [of mul r "1 + c"] by auto
    then show ?thesis by simp
  qed
  finally show "mset (new_range mul rs' c) = mset (filter (\<lambda>t. \<exists>r. rng t = Some r \<and> r div mul = c) (concat rs))" .
qed

text \<open>What \<open>execute\<close> starts its loops with.\<close>

definition lw_fresh :: "nat \<Rightarrow> nat \<Rightarrow> shuffle_lower \<Rightarrow> bool" where
  "lw_fresh k n st \<longleftrightarrow> lw_seqs st = n \<and> lw_totalsize st = k \<and> n \<le> CPU_CORE \<and> length (lw_new_ranges st) = n
     \<and> list_all (list_all (\<lambda>t. length t = k)) (lw_new_ranges st)
     \<and> length (lw_buffers st) = CPU_CORE \<and> list_all (\<lambda>b. std_block k b \<and> blk_ok b \<and> blk_empty b) (lw_buffers st)
     \<and> lw_emptys st = 0 \<and> \<not> lw_one_empty st \<and> lw_oks st = replicate CPU_CORE False \<and> lw_out st = replicate n []"

lemma rng_iff: "rng t = Some r \<longleftrightarrow> tuple_key t \<noteq> None \<and> range_of (kt t) (map range_bound [0..<CPU_CORE]) 0 = Some r"
  by (cases "tuple_key t") (simp_all add: rng_def SL1_partition_def kt_def)

lemma length_image_tuple:
  assumes "length i = BLOCK_SIZE" "image_count i * k \<le> BLOCK_SIZE" "t \<in> set (image_tuples k i)"
  shows "length t = k"
  using image_tuples_nth(2) [OF assms(1,2)] assms(3) by (auto simp: in_set_conv_nth)

lemma sort_parted:
  assumes "\<forall>t \<in> set ts. rng t \<noteq> None" "distinct (map kt ts)"
  shows "\<exists>rs rs'. lw_partition (map range_bound [0..<CPU_CORE]) 0 ts (replicate CPU_CORE []) = Some rs \<and> those (map (single_sort1 False) rs) = Some rs'
    \<and> length rs = CPU_CORE \<and> length rs' = CPU_CORE \<and> mset (concat rs) = mset ts \<and> (\<forall>r < CPU_CORE. \<forall>t \<in> set (rs ! r). rng t = Some r)
    \<and> (\<forall>r < CPU_CORE. mset (rs' ! r) = mset (rs ! r) \<and> desc_sorted (rs' ! r))
    \<and> (\<forall>r r' t t'. r < r' \<longrightarrow> r' < CPU_CORE \<longrightarrow> t \<in> set (rs ! r) \<longrightarrow> t' \<in> set (rs ! r') \<longrightarrow> kt t \<le> kt t')"
proof -
  let ?bs = "map range_bound [0..<CPU_CORE]"
  have r: "\<forall>t \<in> set ts. tuple_key t \<noteq> None \<and> range_of (kt t) ?bs 0 \<noteq> None"
    using assms(1) by (auto simp: rng_iff dest!: not_None_eq [THEN iffD1])
  have "parted ?bs (replicate CPU_CORE [])" by (simp add: parted_def)
  with partition_tuples_spec [OF r, of "replicate CPU_CORE []"] obtain rs where rs: "partition_tuples ?bs ts (replicate CPU_CORE []) = Some rs" "length rs = CPU_CORE"
    "parted ?bs rs" "mset (concat rs) = mset ts" by auto
  have "distinct (map kt (concat rs))" using rs(4) assms(2) by (metis mset_eq_imp_distinct_iff mset_map)
  from sort_ranges [OF rs(3) this] obtain rs' where rs': "those (map (single_sort False) rs) = Some rs'" "length rs' = length rs"
    "\<forall>r < length rs. mset (rs' ! r) = mset (rs ! r) \<and> desc_sorted (rs' ! r)" by blast
  have "lw_partition ?bs 0 ts (replicate CPU_CORE []) = Some rs" unfolding lw_partition_eq [OF r] by (rule rs(1))
  moreover have "those (map (single_sort1 False) rs) = Some rs'" unfolding single_sort1_eq by (rule rs'(1))
  moreover have "\<forall>r < CPU_CORE. \<forall>t \<in> set (rs ! r). rng t = Some r" using rs(3) unfolding parted_def rs(2) rng_iff by blast
  moreover have "\<forall>r r' t t'. r < r' \<longrightarrow> r' < CPU_CORE \<longrightarrow> t \<in> set (rs ! r) \<longrightarrow> t' \<in> set (rs ! r') \<longrightarrow> kt t \<le> kt t'"
    using parted_less [OF rs(3), unfolded rs(2)] by blast
  ultimately show ?thesis using rs(2,4) rs'(2,3) [unfolded rs(2)] by blast
qed

lemma SL_prelude_strict: "SL_prelude True prelude exec fuel ns seqs junk junks s = None"
proof -
  have "length rs' = length rs" if "lw_partition bounds q ts rs = Some rs'" for bounds q ts rs rs'
    using that by (induction ts arbitrary: q rs) (auto simp: bind_iff Let_def split: if_splits)
  moreover have "those (map (single_sort1 True) rs) = None" if "length rs = CPU_CORE" for rs
    unfolding single_sort1_eq using that by (cases rs) (auto simp: CPU_CORE_def)
  ultimately have "those (map (single_sort1 True) rs) = None"
    if "lw_partition bounds q ts (replicate CPU_CORE []) = Some rs" for bounds q ts rs
    using that by (metis length_replicate)
  then show ?thesis
    by (intro ccontr [of "SL_prelude True prelude exec fuel ns seqs junk junks s = None"])
      (fastforce simp: SL_prelude_def bind_iff)
qed

text \<open>
  C17. The sending side of the sorted exchange sorts and partitions. Over a scan whose tuples have pairwise different keys
  below \<open>DATAVOLUME\<close>, with one, two or four destinations, and with the missing return of the sorting threads read as a plain
  return, \<open>prelude\<close> and the combining loop of \<open>execute\<close> leave for destination \<open>c\<close> exactly the tuples of its key ranges, and
  taken from the end, as \<open>execute\<close> does, they come by increasing key. By the letter of the C++ standard \<open>prelude\<close>, which always
  starts four sorting threads, has no defined result.
\<close>

theorem sorted_lower_partitions:
  assumes "prelude s = Some s1" "scan_valid s1" "0 < k" "ns_totalsize ns = k" "get_bytes (Schema_of_NewSchema ns) = k" "length seqs \<in> {1, 2, 4}"
    and "length junk = BLOCK_SIZE" "\<And>i. length (junks i) = BLOCK_SIZE" "length (scan_rest s1) < fuel"
    and "\<forall>i \<in> set (scan_rest s1). image_count i * k \<le> BLOCK_SIZE \<and> length i = BLOCK_SIZE"
    and "ts = concat (map (image_tuples k) (scan_rest s1))" "\<forall>t \<in> set ts. rng t \<noteq> None" "distinct (map kt ts)"
  shows "SL_prelude True prelude Scan_execute fuel ns seqs junk junks s = None
    \<and> (\<exists>st st1. SL_prelude False prelude Scan_execute fuel ns seqs junk junks s = Some st \<and> lw_start st = Some st1
    \<and> lw_fresh k (length seqs) st1
    \<and> (\<forall>c < length seqs. sorted (map kt (rev (lw_new_ranges st1 ! c)))
         \<and> mset (lw_new_ranges st1 ! c) = mset (filter (\<lambda>t. \<exists>r. rng t = Some r \<and> r div (CPU_CORE div length seqs) = c) ts)))"
proof -
  let ?n = "length seqs" and ?mul = "CPU_CORE div length seqs"
  obtain bs where bs: "lw_read Scan_execute junk k fuel s1 (mk_Block junk k) [] = Some bs"
    "list_all2 (\<lambda>b i. std_block k b \<and> blk_mem b = i) bs (scan_rest s1)"
    using sc.lw_read_rest [of s1 k "mk_Block junk k" junk fuel "[]"] assms(2,7,9,10) by auto
  have tss: "those (map block_tuples bs) = Some (map (image_tuples k) (scan_rest s1))" using blocks_tuples [OF bs(2) assms(3)] assms(10) by blast
  obtain rs rs' where rs: "lw_partition (map range_bound [0..<CPU_CORE]) 0 ts (replicate CPU_CORE []) = Some rs" "those (map (single_sort1 False) rs) = Some rs'"
    "length rs = CPU_CORE" "length rs' = CPU_CORE" "mset (concat rs) = mset ts" "\<forall>r < CPU_CORE. \<forall>t \<in> set (rs ! r). rng t = Some r"
    "\<forall>r < CPU_CORE. mset (rs' ! r) = mset (rs ! r) \<and> desc_sorted (rs' ! r)"
    "\<forall>r r' t t'. r < r' \<longrightarrow> r' < CPU_CORE \<longrightarrow> t \<in> set (rs ! r) \<longrightarrow> t' \<in> set (rs ! r') \<longrightarrow> kt t \<le> kt t'"
    using sort_parted [OF assms(12,13)] by blast
  define st where "st = \<lparr>lw_seqs = ?n, lw_totalsize = k, lw_ranges = rs', lw_new_ranges = [],
    lw_buffers = map (\<lambda>i. mk_Block (junks i) k) [0..<CPU_CORE], lw_emptys = 0, lw_one_empty = False, lw_oks = [], lw_out = replicate ?n []\<rparr>"
  define st1 where "st1 = st\<lparr>lw_oks := replicate CPU_CORE False, lw_new_ranges := map (new_range ?mul rs') [0..<?n]\<rparr>"
  have mul: "0 < ?mul" "(1 + c) * ?mul \<le> length rs" "?n \<le> CPU_CORE" "?n \<noteq> 0" if "c < ?n" for c
    using assms(6) that rs(3) by (auto simp: CPU_CORE_def)
  have nr: "sorted (map kt (rev (lw_new_ranges st1 ! c)))"
    "mset (lw_new_ranges st1 ! c) = mset (filter (\<lambda>t. \<exists>r. rng t = Some r \<and> r div ?mul = c) ts)" if c: "c < ?n" for c
  proof -
    note sp = new_range_spec [where rs = rs and rs' = rs' and c = c and mul = ?mul, unfolded rs(3), OF rs(6,4,7) _ mul(2,1) [OF c, unfolded rs(3)]]
    show "sorted (map kt (rev (lw_new_ranges st1 ! c)))" using sp(1) rs(8) c by (simp add: st1_def)
    show "mset (lw_new_ranges st1 ! c) = mset (filter (\<lambda>t. \<exists>r. rng t = Some r \<and> r div ?mul = c) ts)"
      using sp(2) rs(5,8) c by (simp add: st1_def)
  qed
  have "set (lw_new_ranges st1 ! c) \<subseteq> set ts" if "c < ?n" for c
    using arg_cong [OF nr(2) [OF that], of set_mset] by auto
  moreover have "length t = k" if "t \<in> set ts" for t
  proof -
    from that obtain i where "i \<in> set (scan_rest s1)" "t \<in> set (image_tuples k i)" by (auto simp: assms(11))
    then show ?thesis using assms(10) length_image_tuple by blast
  qed
  moreover have "length (lw_new_ranges st1) = ?n" by (simp add: st1_def)
  ultimately have "list_all (list_all (\<lambda>t. length t = k)) (lw_new_ranges st1)"
    unfolding list_all_iff by (metis in_set_conv_nth subsetD)
  then have "lw_fresh k ?n st1" using assms(6,8) unfolding lw_fresh_def
    by (auto simp: st1_def st_def list_all_iff blk_empty_def CPU_CORE_def BLOCK_SIZE_def)
  moreover have "SL_prelude False prelude Scan_execute fuel ns seqs junk junks s = Some st"
    using assms(1,4,5) bs(1) tss rs(1,2) by (simp add: SL_prelude_def st_def ns_get_bytes_def assms(11))
  moreover have "lw_start st = Some st1" using assms(6) by (auto simp: lw_start_def st1_def st_def)
  moreover note SL_prelude_strict [of prelude Scan_execute fuel ns seqs junk junks s]
  ultimately show ?thesis using nr by blast
qed

section \<open>Blocks that are put more than once\<close>

text \<open>The blocks a destination's stream is cut into, \<open>F\<close> tuples each.\<close>

function chunks :: "nat \<Rightarrow> 'a list \<Rightarrow> 'a list list" where
  "chunks F xs = (if xs = [] \<or> F = 0 then [] else take F xs # chunks F (drop F xs))"
  by pat_completeness auto
termination by (relation "measure (\<lambda>(F, xs). length xs)") auto

declare chunks.simps [simp del]

lemma chunks_Nil [simp]: "chunks F [] = []"
  by (simp add: chunks.simps)

lemma chunks_Cons: "xs \<noteq> [] \<Longrightarrow> 0 < F \<Longrightarrow> chunks F xs = take F xs # chunks F (drop F xs)"
  by (subst chunks.simps) simp

text \<open>
  What the reader of an image sees of the tuples \<open>ch\<close> its block was filled with. \<open>assembling\<close> always writes the count of a
  full block: behind the tuples of a block that was not full, the reader sees what was there before.
\<close>

definition shows_chunk :: "nat \<Rightarrow> bytes \<Rightarrow> bytes list \<Rightarrow> bool" where
  "shows_chunk k i ch \<longleftrightarrow> image_count i = (BLOCK_SIZE - 4) div k \<and> take (length ch) (image_tuples k i) = take ((BLOCK_SIZE - 4) div k) ch"

text \<open>A block with the tuples \<open>cur\<close>, of which the first \<open>(BLOCK_SIZE - 4) div k\<close> may be all that is left.\<close>

definition ready :: "nat \<Rightarrow> block \<Rightarrow> bytes list \<Rightarrow> bool" where
  "ready k b cur \<longleftrightarrow> std_block k b \<and> blk_ok b \<and> blk_free b = length cur * k \<and> list_all (\<lambda>t. length t = k) cur
     \<and> take (length (take ((BLOCK_SIZE - 4) div k) cur) * k) (blk_mem b) = concat (take ((BLOCK_SIZE - 4) div k) cur)"

lemma ready_holds:
  assumes "std_block k b" "blk_ok b" "holds b cur"
  shows "ready k b cur"
proof -
  let ?V = "(BLOCK_SIZE - 4) div k"
  let ?n = "length (take ?V cur)"
  have h: "take (blk_free b) (blk_mem b) = concat cur" "list_all (\<lambda>t. length t = k) cur" "blk_free b = length cur * k"
    using assms(1,3) unfolding holds_def std_block_def by auto
  have n: "?n \<le> length cur" "take ?n cur = take ?V cur" by (simp_all add: min_def)
  have "take (?n * k) (blk_mem b) = take (?n * k) (take (blk_free b) (blk_mem b))" using n(1) h(3) by (simp add: min_def)
  also have "\<dots> = concat (take ?V cur)" using take_concat_uniform [OF h(2) n(1)] unfolding h(1) n(2) .
  finally show ?thesis using assms(1,2) h(2,3) unfolding ready_def by blast
qed

lemma ready_empty: "ready k b cur \<Longrightarrow> 0 < k \<Longrightarrow> blk_empty b \<longleftrightarrow> cur = []"
  by (auto simp: ready_def blk_empty_def)

lemma ready_reset: "ready k b cur \<Longrightarrow> ready k (blk_reset b) []"
  by (simp add: ready_def std_block_def)

lemma assembling_ready:
  assumes r: "ready k b cur" and k: "0 < k"
  shows "\<exists>b'. assembling b BLOCK_SIZE k = Some b' \<and> ready k b' cur \<and> shows_chunk k (blk_mem b') cur \<and> big_block b' \<and> blk_image b' = blk_mem b'"
proof -
  let ?V = "(BLOCK_SIZE - 4) div k"
  let ?us = "take ?V cur"
  have std: "length (blk_mem b) = BLOCK_SIZE" "blk_size b = BLOCK_SIZE" "blk_tuple_size b = k" using r by (simp_all add: ready_def std_block_def)
  obtain m where m: "wr_u32 (blk_mem b) (BLOCK_SIZE - 4) ?V = Some m" using std by (auto simp: wr_u32_def wr_bytes_def BLOCK_SIZE_def)
  have lm: "length m = BLOCK_SIZE" using m std by (auto simp: wr_u32_def dest: wr_bytes_length)
  let ?b = "b\<lparr>blk_mem := m, blk_size := BLOCK_SIZE\<rparr>"
  have a: "assembling b BLOCK_SIZE k = Some ?b" using m k by (simp add: assembling_def BLOCK_SIZE_def)
  have "?V * k \<le> BLOCK_SIZE - 4" by (rule div_times_less_eq_dividend)
  then have V: "length ?us * k \<le> BLOCK_SIZE - 4" by (rule le_trans [rotated]) simp
  have "take (length ?us * k) m = take (length ?us * k) (blk_mem b)" using wr_u32_prefix [OF m V] .
  then have pre: "take (length ?us * k) m = concat ?us" using r by (simp add: ready_def)
  have rd: "ready k ?b cur" using r pre lm std by (auto simp: ready_def std_block_def blk_ok_def BLOCK_SIZE_def)
  have "?V \<le> BLOCK_SIZE - 4" by (rule div_le_dividend)
  then have "?V < 2 ^ 32" by (rule le_less_trans) (simp add: BLOCK_SIZE_def)
  then have "rd_u32 m (BLOCK_SIZE - 4) = Some ?V" using rd_u32_wr_u32 [OF m] by simp
  then have c: "image_count m = ?V"
    using std_block_get_size [of k ?b] lm std(3) by (simp add: std_block_def get_size_def BLOCK_SIZE_def)
  have u: "list_all (\<lambda>t. length t = k) ?us" using r by (auto simp: ready_def list_all_iff dest: in_set_takeD)
  have "take (length cur) (image_tuples k m) = ?us"
  proof (rule nth_equalityI)
    show "length (take (length cur) (image_tuples k m)) = length ?us" using c by (simp add: min.commute)
    fix j assume "j < length (take (length cur) (image_tuples k m))"
    then have j: "j < length ?us" "j < ?V" "j < length cur" using c by simp_all
    have "m = concat ?us @ drop (length ?us * k) m" using pre by (metis append_take_drop_id)
    then have "take k (drop (j * k) m) = ?us ! j" using nth_concat_uniform [OF u j(1)] by metis
    then show "take (length cur) (image_tuples k m) ! j = ?us ! j" using j c by (simp add: image_tuples_def)
  qed
  then have "shows_chunk k m cur" using c by (simp add: shows_chunk_def)
  moreover have "big_block ?b" "blk_image ?b = blk_mem ?b" using lm by (simp_all add: big_block_def)
  ultimately show ?thesis using a rd by (intro exI [of _ ?b]) simp
qed

lemma lw_fill_spec:
  assumes "0 < k" "std_block k b" "blk_ok b" "holds b us" "rg \<noteq> []" "list_all (\<lambda>t. length t = k) rg" "F = BLOCK_SIZE div k" "d = F - length us"
  shows "\<exists>rg' b'. lw_fill rg b = Some (rg', b') \<and> std_block k b' \<and> blk_ok b' \<and> rev rg' = drop d (rev rg) \<and> holds b' (us @ take d (rev rg))"
  using assms(2-6,8)
proof (induction rg arbitrary: us b d rule: rev_induct)
  case (snoc x xs)
  show ?case
  proof (cases "allocateTuple b")
    case None
    then have "d = 0" using holds_length [OF snoc.prems(3,1) assms(1)] snoc.prems(6) assms(7) by simp
    then show ?thesis using None snoc.prems by (simp add: lw_fill.simps)
  next
    case (Some desc)
    have k: "blk_tuple_size b = k" "length x = k" using snoc.prems(1,5) by (simp_all add: std_block_def)
    obtain b1 where b1: "storeTuple b desc x = Some b1" "blk_ok b1" "holds b1 (us @ [x])" "blk_size b1 = blk_size b" "blk_tuple_size b1 = blk_tuple_size b"
      using storeTuple_spec [OF snoc.prems(2,3) _ Some] k by auto
    have s1: "std_block k b1" using b1 snoc.prems(1) by (auto simp: std_block_def blk_ok_def)
    obtain d' where d: "d = Suc d'" "d' = F - length (us @ [x])"
      using holds_length [OF snoc.prems(3,1) assms(1)] snoc.prems(6) assms(7) Some by (cases d) auto
    show ?thesis
    proof (cases "xs = []")
      case True
      then show ?thesis using Some b1 s1 d by (simp add: lw_fill.simps)
    next
      case False
      obtain rg' b' where "lw_fill xs b1 = Some (rg', b')" "std_block k b'" "blk_ok b'" "rev rg' = drop d' (rev xs)" "holds b' ((us @ [x]) @ take d' (rev xs))"
        using snoc.IH [OF s1 b1(2,3) False _ d(2)] snoc.prems(5) by auto
      moreover have "lw_fill (xs @ [x]) b = lw_fill xs b1" using Some b1(1) False by (subst lw_fill.simps) simp
      ultimately show ?thesis using d(1) by simp
    qed
  qed
qed simp

section \<open>The loops\<close>

text \<open>
  A destination before its range is used up: its column shows the chunks that are done, and the block the next one.
  Once all ranges are used up only the last chunk is still in question.
\<close>

definition col_inv :: "nat \<Rightarrow> bytes list \<Rightarrow> bytes list \<Rightarrow> block \<Rightarrow> bytes list \<Rightarrow> bool" where
  "col_inv k xs rg b out \<longleftrightarrow> (\<exists>dn cur. ready k b cur \<and> list_all (\<lambda>t. length t = k) rg
     \<and> chunks (BLOCK_SIZE div k) (rev xs) = dn @ (if cur = [] then [] else [cur]) @ chunks (BLOCK_SIZE div k) (rev rg)
     \<and> list_all2 (shows_chunk k) out dn)"

definition fin_inv :: "nat \<Rightarrow> bytes list \<Rightarrow> block \<Rightarrow> bytes list \<Rightarrow> bool" where
  "fin_inv k xs b out \<longleftrightarrow> (let chs = chunks (BLOCK_SIZE div k) (rev xs) in
     \<exists>m cur. ready k b cur \<and> (cur = [] \<or> cur = last chs) \<and> list_all2 (shows_chunk k) out (butlast chs @ replicate m (last chs)))"

lemma fin_inv_end:
  assumes "col_inv k xs [] b out" "xs \<noteq> []" "0 < k" "k \<le> BLOCK_SIZE"
  shows "fin_inv k xs b out"
proof -
  let ?chs = "chunks (BLOCK_SIZE div k) (rev xs)"
  obtain dn cur where c: "ready k b cur" "?chs = dn @ (if cur = [] then [] else [cur])" "list_all2 (shows_chunk k) out dn"
    using assms(1) by (auto simp: col_inv_def)
  have ne: "?chs \<noteq> []" using assms(2-4) chunks_Cons [of "rev xs" "BLOCK_SIZE div k"] by (simp add: div_greater_zero_iff)
  show ?thesis
  proof (cases "cur = []")
    case True
    then have "butlast ?chs @ replicate 1 (last ?chs) = dn" using c(2) ne by simp
    then have "list_all2 (shows_chunk k) out (butlast ?chs @ replicate 1 (last ?chs))" using c(3) by simp
    then show ?thesis using c(1) True unfolding fin_inv_def Let_def by blast
  next
    case False
    then have "butlast ?chs @ replicate 0 (last ?chs) = dn" "cur = last ?chs" using c(2) by simp_all
    then have "list_all2 (shows_chunk k) out (butlast ?chs @ replicate 0 (last ?chs))" using c(3) by simp
    then show ?thesis using c(1) \<open>cur = last ?chs\<close> unfolding fin_inv_def Let_def by blast
  qed
qed

lemma col_inv_range: "col_inv k xs rg b out \<Longrightarrow> 0 < k \<Longrightarrow> k \<le> BLOCK_SIZE \<Longrightarrow> rg \<noteq> [] \<Longrightarrow> xs \<noteq> []"
  using chunks_Cons [of "rev rg" "BLOCK_SIZE div k"] by (auto simp: col_inv_def div_greater_zero_iff)

lemma col_inv_fill:
  assumes "col_inv k xs rg b out" "blk_empty b" "rg \<noteq> []" "0 < k" "k \<le> BLOCK_SIZE"
  shows "\<exists>rg' b'. lw_fill rg b = Some (rg', b') \<and> length rg' < length rg \<and> col_inv k xs rg' b' out"
proof -
  let ?F = "BLOCK_SIZE div k"
  have F: "0 < ?F" using assms(4,5) by (simp add: div_greater_zero_iff)
  obtain dn where c: "ready k b []" "list_all (\<lambda>t. length t = k) rg" "chunks ?F (rev xs) = dn @ chunks ?F (rev rg)" "list_all2 (shows_chunk k) out dn"
    using assms(1) ready_empty [OF _ assms(4)] assms(2) unfolding col_inv_def by auto
  have b: "std_block k b" "blk_ok b" "holds b []" using c(1) by (simp_all add: ready_def holds_def)
  obtain rg' b' where f: "lw_fill rg b = Some (rg', b')" "std_block k b'" "blk_ok b'" "rev rg' = drop ?F (rev rg)" "holds b' (take ?F (rev rg))"
    using lw_fill_spec [OF assms(4) b assms(3) c(2) refl refl] by auto
  have less: "length rg' < length rg" using arg_cong [OF f(4), of length] F assms(3) by (cases rg) auto
  have len: "list_all (\<lambda>t. length t = k) rg'" using arg_cong [OF f(4), of set] c(2) by (auto simp: list_all_iff dest: in_set_dropD)
  have chs: "chunks ?F (rev xs) = dn @ [take ?F (rev rg)] @ chunks ?F (rev rg')" using c(3) chunks_Cons [of "rev rg" ?F] F assms(3) f(4) by simp
  have "col_inv k xs rg' b' out"
    unfolding col_inv_def chs using ready_holds [OF f(2,3,5)] c(4) len F assms(3) by (intro exI [of _ dn] exI [of _ "take ?F (rev rg)"]) auto
  then show ?thesis using f(1) less by blast
qed

lemma col_inv_put:
  assumes "col_inv k xs rg b out" "\<not> blk_empty b" "0 < k"
  shows "\<exists>b'. assembling b BLOCK_SIZE k = Some b' \<and> big_block b' \<and> col_inv k xs rg b' out \<and> col_inv k xs rg (blk_reset b') (out @ [blk_image b'])"
proof -
  obtain dn cur where c: "ready k b cur" "list_all (\<lambda>t. length t = k) rg" "list_all2 (shows_chunk k) out dn" "cur \<noteq> []"
    "chunks (BLOCK_SIZE div k) (rev xs) = dn @ [cur] @ chunks (BLOCK_SIZE div k) (rev rg)"
    using assms(1,2) ready_empty [OF _ assms(3)] unfolding col_inv_def by auto
  obtain b' where a: "assembling b BLOCK_SIZE k = Some b'" "ready k b' cur" "shows_chunk k (blk_mem b') cur" "big_block b'" "blk_image b' = blk_mem b'"
    using assembling_ready [OF c(1) assms(3)] by blast
  have "col_inv k xs rg b' out" unfolding col_inv_def using a(2) c by (intro exI [of _ dn] exI [of _ cur]) simp
  moreover have "col_inv k xs rg (blk_reset b') (out @ [blk_image b'])"
    unfolding col_inv_def using ready_reset [OF a(2)] a(3,5) c by (intro exI [of _ "dn @ [cur]"] exI [of _ "[]"]) (simp add: list_all2_appendI)
  ultimately show ?thesis using a(1,4) by blast
qed

lemma fin_inv_put:
  assumes "fin_inv k xs b out" "\<not> blk_empty b" "0 < k"
  shows "\<exists>b'. assembling b BLOCK_SIZE k = Some b' \<and> big_block b' \<and> fin_inv k xs b' (out @ [blk_image b']) \<and> fin_inv k xs (blk_reset b') out"
proof -
  let ?chs = "chunks (BLOCK_SIZE div k) (rev xs)"
  obtain m where c: "ready k b (last ?chs)" "list_all2 (shows_chunk k) out (butlast ?chs @ replicate m (last ?chs))"
    using assms(1,2) ready_empty [OF _ assms(3)] unfolding fin_inv_def Let_def by auto
  obtain b' where a: "assembling b BLOCK_SIZE k = Some b'" "ready k b' (last ?chs)" "shows_chunk k (blk_mem b') (last ?chs)" "big_block b'" "blk_image b' = blk_mem b'"
    using assembling_ready [OF c(1) assms(3)] by blast
  have "list_all2 (shows_chunk k) (out @ [blk_image b']) (butlast ?chs @ replicate (Suc m) (last ?chs))"
    using list_all2_appendI [OF c(2), of "[blk_image b']" "[last ?chs]"] a(3,5) by (simp add: replicate_append_same [symmetric])
  then have "fin_inv k xs b' (out @ [blk_image b'])" using a(2) unfolding fin_inv_def Let_def by blast
  moreover have "fin_inv k xs (blk_reset b') out" using ready_reset [OF a(2)] c(2) unfolding fin_inv_def Let_def by blast
  ultimately show ?thesis using a(1,4) by blast
qed

text \<open>The whole state, before and after all ranges are used up; \<open>X\<close> are the ranges at the start.\<close>

definition lw_dims :: "nat \<Rightarrow> nat \<Rightarrow> bytes list list \<Rightarrow> shuffle_lower \<Rightarrow> bool" where
  "lw_dims k n X st \<longleftrightarrow> 0 < k \<and> k \<le> BLOCK_SIZE \<and> n \<le> CPU_CORE \<and> length X = n \<and> lw_seqs st = n \<and> lw_totalsize st = k
     \<and> length (lw_new_ranges st) = n \<and> length (lw_buffers st) = CPU_CORE \<and> length (lw_oks st) = CPU_CORE \<and> length (lw_out st) = n"

definition used_up :: "bytes list list \<Rightarrow> shuffle_lower \<Rightarrow> nat set" where
  "used_up X st = {c. c < length X \<and> X ! c \<noteq> [] \<and> lw_new_ranges st ! c = []}"

definition run_inv :: "nat \<Rightarrow> nat \<Rightarrow> bytes list list \<Rightarrow> shuffle_lower \<Rightarrow> bool" where
  "run_inv k n X st \<longleftrightarrow> lw_dims k n X st \<and> lw_emptys st = card (used_up X st) \<and> (lw_one_empty st \<longleftrightarrow> lw_emptys st = n)
     \<and> (\<forall>c < n. col_inv k (X ! c) (lw_new_ranges st ! c) (lw_buffers st ! c) (lw_out st ! c))"

definition end_inv :: "nat \<Rightarrow> nat \<Rightarrow> bytes list list \<Rightarrow> shuffle_lower \<Rightarrow> bool" where
  "end_inv k n X st \<longleftrightarrow> lw_dims k n X st \<and> lw_one_empty st \<and> (\<forall>c < n. X ! c \<noteq> [] \<and> fin_inv k (X ! c) (lw_buffers st ! c) (lw_out st ! c))"

lemma used_up_all: "finite (used_up X st)" "card (used_up X st) = length X \<Longrightarrow> c < length X \<Longrightarrow> X ! c \<noteq> [] \<and> lw_new_ranges st ! c = []"
proof -
  have sub: "used_up X st \<subseteq> {..<length X}" by (auto simp: used_up_def)
  then show "finite (used_up X st)" by (rule finite_subset) simp
  assume "card (used_up X st) = length X" "c < length X"
  then have "used_up X st = {..<length X}" using card_subset_eq [OF _ sub] by simp
  then show "X ! c \<noteq> [] \<and> lw_new_ranges st ! c = []" using \<open>c < length X\<close> by (auto simp: used_up_def)
qed

lemma run_inv_end: "run_inv k n X st \<Longrightarrow> lw_one_empty st \<Longrightarrow> end_inv k n X st"
  using used_up_all(2) [of X st] fin_inv_end by (auto simp: run_inv_def end_inv_def lw_dims_def)

definition left_over :: "shuffle_lower \<Rightarrow> nat" where
  "left_over st = sum_list (map length (lw_new_ranges st))"

lemma left_over_update:
  assumes "i < length (lw_new_ranges st)" "length rg < length (lw_new_ranges st ! i)"
  shows "left_over (st\<lparr>lw_new_ranges := (lw_new_ranges st)[i := rg], lw_buffers := bs, lw_emptys := e, lw_one_empty := f\<rparr>) < left_over st"
proof -
  have "lw_new_ranges st = take i (lw_new_ranges st) @ lw_new_ranges st ! i # drop (Suc i) (lw_new_ranges st)" using assms(1) by (rule id_take_nth_drop)
  then have "left_over st = sum_list (map length (take i (lw_new_ranges st))) + length (lw_new_ranges st ! i) + sum_list (map length (drop (Suc i) (lw_new_ranges st)))"
    unfolding left_over_def by (metis add.assoc list.simps(9) map_append sum_list.Cons sum_list_append)
  then show ?thesis using assms by (simp add: left_over_def upd_conv_take_nth_drop)
qed

lemma lw_gather_step:
  assumes inv: "run_inv k n X st" and i: "i < n" and c: "blk_empty (lw_buffers st ! i)" "lw_new_ranges st ! i \<noteq> []"
  shows "\<exists>st'. lw_gather (i # is) st = lw_gather is st' \<and> run_inv k n X st' \<and> left_over st' < left_over st
    \<and> lw_oks st' = lw_oks st"
proof -
  have dim: "lw_dims k n X st" and col: "\<forall>c < n. col_inv k (X ! c) (lw_new_ranges st ! c) (lw_buffers st ! c) (lw_out st ! c)"
    and e: "lw_emptys st = card (used_up X st)" "lw_one_empty st \<longleftrightarrow> lw_emptys st = n" using inv by (simp_all add: run_inv_def)
  note d = dim [unfolded lw_dims_def]
  obtain rg b where f: "lw_fill (lw_new_ranges st ! i) (lw_buffers st ! i) = Some (rg, b)" "length rg < length (lw_new_ranges st ! i)"
    "col_inv k (X ! i) rg b (lw_out st ! i)"
    using col_inv_fill [OF col [rule_format, OF i] c] d by blast
  have X: "X ! i \<noteq> []" using col_inv_range [OF col [rule_format, OF i] _ _ c(2)] d by blast
  have nf: "\<not> lw_one_empty st" using used_up_all(2) [of X st i] e d i c(2) by auto
  let ?e = "if rg = [] then lw_emptys st + 1 else lw_emptys st"
  define st' where "st' = st\<lparr>lw_new_ranges := (lw_new_ranges st)[i := rg], lw_buffers := (lw_buffers st)[i := b], lw_emptys := ?e,
     lw_one_empty := (lw_one_empty st \<or> rg = [] \<and> ?e = lw_seqs st)\<rparr>"
  have "used_up X st' = (if rg = [] then insert i (used_up X st) else used_up X st)"
    using i d X c(2) by (auto simp: used_up_def st'_def nth_list_update split: if_splits)
  moreover have "i \<notin> used_up X st" using c(2) by (simp add: used_up_def)
  ultimately have "?e = card (used_up X st')" using e(1) used_up_all(1) [of X st] by simp
  moreover have "lw_one_empty st' \<longleftrightarrow> ?e = n" using nf e(2) d by (simp add: st'_def)
  moreover have "lw_dims k n X st'" using dim by (simp add: lw_dims_def st'_def)
  moreover have "\<forall>c < n. col_inv k (X ! c) (lw_new_ranges st' ! c) (lw_buffers st' ! c) (lw_out st' ! c)"
    using col f(3) d i by (auto simp: st'_def nth_list_update)
  ultimately have "run_inv k n X st'" by (simp add: run_inv_def) (simp add: st'_def)
  moreover have "lw_gather (i # is) st = lw_gather is st'" using d i c f(1) by (simp add: st'_def Let_def)
  moreover have "left_over st' < left_over st" unfolding st'_def by (rule left_over_update) (use d i f(2) in simp_all)
  ultimately show ?thesis by (intro exI [of _ st']) (simp add: st'_def)
qed

lemma lw_gather_spec:
  assumes "run_inv k n X st" "set is \<subseteq> {..<n}"
  shows "\<exists>st'. lw_gather is st = Some st' \<and> run_inv k n X st' \<and> left_over st' \<le> left_over st
    \<and> ((\<exists>i \<in> set is. blk_empty (lw_buffers st ! i) \<and> lw_new_ranges st ! i \<noteq> []) \<longrightarrow> left_over st' < left_over st)"
  using assms
proof (induction "is" arbitrary: st)
  case (Cons i "is")
  have i: "i < n" "i < length (lw_buffers st)" "set is \<subseteq> {..<n}" using Cons.prems by (auto simp: run_inv_def lw_dims_def)
  show ?case
  proof (cases "blk_empty (lw_buffers st ! i) \<and> lw_new_ranges st ! i \<noteq> []")
    case True
    then obtain st1 where st1: "lw_gather (i # is) st = lw_gather is st1" "run_inv k n X st1" "left_over st1 < left_over st"
      using lw_gather_step [OF Cons.prems(1) i(1)] by blast
    from Cons.IH [OF st1(2) i(3)] obtain st' where "lw_gather is st1 = Some st'" "run_inv k n X st'" "left_over st' \<le> left_over st1" by blast
    then show ?thesis using st1 by auto
  next
    case False
    then have "lw_gather (i # is) st = lw_gather is st" using i(2) by auto
    then show ?thesis using Cons.IH [OF Cons.prems(1) i(3)] False by auto
  qed
qed simp

lemma run_inv_update:
  assumes "run_inv k n X st" "i < n" "col_inv k (X ! i) (lw_new_ranges st ! i) b out"
  shows "run_inv k n X (st\<lparr>lw_buffers := (lw_buffers st)[i := b], lw_out := (lw_out st)[i := out]\<rparr>)"
  using assms by (auto simp: run_inv_def lw_dims_def used_up_def nth_list_update)

lemma end_inv_update:
  assumes "end_inv k n X st" "i < n" "fin_inv k (X ! i) b out"
  shows "end_inv k n X (st\<lparr>lw_buffers := (lw_buffers st)[i := b], lw_out := (lw_out st)[i := out], lw_oks := oks'\<rparr>) \<longleftrightarrow> length oks' = CPU_CORE"
  using assms by (auto simp: end_inv_def lw_dims_def nth_list_update)

lemma lw_send_spec:
  assumes "run_inv k n X st" "set is \<subseteq> {..<n}"
  shows "\<exists>st'. lw_send puts is st = Some st' \<and> run_inv k n X st' \<and> lw_new_ranges st' = lw_new_ranges st \<and> lw_one_empty st' = lw_one_empty st
    \<and> (\<forall>c < n. blk_empty (lw_buffers st ! c) \<or> c \<in> set is \<and> puts ! c \<longrightarrow> blk_empty (lw_buffers st' ! c))"
  using assms
proof (induction "is" arbitrary: st)
  case (Cons i "is")
  have i: "i < n" "i < length (lw_buffers st)" "i < length (lw_out st)" "set is \<subseteq> {..<n}" "lw_totalsize st = k" "0 < k"
    using Cons.prems by (auto simp: run_inv_def lw_dims_def)
  show ?case
  proof (cases "blk_empty (lw_buffers st ! i)")
    case True
    then show ?thesis using Cons.IH [OF Cons.prems(1) i(4)] by auto
  next
    case False
    have "col_inv k (X ! i) (lw_new_ranges st ! i) (lw_buffers st ! i) (lw_out st ! i)" using Cons.prems(1) i(1) by (simp add: run_inv_def)
    from col_inv_put [OF this False i(6)] obtain b where b: "assembling (lw_buffers st ! i) BLOCK_SIZE k = Some b" "big_block b"
      "col_inv k (X ! i) (lw_new_ranges st ! i) b (lw_out st ! i)" "col_inv k (X ! i) (lw_new_ranges st ! i) (blk_reset b) (lw_out st ! i @ [blk_image b])"
      by blast
    define st1 where "st1 = (if puts ! i then st\<lparr>lw_buffers := (lw_buffers st)[i := blk_reset b], lw_out := (lw_out st)[i := lw_out st ! i @ [blk_image b]]\<rparr>
       else st\<lparr>lw_buffers := (lw_buffers st)[i := b]\<rparr>)"
    have inv: "run_inv k n X st1"
      using run_inv_update [OF Cons.prems(1) i(1) b(3)] run_inv_update [OF Cons.prems(1) i(1) b(4)] by (simp add: st1_def)
    have step: "lw_send puts (i # is) st = lw_send puts is st1" using False b i by (simp add: st1_def put_wait_def)
    have same: "lw_new_ranges st1 = lw_new_ranges st" "lw_one_empty st1 = lw_one_empty st" by (simp_all add: st1_def)
    have emp: "blk_empty (lw_buffers st1 ! c)" if "blk_empty (lw_buffers st ! c) \<or> c = i \<and> puts ! i" for c
      using that False i by (auto simp: st1_def nth_list_update blk_empty_def)
    from Cons.IH [OF inv i(4)] obtain st' where st': "lw_send puts is st1 = Some st'" "run_inv k n X st'" "lw_new_ranges st' = lw_new_ranges st1"
      "lw_one_empty st' = lw_one_empty st1" "\<forall>c < n. blk_empty (lw_buffers st1 ! c) \<or> c \<in> set is \<and> puts ! c \<longrightarrow> blk_empty (lw_buffers st' ! c)" by blast
    have "\<forall>c < n. blk_empty (lw_buffers st ! c) \<or> c \<in> set (i # is) \<and> puts ! c \<longrightarrow> blk_empty (lw_buffers st' ! c)"
      using st'(5) emp by auto
    then show ?thesis using step st'(1-4) same by (intro exI [of _ st']) simp
  qed
qed simp

lemma lw_flush_spec:
  assumes "end_inv k n X st" "set is \<subseteq> {..<n}"
  shows "\<exists>st'. lw_flush puts is st = Some st' \<and> end_inv k n X st' \<and> (\<forall>c < n. lw_oks st ! c \<or> c \<in> set is \<and> \<not> puts ! c \<longrightarrow> lw_oks st' ! c)"
  using assms
proof (induction "is" arbitrary: st)
  case (Cons i "is")
  have i: "i < n" "i < length (lw_buffers st)" "i < length (lw_out st)" "set is \<subseteq> {..<n}" "lw_totalsize st = k" "0 < k" "length (lw_oks st) = CPU_CORE" "i < length (lw_oks st)"
    and fin: "fin_inv k (X ! i) (lw_buffers st ! i) (lw_out st ! i)"
    using Cons.prems by (auto simp: end_inv_def lw_dims_def)
  have "\<exists>st1. lw_flush puts (i # is) st = lw_flush puts is st1 \<and> end_inv k n X st1 \<and> (\<forall>c. lw_oks st ! c \<or> c = i \<and> \<not> puts ! i \<longrightarrow> lw_oks st1 ! c)"
  proof (cases "blk_empty (lw_buffers st ! i)")
    case True
    then show ?thesis using end_inv_update [OF Cons.prems(1) i(1) fin, of "(lw_oks st)[i := True]"] i
      by (intro exI [of _ "st\<lparr>lw_oks := (lw_oks st)[i := True]\<rparr>"]) (auto simp: nth_list_update)
  next
    case False
    from fin_inv_put [OF fin False i(6)] obtain b where b: "assembling (lw_buffers st ! i) BLOCK_SIZE k = Some b" "big_block b"
      "fin_inv k (X ! i) b (lw_out st ! i @ [blk_image b])" "fin_inv k (X ! i) (blk_reset b) (lw_out st ! i)"
      by blast
    define st1 where "st1 = (if puts ! i then st\<lparr>lw_buffers := (lw_buffers st)[i := b], lw_out := (lw_out st)[i := lw_out st ! i @ [blk_image b]]\<rparr>
       else st\<lparr>lw_buffers := (lw_buffers st)[i := blk_reset b], lw_oks := (lw_oks st)[i := True]\<rparr>)"
    have "end_inv k n X st1"
      using end_inv_update [OF Cons.prems(1) i(1) b(3), of "lw_oks st"] end_inv_update [OF Cons.prems(1) i(1) b(4), of "(lw_oks st)[i := True]"] i(7)
      by (simp add: st1_def)
    moreover have "lw_flush puts (i # is) st = lw_flush puts is st1" using False b i by (simp add: st1_def put_wait_def)
    moreover have "\<forall>c. lw_oks st ! c \<or> c = i \<and> \<not> puts ! i \<longrightarrow> lw_oks st1 ! c" using i(8) by (auto simp: st1_def nth_list_update)
    ultimately show ?thesis by blast
  qed
  then obtain st1 where st1: "lw_flush puts (i # is) st = lw_flush puts is st1" "end_inv k n X st1" "\<forall>c. lw_oks st ! c \<or> c = i \<and> \<not> puts ! i \<longrightarrow> lw_oks st1 ! c"
    by blast
  from Cons.IH [OF st1(2) i(4)] st1 show ?case by auto
qed simp

text \<open>The end marks.\<close>

definition lw_ended :: "nat \<Rightarrow> nat \<Rightarrow> bytes list list \<Rightarrow> shuffle_lower \<Rightarrow> bool" where
  "lw_ended k n X st \<longleftrightarrow> (\<forall>c < n. X ! c \<noteq> [] \<and> (\<exists>js z m. lw_out st ! c = js @ [z] \<and> image_count z = 0
     \<and> list_all2 (shows_chunk k) js (butlast (chunks (BLOCK_SIZE div k) (rev (X ! c))) @ replicate m (last (chunks (BLOCK_SIZE div k) (rev (X ! c)))))))"

lemma build_zero:
  assumes "std_block k b"
  shows "\<exists>b'. build b BLOCK_SIZE 0 = Some b' \<and> std_block k b' \<and> big_block b' \<and> image_count (blk_image b') = 0"
proof -
  have std: "length (blk_mem b) = BLOCK_SIZE" "blk_size b = BLOCK_SIZE" using assms by (simp_all add: std_block_def)
  obtain b' where b': "build b BLOCK_SIZE 0 = Some b'" using std by (auto simp: build_def wr_u32_def wr_bytes_def BLOCK_SIZE_def)
  have std': "std_block k b'" using b' assms by (auto simp: build_def std_block_def wr_u32_def split: if_splits dest: wr_bytes_length)
  have "image_count (blk_mem b') = 0" using get_size_build [of b 0 b'] b' std std_block_get_size [OF std'] by simp
  then show ?thesis using b' std' by (simp add: big_block_def std_block_def)
qed

lemma lw_end_spec:
  assumes "\<forall>c < n. std_block k (lw_buffers st ! c)" "length (lw_out st) = n" "n \<le> length (lw_buffers st)" "set is \<subseteq> {..<n}" "distinct is"
  shows "\<exists>st'. lw_end is st = Some st' \<and> (\<forall>c < n. if c \<in> set is then \<exists>z. image_count z = 0 \<and> lw_out st' ! c = lw_out st ! c @ [z] else lw_out st' ! c = lw_out st ! c)"
  using assms
proof (induction "is" arbitrary: st)
  case (Cons i "is")
  have i: "i < n" "i \<notin> set is" using Cons.prems by auto
  obtain b where b: "build (lw_buffers st ! i) BLOCK_SIZE 0 = Some b" "std_block k b" "big_block b" "image_count (blk_image b) = 0"
    using build_zero Cons.prems(1) i(1) by blast
  let ?st = "st\<lparr>lw_buffers := (lw_buffers st)[i := b], lw_out := (lw_out st)[i := lw_out st ! i @ [blk_image b]]\<rparr>"
  have step: "lw_end (i # is) st = lw_end is ?st" using b i Cons.prems(2) by (simp add: put_wait_def)
  have "\<forall>c < n. std_block k (lw_buffers ?st ! c)" using Cons.prems(1,3) b(2) i(1) by (auto simp: nth_list_update)
  from Cons.IH [OF this] obtain st' where st': "lw_end is ?st = Some st'"
    "\<forall>c < n. if c \<in> set is then \<exists>z. image_count z = 0 \<and> lw_out st' ! c = lw_out ?st ! c @ [z] else lw_out st' ! c = lw_out ?st ! c"
    using Cons.prems(2-5) by auto
  have "if c \<in> set (i # is) then \<exists>z. image_count z = 0 \<and> lw_out st' ! c = lw_out st ! c @ [z] else lw_out st' ! c = lw_out st ! c" if c: "c < n" for c
    using st'(2) [rule_format, OF c] i b(4) Cons.prems(2) by (cases "c = i") (auto split: if_splits)
  then show ?case using step st'(1) by auto
qed simp

definition lw_inv :: "nat \<Rightarrow> nat \<Rightarrow> bytes list list \<Rightarrow> shuffle_lower \<Rightarrow> bool" where
  "lw_inv k n X st \<longleftrightarrow> (if lw_one_empty st then end_inv k n X st else run_inv k n X st)"

lemma lw_end_ended:
  assumes "end_inv k n X st"
  shows "\<exists>st'. lw_end [0..<n] st = Some st' \<and> lw_ended k n X st'"
proof -
  have fin: "\<forall>c < n. X ! c \<noteq> [] \<and> fin_inv k (X ! c) (lw_buffers st ! c) (lw_out st ! c)" "length (lw_out st) = n" "n \<le> length (lw_buffers st)"
    using assms by (simp_all add: end_inv_def lw_dims_def)
  have std: "\<forall>c < n. std_block k (lw_buffers st ! c)" using fin(1) by (auto simp: fin_inv_def Let_def ready_def)
  obtain st' where st': "lw_end [0..<n] st = Some st'" "\<forall>c < n. \<exists>z. image_count z = 0 \<and> lw_out st' ! c = lw_out st ! c @ [z]"
    using lw_end_spec [OF std fin(2,3), of "[0..<n]"] by (auto simp: lessThan_atLeast0)
  have "lw_ended k n X st'" unfolding lw_ended_def
  proof (intro allI impI)
    fix c assume c: "c < n"
    let ?chs = "chunks (BLOCK_SIZE div k) (rev (X ! c))"
    obtain m where "list_all2 (shows_chunk k) (lw_out st ! c) (butlast ?chs @ replicate m (last ?chs))"
      using fin(1) c unfolding fin_inv_def Let_def by blast
    then show "X ! c \<noteq> [] \<and> (\<exists>js z m. lw_out st' ! c = js @ [z] \<and> image_count z = 0
      \<and> list_all2 (shows_chunk k) js (butlast ?chs @ replicate m (last ?chs)))" using st'(2) fin(1) c by blast
  qed
  then show ?thesis using st'(1) by blast
qed

lemma lw_iter_spec:
  assumes "lw_inv k n X st"
  shows "\<exists>r. lw_iter puts st = Some r \<and> (case r of Inl st' \<Rightarrow> lw_inv k n X st' | Inr st' \<Rightarrow> lw_ended k n X st')"
proof -
  have n: "lw_seqs st = n" using assms by (auto simp: lw_inv_def run_inv_def end_inv_def lw_dims_def split: if_splits)
  have ix: "set [0..<n] \<subseteq> {..<n}" by auto
  show ?thesis
  proof (cases "lw_one_empty st")
    case True
    then have e: "end_inv k n X st" using assms by (simp add: lw_inv_def)
    obtain st1 where st1: "lw_flush puts [0..<n] st = Some st1" "end_inv k n X st1" using lw_flush_spec [OF e ix] by blast
    obtain st2 where st2: "lw_end [0..<n] st = Some st2" "lw_ended k n X st2" using lw_end_ended [OF e] by blast
    have "lw_inv k n X st1" using st1(2) by (simp add: lw_inv_def end_inv_def)
    then show ?thesis using True st1(1) st2 n by (cases "list_all ((!) (lw_oks st)) [0..<n]") (auto simp: lw_iter_def Let_def)
  next
    case False
    then have r: "run_inv k n X st" using assms by (simp add: lw_inv_def)
    obtain st1 where st1: "lw_gather [0..<n] st = Some st1" "run_inv k n X st1" using lw_gather_spec [OF r ix] by blast
    obtain st2 where st2: "lw_send puts [0..<n] st1 = Some st2" "run_inv k n X st2" "lw_one_empty st2 = lw_one_empty st1" using lw_send_spec [OF st1(2) ix] by blast
    show ?thesis
    proof (cases "lw_one_empty st1")
      case True
      then have "lw_inv k n X st1" using run_inv_end [OF st1(2)] by (simp add: lw_inv_def)
      then show ?thesis using False True st1(1) n by (simp add: lw_iter_def)
    next
      case go: False
      then have "lw_inv k n X st2" using st2(2,3) by (simp add: lw_inv_def)
      then show ?thesis using False go st1(1) st2(1) n by (simp add: lw_iter_def)
    qed
  qed
qed

lemma lw_run_spec:
  assumes "lw_inv k n X st"
  shows "\<exists>r. lw_run ps st = Some r \<and> (case r of Inl st' \<Rightarrow> lw_inv k n X st' | Inr st' \<Rightarrow> lw_ended k n X st')"
  using assms
proof (induction ps arbitrary: st)
  case (Cons p ps)
  obtain r where r: "lw_iter p st = Some r" "case r of Inl st' \<Rightarrow> lw_inv k n X st' | Inr st' \<Rightarrow> lw_ended k n X st'" using lw_iter_spec [OF Cons.prems] by blast
  then show ?case using Cons.IH by (cases r) auto
qed simp

lemma lw_run_append: "lw_run (ps @ qs) st = do { r \<leftarrow> lw_run ps st; (case r of Inl st' \<Rightarrow> lw_run qs st' | Inr st' \<Rightarrow> Some (Inr st')) }"
proof (induction ps arbitrary: st)
  case (Cons p ps)
  show ?case
  proof (cases "lw_iter p st")
    case (Some r)
    then show ?thesis using Cons.IH by (cases r) auto
  qed simp
qed simp

section \<open>What a destination receives\<close>

lemma end_inv_returns:
  assumes "end_inv k n X st"
  shows "\<exists>ps st'. lw_run ps st = Some (Inr st')"
proof -
  let ?p = "replicate n False"
  have n: "lw_seqs st = n" "lw_one_empty st" using assms by (simp_all add: end_inv_def lw_dims_def)
  obtain st2 where st2: "lw_end [0..<n] st = Some st2" using lw_end_ended [OF assms] by blast
  show ?thesis
  proof (cases "list_all ((!) (lw_oks st)) [0..<n]")
    case True
    then show ?thesis using n st2 by (intro exI [of _ "[?p]"]) (simp add: lw_iter_def Let_def)
  next
    case False
    obtain st1 where st1: "lw_flush ?p [0..<n] st = Some st1" "end_inv k n X st1" "\<forall>c < n. lw_oks st1 ! c"
      using lw_flush_spec [OF assms, of "[0..<n]" ?p] by (auto simp: lessThan_atLeast0)
    obtain st3 where st3: "lw_end [0..<n] st1 = Some st3" using lw_end_ended [OF st1(2)] by blast
    have "lw_iter ?p st = Some (Inl st1)" using n False st1(1) by (simp add: lw_iter_def Let_def)
    moreover have "lw_iter ?p st1 = Some (Inr st3)" using st1(2,3) st3 by (simp add: lw_iter_def Let_def end_inv_def lw_dims_def list_all_iff)
    ultimately show ?thesis by (intro exI [of _ "[?p, ?p]"] exI [of _ st3]) simp
  qed
qed

lemma lw_run_Inl: "lw_iter p st = Some (Inl st1) \<Longrightarrow> \<exists>ps st'. lw_run ps st1 = Some (Inr st') \<Longrightarrow> \<exists>ps st'. lw_run ps st = Some (Inr st')"
  by (metis (no_types, lifting) bind.bind_lunit lw_run.simps(2) old.sum.simps(5))

lemma run_inv_returns:
  assumes "run_inv k n X st" "\<not> lw_one_empty st" "\<forall>c < n. X ! c \<noteq> []"
  shows "\<exists>ps st'. lw_run ps st = Some (Inr st')"
  using assms(1,2)
proof (induction "2 * left_over st + (if \<forall>c < n. blk_empty (lw_buffers st ! c) then 0 else 1)" arbitrary: st rule: less_induct)
  case less
  let ?p = "replicate n True"
  have n: "lw_seqs st = n" "length X = n" using less.prems(1) by (simp_all add: run_inv_def lw_dims_def)
  have ix: "set [0..<n] \<subseteq> {..<n}" by auto
  obtain st1 where st1: "lw_gather [0..<n] st = Some st1" "run_inv k n X st1" "left_over st1 \<le> left_over st"
    "(\<exists>i \<in> set [0..<n]. blk_empty (lw_buffers st ! i) \<and> lw_new_ranges st ! i \<noteq> []) \<longrightarrow> left_over st1 < left_over st"
    using lw_gather_spec [OF less.prems(1) ix] by blast
  show ?case
  proof (cases "lw_one_empty st1")
    case True
    then have "lw_iter ?p st = Some (Inl st1)" using less.prems(2) st1(1) n by (simp add: lw_iter_def)
    then show ?thesis using end_inv_returns [OF run_inv_end [OF st1(2) True]] by (rule lw_run_Inl)
  next
    case False
    obtain st2 where st2: "lw_send ?p [0..<n] st1 = Some st2" "run_inv k n X st2" "lw_new_ranges st2 = lw_new_ranges st1"
      "lw_one_empty st2 = lw_one_empty st1" "\<forall>c < n. blk_empty (lw_buffers st2 ! c)" using lw_send_spec [OF st1(2) ix, of ?p] by auto
    have l2: "left_over st2 = left_over st1" using st2(3) by (simp add: left_over_def)
    have "2 * left_over st2 + (if \<forall>c < n. blk_empty (lw_buffers st2 ! c) then 0 else 1) < 2 * left_over st + (if \<forall>c < n. blk_empty (lw_buffers st ! c) then 0 else 1)"
    proof (cases "\<forall>c < n. blk_empty (lw_buffers st ! c)")
      case True
      have "\<exists>c < n. lw_new_ranges st ! c \<noteq> []"
      proof (rule ccontr)
        assume "\<not> ?thesis"
        then have "used_up X st = {..<n}" using assms(3) n(2) by (auto simp: used_up_def)
        then show False using less.prems by (auto simp: run_inv_def)
      qed
      then show ?thesis using st1(4) True st2(5) l2 by auto
    next
      case False
      then show ?thesis using st1(3) st2(5) l2 by auto
    qed
    from less.hyps [OF this st2(2)] have "\<exists>ps st'. lw_run ps st2 = Some (Inr st')" using st2(4) False by simp
    moreover have "lw_iter ?p st = Some (Inl st2)" using less.prems(2) st1(1) st2(1) False n by (simp add: lw_iter_def)
    ultimately show ?thesis using lw_run_Inl by blast
  qed
qed

lemma lw_fresh_inv:
  assumes "lw_fresh k n st" "0 < k" "k \<le> BLOCK_SIZE" "0 < n"
  shows "lw_inv k n (lw_new_ranges st) st"
proof -
  have "used_up (lw_new_ranges st) st = {}" by (auto simp: used_up_def)
  moreover have "col_inv k (lw_new_ranges st ! c) (lw_new_ranges st ! c) (lw_buffers st ! c) (lw_out st ! c)" if "c < n" for c
    using assms that unfolding col_inv_def
    by (intro exI [of _ "[]"]) (auto simp: lw_fresh_def list_all_length ready_def blk_empty_def)
  ultimately show ?thesis using assms by (auto simp: lw_inv_def run_inv_def lw_fresh_def lw_dims_def)
qed

text \<open>
  C7. What the sorted exchange sends, for any outcome of the puts. The loops of \<open>execute\<close> never go wrong. If they return, every
  column holds the blocks of its destination's stream in order and each once, but for the last: it may be there any
  number of times, none included, for the test of the last put is negated; an end mark follows. Each block
  shows its tuples up to \<open>(BLOCK_SIZE - 4) div k\<close> of them, and always claims that many. The loops never return if some
  destination has no tuples; if all have some, they can always still return.
\<close>

theorem sorted_lower_sends:
  assumes "lw_fresh k n st" "0 < k" "k \<le> BLOCK_SIZE" "0 < n" "X = lw_new_ranges st"
  shows "\<exists>r. lw_run ps st = Some r
    \<and> (\<forall>st'. r = Inr st' \<longrightarrow> (\<forall>c < n. \<exists>js z m. lw_out st' ! c = js @ [z] \<and> image_count z = 0
         \<and> (let chs = chunks (BLOCK_SIZE div k) (rev (X ! c)) in list_all2 (shows_chunk k) js (butlast chs @ replicate m (last chs)))))
    \<and> (if \<exists>c < n. X ! c = [] then \<forall>st'. r \<noteq> Inr st' else \<exists>qs st'. lw_run (ps @ qs) st = Some (Inr st'))"
proof -
  have "lw_inv k n X st" unfolding assms(5) by (rule lw_fresh_inv [OF assms(1-4)])
  from lw_run_spec [OF this, of ps] obtain r where r: "lw_run ps st = Some r"
    "case r of Inl st' \<Rightarrow> lw_inv k n X st' | Inr st' \<Rightarrow> lw_ended k n X st'" by blast
  have live: "\<exists>qs st'. lw_run (ps @ qs) st = Some (Inr st')" if ne: "\<forall>c < n. X ! c \<noteq> []"
  proof (cases r)
    case (Inl st1)
    then have "lw_inv k n X st1" using r(2) by simp
    then have "\<exists>qs st'. lw_run qs st1 = Some (Inr st')"
      using end_inv_returns run_inv_returns ne by (cases "lw_one_empty st1") (auto simp: lw_inv_def)
    then show ?thesis using r(1) Inl by (auto simp: lw_run_append)
  next
    case (Inr st1)
    then show ?thesis using r(1) by (intro exI [of _ "[]"] exI [of _ st1]) simp
  qed
  have "lw_ended k n X st'" if "r = Inr st'" for st' using r(2) that by simp
  then show ?thesis using r(1) live unfolding lw_ended_def Let_def by (intro exI [of _ r]) auto
qed

section \<open>Examples\<close>

text \<open>A table of one block with two tuples, in the third of the four key ranges.\<close>

definition pair_table :: block where
  "pair_table = kv_image (replicate 65500 0) two_tuples"

definition pair_scan :: "scan \<times> memory_store" where
  "pair_scan = (mk_Scan (mk_NewSchema []) ''t'', MemoryStore\<lparr>ms_blocks := [[] \<mapsto> [pair_table]]\<rparr>)"

lemma pair_table_facts: "std_block 16 pair_table" "image_count (blk_mem pair_table) = 2" "image_tuples 16 (blk_mem pair_table) = two_tuples"
proof -
  show s: "std_block 16 pair_table" by (simp add: std_block_def pair_table_def kv_image_def two_tuples_def BLOCK_SIZE_def)
  have l: "length (concat two_tuples) = 32" by (simp add: two_tuples_def)
  show c: "image_count (blk_mem pair_table) = 2"
    unfolding image_count_def pair_table_def kv_image_def using l by (simp add: BLOCK_SIZE_def two_tuples_def)
  have "block_tuples pair_table = Some two_tuples" unfolding pair_table_def by (rule block_tuples_image) (simp_all add: two_tuples_def)
  then show "image_tuples 16 (blk_mem pair_table) = two_tuples" using image_block_tuples [OF s] c by (simp add: BLOCK_SIZE_def)
qed

lemma pair_scan_facts: "scan_valid pair_scan" "scan_rest pair_scan = [blk_mem pair_table]" "length (blk_mem pair_table) = BLOCK_SIZE"
  using pair_table_facts(1) by (simp_all add: pair_scan_def scan_valid_def scan_rest_def mk_Scan_def stored_def std_block_def)

lemma two_tuples_range: "t \<in> set two_tuples \<Longrightarrow> rng t = Some 2" "distinct (map kt two_tuples)"
proof -
  have b: "map range_bound [0..<CPU_CORE] = [12500000, 25000000, 37500000, 50000000]" by (simp add: CPU_CORE_def upt_rec range_bound_def DATAVOLUME_def)
  show "rng t = Some 2" if "t \<in> set two_tuples" using that unfolding rng_iff b by (auto simp: two_tuples_def kt_def u64_of_int_def)
  show "distinct (map kt two_tuples)" by (simp add: two_tuples_def kt_def)
qed

theorem sorted_lower_partitions_witness:
  "\<exists>st st1. SL_prelude False Some Scan_execute 2 (mk_NewSchema [UnLongType t_long, UnLongType t_long]) [''a'', ''b''] blank (\<lambda>_. blank) pair_scan = Some st
    \<and> lw_start st = Some st1 \<and> lw_fresh 16 2 st1 \<and> sorted (map kt (rev (lw_new_ranges st1 ! 1))) \<and> mset (lw_new_ranges st1 ! 1) = mset two_tuples
    \<and> lw_new_ranges st1 ! 0 = []"
proof -
  let ?ns = "mk_NewSchema [UnLongType t_long, UnLongType t_long]" and ?seqs = "[''a'', ''b'']"
  have ns: "ns_totalsize ?ns = 16" "get_bytes (Schema_of_NewSchema ?ns) = 16" by code_simp+
  have ts: "two_tuples = concat (map (image_tuples 16) (scan_rest pair_scan))" using pair_scan_facts(2) pair_table_facts(3) by simp
  have js: "\<forall>i \<in> set (scan_rest pair_scan). image_count i * 16 \<le> BLOCK_SIZE \<and> length i = BLOCK_SIZE"
    using pair_scan_facts(2,3) pair_table_facts(2) by (simp add: BLOCK_SIZE_def)
  have n: "length ?seqs = 2" "CPU_CORE div 2 = 2" by (simp_all add: CPU_CORE_def)
  have len: "length ?seqs \<in> {1, 2, 4}" "length (scan_rest pair_scan) < 2" using n pair_scan_facts(2) by simp_all
  obtain st st1 where st: "SL_prelude False Some Scan_execute 2 ?ns ?seqs blank (\<lambda>_. blank) pair_scan = Some st" "lw_start st = Some st1" "lw_fresh 16 2 st1"
    and c: "\<forall>c < 2. sorted (map kt (rev (lw_new_ranges st1 ! c))) \<and> mset (lw_new_ranges st1 ! c) = mset (filter (\<lambda>t. \<exists>r. rng t = Some r \<and> r div 2 = c) two_tuples)"
    using sorted_lower_partitions [where prelude = Some, OF refl pair_scan_facts(1) _ ns len(1) blank_length blank_length len(2) js ts _ two_tuples_range(2)]
      two_tuples_range(1) unfolding n by auto
  have "filter (\<lambda>t. \<exists>r. rng t = Some r \<and> r div 2 = 1) two_tuples = two_tuples" "filter (\<lambda>t. \<exists>r. rng t = Some r \<and> r div 2 = 0) two_tuples = []"
    using two_tuples_range(1) by (auto intro!: filter_True filter_False)
  then show ?thesis using st c [rule_format, of 0] c [rule_format, of 1] by simp
qed

text \<open>One destination with one tuple.\<close>

definition one_tuple :: shuffle_lower where
  "one_tuple = \<lparr>lw_seqs = 1, lw_totalsize = 16, lw_ranges = [], lw_new_ranges = [[kv_tuple 1 5]], lw_buffers = replicate CPU_CORE (mk_Block blank 16),
     lw_emptys = 0, lw_one_empty = False, lw_oks = replicate CPU_CORE False, lw_out = [[]]\<rparr>"

theorem sorted_lower_sends_witness:
  "\<exists>ps st' js z m. lw_run ps one_tuple = Some (Inr st') \<and> lw_out st' ! 0 = js @ [z] \<and> image_count z = 0 \<and> list_all2 (shows_chunk 16) js (replicate m [kv_tuple 1 5])"
proof -
  have fresh: "lw_fresh 16 1 one_tuple" by (simp add: lw_fresh_def one_tuple_def list_all_iff blk_empty_def CPU_CORE_def BLOCK_SIZE_def)
  have X: "lw_new_ranges one_tuple = [[kv_tuple 1 5]]" by (simp add: one_tuple_def)
  have k: "(0::nat) < 16" "16 \<le> BLOCK_SIZE" "(0::nat) < 1" by (simp_all add: BLOCK_SIZE_def)
  note sends = sorted_lower_sends [OF fresh k refl, unfolded X]
  have "\<not> (\<exists>c < 1. [[kv_tuple 1 5]] ! c = [])" by simp
  then obtain ps st' where ps: "lw_run ps one_tuple = Some (Inr st')" using sends [of "[]"] by auto
  have ch: "chunks (BLOCK_SIZE div 16) (rev [kv_tuple 1 5]) = [[kv_tuple 1 5]]" by (simp add: chunks.simps BLOCK_SIZE_def)
  from sends [of ps] ps obtain js z m where "lw_out st' ! 0 = js @ [z]" "image_count z = 0" "list_all2 (shows_chunk 16) js (replicate m [kv_tuple 1 5])"
    by (auto simp: Let_def ch [simplified])
  then show ?thesis using ps by blast
qed

end
