(* ===== verification/Spec2Isabelle.thy ===== *)
theory Spec2Isabelle
  imports Mosito_PCBuffer Mosito_Heap Mosito_SqlOutput Mosito_SqlSession Mosito_Sort Mosito_KM Mosito_Analysis Mosito_Threads Mosito_SmartPtr Mosito_Sender Mosito_Merge Mosito_Plan Mosito_Lower
begin

text \<open>
  Mosito is a distributed OLAP engine in C++. This development models the parts of it that are its own: the SQL
  syntax trees, the tuples and blocks, the operators, the exchanges between the nodes, the analysis that places
  data, and the queues, trees, locks and pointers below them. File names are relative to \<^verbatim>\<open>src/src/\<close>.

  \<^bold>\<open>The program\<close>

  A statement is read by \<open>SqlParser\<close> (\<^verbatim>\<open>sql/m_sql_parser.cpp\<close>); the actions of the generated parser build a tree with the
  constructors of \<^verbatim>\<open>sql/function.cpp\<close>, which also prints and frees it. Plans are not made from it yet: the coordinator
  (\<^verbatim>\<open>deploy/m_coordinator.cpp\<close>) builds three fixed ones. A plan is a tree of operators (\<^verbatim>\<open>physical/\<close>) with the interface
  \<open>prelude\<close>, \<open>execute(Block *)\<close>, \<open>postlude\<close>: every call of \<open>execute\<close> fills a block of 64 KiB, whose last four bytes count its
  tuples, until it returns false. Tuples are byte strings laid out by a schema, and all operators take the
  \<open>unsigned long\<close> at byte 8 for the key.

  An exchange has a sending operator on every lower node (\<open>ShuffleLower1\<close>, or \<open>ShuffleLower\<close> for the sorted exchange) and a
  receiving one on every upper node (\<open>ShuffleUpper1\<close>, \<open>ShuffleUpper\<close>). The sending operator puts blocks into the columns of a
  \<open>PCBuffer\<close>, one column per destination; a thread takes them out, tags them and sends them. On the other side \<open>Merger\<close>
  receives blocks into the columns of another \<open>PCBuffer\<close>, one per sender, and \<open>execute\<close> takes them out, in any order or
  merged by key with a \<open>LoserTree\<close>. A block with tuple count 0 is the end mark of a sender.

  \<^bold>\<open>Theories and what they model\<close>

  \<^item> \<open>Mosito_Prelude\<close>: the constants of \<^verbatim>\<open>common/m_configuration.h\<close>, raw memory as a list of bytes with little-endian loads and
    stores, wrap-around at 32 bits.
  \<^item> \<open>Mosito_Schema\<close>: \<^verbatim>\<open>common/m_data_type.h\<close>, \<^verbatim>\<open>common/m_schema.cpp\<close>, \<open>NewSchema\<close>, \<^verbatim>\<open>expressions/m_type_cast.cpp\<close> and the comparators of
    \<^verbatim>\<open>common/m_trees.cpp\<close>. The layout of a schema is the sequence of prefix sums of the column widths; the
    comparator decides a total preorder.
  \<^item> \<open>Mosito_Buffer\<close>: blocks, growing blocks and iterators of \<^verbatim>\<open>common/m_buffer.cpp\<close>. Storing and iterating are inverse when the
    tail stays free, and what is lost when it does not.
  \<^item> \<open>Mosito_Queue\<close>: the two ring queues of \<^verbatim>\<open>common/m_circle_queue.h\<close>, both as instances of \<open>bounded_fifo\<close>:
    every call of a sequence of pushes and pops returns what a bounded list gives (\<open>fifo_spec\<close>).
  \<^item> \<open>Mosito_LoserTree\<close>, \<open>Mosito_Heap\<close>: \<open>LoserTree\<close> and \<open>Heap\<close> of \<^verbatim>\<open>common/m_trees.cpp\<close>: building and replaying the tree
    select the least leaf; heap sort and replacement selection write sorted runs and lose no tuple.
  \<^item> \<open>Mosito_PCBuffer\<close>: \<^verbatim>\<open>common/m_pc_buffer.cpp\<close>: \<open>put\<close> and \<open>get\<close> with other threads between their attempts, and \<open>get_sorted\<close>.
  \<^item> \<open>Mosito_Operators\<close>: \<open>QueryPlan\<close> as the locale \<open>query_plan\<close>, \<open>Scan\<close> with \<open>MemoryStore\<close>, \<open>Project\<close>, \<open>Debug\<close>.
  \<^item> \<open>Mosito_Sort\<close>: \<^verbatim>\<open>physical/m_sort.cpp\<close>: the prelude sorts, \<open>execute\<close> hands out the sorted stream.
  \<^item> \<open>Mosito_Join\<close>: \<open>MergeJoin\<close> of \<^verbatim>\<open>physical/m_join.cpp\<close>: gathering, assembling, merging. The merge is the equi-join for
    ascending distinct keys; what goes wrong beyond that is stated too.
  \<^item> \<open>Mosito_Shuffle\<close>, \<open>Mosito_Sender\<close>, \<open>Mosito_Exchange\<close>: \<open>ShuffleLower1\<close>, its sending thread, and \<open>Merger::m_receive_select\<close> with
    \<open>ShuffleUpper1\<close> as interleaved steps: what is put, that the thread forwards it, what is delivered, and when the
    exchange hangs. The end of this theory puts the parts together.
  \<^item> \<open>Mosito_Lower\<close>, \<open>Mosito_Merge\<close>: the sorted exchange: \<open>ShuffleLower\<close> sorts, partitions and sends, \<open>ShuffleUpper\<close> merges the
    columns over \<open>get_sorted\<close>.
  \<^item> \<open>Mosito_Plan\<close>: the plans of the coordinator, their typing, and what their result exchange sends.
  \<^item> \<open>Mosito_KM\<close>, \<open>Mosito_Analysis\<close>: \<^verbatim>\<open>analysis/m_km.cpp\<close> returns an optimal assignment, \<^verbatim>\<open>analysis/m_par_strategy.cpp\<close> computes
    the least cost of a partition if its tables had the row and column they lack, and \<^verbatim>\<open>analysis/m_histogram.cpp\<close> counts the
    same with threads as without in the runs in which each thread reads its own index from the shared loop variable.
  \<^item> \<open>Mosito_Threads\<close>, \<open>Mosito_SmartPtr\<close>: spin lock, barrier and thread pool (\<^verbatim>\<open>common/m_synchronize.h\<close>,
    \<^verbatim>\<open>common/m_thread_pool.cpp\<close>) as step relations, and the counted pointer of \<^verbatim>\<open>common/m_smart_ptr.h\<close>.
  \<^item> \<open>Mosito_SqlNodes\<close>, \<open>Mosito_Sql\<close>, \<open>Mosito_SqlSession\<close>, \<open>Mosito_SqlOutput\<close>: the nodes of \<^verbatim>\<open>sql/sql_node_struct.h\<close>; their
    constructors on a heap with a registry, which stays well-formed and is freed exactly; any sequence of constructor
    calls of a parse; the printer, which ends, the literals, and the loops of the parser driver.

  \<^bold>\<open>Conventions\<close>

  \<^item> A function whose code can run into undefined behaviour (an access outside an allocation, a null, dangling or
    uninitialised pointer, signed overflow, a missing return) or loop for ever returns an \<open>option\<close>; that is the value \<open>None\<close>. A
    theorem that says \<open>\<exists>x. f y = Some x \<and> \<dots>\<close> says that none of this happens.
  \<^item> Three functions end without the return statement their type asks for, and their callers do not use the value:
    \<open>FlexBlock::storeTupleOK\<close>, \<open>Sort::single_sort\<close>, \<open>ShuffleLower::single_sort1\<close>. The C++ standard makes this undefined. They and
    all that call them take a flag \<open>strict\<close>: with \<open>True\<close> it is undefined, with \<open>False\<close> the caller goes on. The theorems
    state both. \<open>strict\<close> has the same role for the threads that read the loop variable of \<open>pthreads_eval\<close> after its end.
  \<^item> Memory from \<open>malloc\<close> has arbitrary contents: the arguments \<open>junk\<close>, \<open>junks\<close>. Addresses of nodes are numbers in the order of
    allocation; a pointer into a block is an offset.
  \<^item> \<open>unsigned\<close> arithmetic wraps by \<open>wrap32\<close>; an \<open>int\<close> is an \<open>int\<close> whose overflow is checked.
    The exception are numbers that only count what is in memory: column numbers and the \<open>int\<close> offsets of \<open>Schema\<close> and
    \<open>NewSchema\<close>, numbers of tuples, blocks and destinations are unbounded \<open>nat\<close>. An offset overflows from about \<open>2^28\<close> columns on;
    the theorems about schemas are to be read for fewer.
  \<^item> Threads that share nothing are run one after the other. Where they share a queue, a counter or a lock the
    model is a step relation with an arbitrary scheduler, or takes what the others do (\<open>env\<close>) or whether an attempt
    succeeds (\<open>puts\<close>) as an argument.
  \<^item> Operators take the \<open>prelude\<close> and \<open>execute\<close> of their children as arguments, as the virtual calls do.

  \<^bold>\<open>Interfaces\<close>

  \<open>bounded_fifo\<close> is interpreted by both queues (\<open>cq\<close>, \<open>bcq\<close>), \<open>sort_order\<close> by both comparators (\<open>cmpr\<close>, \<open>ct\<close>) and used by the heap,
  \<open>selector\<close> by the loser tree (\<open>lt\<close>) and used by the merge, \<open>query_plan\<close> by the scan (\<open>sc\<close>) and used by every operator and
  exchange above it.

  \<^bold>\<open>Fuel\<close>

  Loops that end when the child does take fuel; the theorems hold for any fuel above the number of blocks the child
  still has. \<open>Sort::execute\<close> gets the number of tuples plus ranges, the merge join the number of tuples, the printer the
  address of the root plus one, and each is proved to be enough. Loops that wait for another thread have no fuel: their
  models are steps or runs over a sequence of outcomes, and it is proved when they end and when they cannot.

  \<^bold>\<open>What the theorems show to be wrong in the code\<close>

  The layers do what they should on the inputs they were tried with and not beyond them, and the theorems say where the border
  is. A full block hides the tuple under its count, and the last block of a sort
  announces tuples it does not hold; \<open>ShuffleLower1\<close> skips the tuple that finds a buffer full and keeps what
  does not fill one; the last block of the sorted exchange is sent any number of times, none included, and the exchange never
  ends when a destination has no tuples; the merge join indexes four blocks by a quarter of the key, and its \<open>execute\<close>
  returns nothing; a put that gives up may lose an end mark, after which the receiver never ends; a sort directly above a
  scan takes the scan for an exchange.

  \<^bold>\<open>Not modelled\<close>

  The generated parser and lexer (\<^verbatim>\<open>sql/sql.tab.cpp\<close>, \<^verbatim>\<open>sql/lex.yy.cpp\<close>), the actor library, sockets, the start-up of the nodes
  and the handshake of the receivers, the serialisation of tasks, logging and timing are library calls and I/O. Expressions
  have no defined value in this version (they store through uninitialised pointers); the B+ tree, the red-black tree, the skip list,
  the catalog, the partitioner, the optimizer, the logical plans and the disk store are empty or unfinished classes. The broadcast
  exchange, \<open>m_receive_select1\<close>, \<open>NestLoopJoin\<close> and the \<open>SYN_JOIN\<close> variant of the merge join are not used or not compiled. \<open>Lock\<close>, \<open>RWLock\<close> and
  \<open>Semaphore\<close> wrap the calls of the thread library.
\<close>

section \<open>A repartitioning exchange from end to end\<close>

text \<open>
  One sending node: \<open>TaskInfo::run\<close> (\<^verbatim>\<open>common/m_task.h\<close>) on \<open>ShuffleLower1\<close> over a scan, and the columns it fills. \<open>execute\<close> of
  this operator only ever returns false, so the loop around it is one call. The sending threads and the receiving node work on the columns.
\<close>

definition node_sends :: "(scan \<times> memory_store \<Rightarrow> (scan \<times> memory_store) option) \<Rightarrow> NewSchema \<Rightarrow> string list \<Rightarrow> int \<Rightarrow> bytes \<Rightarrow> (nat \<Rightarrow> bytes) \<Rightarrow> nat \<Rightarrow>
    scan \<times> memory_store \<Rightarrow> bytes list list option" where
  "node_sends prelude ns seqs exchange_id junk junks fuel s = do {
     st \<leftarrow> SL1_prelude prelude ns seqs exchange_id junk junks s;
     (ret, st') \<leftarrow> SL1_execute Scan_execute fuel st;
     Some (sl_out st')
   }"

definition node_tuples :: "nat \<Rightarrow> (scan \<times> memory_store \<Rightarrow> (scan \<times> memory_store) option) \<Rightarrow> scan \<times> memory_store \<Rightarrow> bytes list" where
  "node_tuples k prelude s = concat (map (image_tuples k) (scan_rest (the (prelude s))))"

definition good_node :: "nat \<Rightarrow> (scan \<times> memory_store \<Rightarrow> (scan \<times> memory_store) option) \<Rightarrow> nat \<Rightarrow> scan \<times> memory_store \<Rightarrow> bool" where
  "good_node k prelude fuel s \<longleftrightarrow> prelude s \<noteq> None \<and> scan_valid (the (prelude s)) \<and> length (scan_rest (the (prelude s))) < fuel
     \<and> (\<forall>i \<in> set (scan_rest (the (prelude s))). image_count i * k \<le> BLOCK_SIZE \<and> length i = BLOCK_SIZE)
     \<and> (\<forall>t \<in> set (node_tuples k prelude s). rng t \<noteq> None)"

text \<open>What a destination gets of the tuples \<open>ts\<close> of one key range: those that were in a buffer when it was flushed and that its count admits.\<close>

definition carried :: "nat \<Rightarrow> 'a list \<Rightarrow> 'a list" where
  "carried k ts = concat (map (take ((BLOCK_SIZE - 4) div k)) (flushed (BLOCK_SIZE div k) ts))"

lemma flushed_member: "ch \<in> set (flushed F xs) \<Longrightarrow> length ch = F \<and> set ch \<subseteq> set xs"
proof (induction F xs rule: flushed.induct)
  case (1 F xs)
  show ?case
  proof (cases "length xs \<le> F")
    case False
    then have "ch = take F xs \<or> ch \<in> set (flushed F (drop (Suc F) xs))" using 1(2) by (subst (asm) flushed.simps) auto
    then show ?thesis using 1(1) False by (auto dest: in_set_takeD in_set_dropD)
  qed (use 1(2) flushed.simps [of F xs] in simp)
qed

lemma multiple_of_8: "8 dvd k \<Longrightarrow> k < BLOCK_SIZE \<Longrightarrow> 0 < k \<Longrightarrow> (BLOCK_SIZE - 4) div k * k \<le> BLOCK_SIZE - 8 \<and> 0 < (BLOCK_SIZE - 4) div k"
proof
  assume k: "8 dvd k" "k < BLOCK_SIZE" "0 < k"
  let ?v = "(BLOCK_SIZE - 4) div k * k"
  have "8 dvd ?v" using k(1) by simp
  moreover have "?v \<le> BLOCK_SIZE - 4" by (rule div_times_less_eq_dividend)
  ultimately show "?v \<le> BLOCK_SIZE - 8" unfolding BLOCK_SIZE_def by presburger
  show "0 < (BLOCK_SIZE - 4) div k" using k by (auto simp: BLOCK_SIZE_def div_greater_zero_iff elim!: dvdE)
qed

text \<open>The images of a column, sorted out by key range.\<close>

lemma column_by_range:
  assumes "\<forall>e \<in> set es. P e \<longrightarrow> (\<forall>t \<in> set (f (snd e)). rng t = Some (fst e))" "\<And>e. fst e = r \<Longrightarrow> P e"
  shows "filter (\<lambda>t. rng t = Some r) (concat (map f (map snd (filter P es)))) = concat (map (f \<circ> snd) (filter (\<lambda>e. fst e = r) es))"
  using assms(1)
proof (induction es)
  case (Cons e es)
  have "filter (\<lambda>t. rng t = Some r) (f (snd e)) = (if fst e = r then f (snd e) else [])" if "P e"
    using Cons.prems that by (auto intro!: filter_True filter_False)
  then show ?case using Cons assms(2) by auto
qed simp

text \<open>A finished column for destination \<open>c\<close>, made from the tuples \<open>ts\<close>; \<open>mul\<close> is the number of key ranges per destination.\<close>

definition column_of :: "nat \<Rightarrow> nat \<Rightarrow> nat \<Rightarrow> bytes list \<Rightarrow> bytes list \<Rightarrow> bool" where
  "column_of k mul c ts f \<longleftrightarrow> ended f \<and> (\<forall>i \<in> set f. image_count i * k \<le> BLOCK_SIZE - 8)
     \<and> (\<forall>t \<in> set (concat (map (image_tuples k) f)). \<exists>r. rng t = Some r \<and> r div mul = c)
     \<and> (\<forall>r < CPU_CORE. r div mul = c \<longrightarrow>
          filter (\<lambda>t. rng t = Some r) (concat (map (image_tuples k) f)) = carried k (filter (\<lambda>t. rng t = Some r) ts))"

lemma node_columns:
  assumes k: "0 < k" "8 dvd k" "k < BLOCK_SIZE" "ns_totalsize ns = k" and n: "length seqs \<in> {1, 2, 4}" "exchange_id \<noteq> 10"
    and j: "length junk = BLOCK_SIZE" "\<And>i. length (junks i) = BLOCK_SIZE" and g: "good_node k prelude fuel s"
  shows "\<exists>outs. node_sends prelude ns seqs exchange_id junk junks fuel s = Some outs \<and> whole_blocks (length seqs) outs
    \<and> (\<forall>c < length seqs. column_of k (CPU_CORE div length seqs) c (node_tuples k prelude s) (outs ! c))"
proof -
  let ?mul = "CPU_CORE div length seqs" and ?V = "(BLOCK_SIZE - 4) div k" and ?ts = "node_tuples k prelude s"
  obtain s1 where s1: "prelude s = Some s1" "scan_valid s1" "length (scan_rest s1) < fuel" "\<forall>t \<in> set ?ts. rng t \<noteq> None"
    "\<forall>i \<in> set (scan_rest s1). image_count i * k \<le> BLOCK_SIZE \<and> length i = BLOCK_SIZE" "?ts = concat (map (image_tuples k) (scan_rest s1))"
    using g by (auto simp: good_node_def node_tuples_def)
  obtain st st' log where st: "SL1_prelude prelude ns seqs exchange_id junk junks s = Some st" "SL1_execute Scan_execute fuel st = Some (False, st')"
    and col: "\<forall>c < length seqs. \<exists>z. image_count z = 0 \<and> sl_out st' ! c = map snd (filter (\<lambda>e. fst e div ?mul = c) log) @ [z]"
    and rg: "\<forall>r < CPU_CORE. map (image_tuples k \<circ> snd) (filter (\<lambda>e. fst e = r) log) = map (take ?V) (flushed (BLOCK_SIZE div k) (filter (\<lambda>t. rng t = Some r) ?ts))"
    using sc.SL1_columns [where prelude = prelude and s = s and junks = junks, OF s1(2,1) k(1) k(4) [symmetric] n j s1(5,6,4,3)] by blast
  have V: "?V * k \<le> BLOCK_SIZE - 8" "0 < ?V" using multiple_of_8 [OF k(2,3,1)] by auto
  have "(BLOCK_SIZE - 4) div k \<le> BLOCK_SIZE div k" by (rule div_le_mono) simp
  then have F: "?V \<le> BLOCK_SIZE div k" .
  have img: "image_count (snd e) = ?V \<and> (\<forall>t \<in> set (image_tuples k (snd e)). rng t = Some (fst e))" if e: "e \<in> set log" "fst e < CPU_CORE" for e
  proof -
    have "image_tuples k (snd e) \<in> set (map (image_tuples k \<circ> snd) (filter (\<lambda>e'. fst e' = fst e) log))" using e(1) by auto
    then obtain ch where ch: "ch \<in> set (flushed (BLOCK_SIZE div k) (filter (\<lambda>t. rng t = Some (fst e)) ?ts))" "image_tuples k (snd e) = take ?V ch"
      using rg e(2) by auto
    have "image_count (snd e) = length (image_tuples k (snd e))" by simp
    also have "\<dots> = ?V" unfolding ch(2) using flushed_member [OF ch(1)] F by simp
    finally show ?thesis using flushed_member [OF ch(1)] unfolding ch(2) by (auto dest: in_set_takeD)
  qed
  have core: "fst e < CPU_CORE" if "fst e div ?mul < length seqs" for e :: "nat \<times> bytes"
    using that n(1) by (auto simp: CPU_CORE_def div_less_iff_less_mult)
  have "column_of k ?mul c ?ts (sl_out st' ! c)" if c: "c < length seqs" for c
  proof -
    let ?es = "filter (\<lambda>e. fst e div ?mul = c) log"
    obtain z where z: "image_count z = 0" "sl_out st' ! c = map snd ?es @ [z]" using col c by blast
    have zt: "image_tuples k z = []" using z(1) by (simp add: image_tuples_def)
    have es: "image_count (snd e) = ?V" "\<forall>t \<in> set (image_tuples k (snd e)). rng t = Some (fst e)" if "e \<in> set log" "fst e div ?mul = c" for e
      using img [OF that(1) core] that(2) c by auto
    have "zeros (map snd ?es) = 0" using es(1) V(2) by (auto simp: zeros_def filter_empty_conv)
    then have "ended (sl_out st' ! c)" using z by (simp add: ended_def)
    moreover have "\<forall>i \<in> set (sl_out st' ! c). image_count i * k \<le> BLOCK_SIZE - 8" using es(1) V(1) z by auto
    moreover have "\<forall>t \<in> set (concat (map (image_tuples k) (sl_out st' ! c))). \<exists>r. rng t = Some r \<and> r div ?mul = c" using es(2) z(2) zt by auto
    moreover have "filter (\<lambda>t. rng t = Some r) (concat (map (image_tuples k) (sl_out st' ! c))) = carried k (filter (\<lambda>t. rng t = Some r) ?ts)"
      if r: "r < CPU_CORE" "r div ?mul = c" for r
    proof -
      have "filter (\<lambda>t. rng t = Some r) (concat (map (image_tuples k) (map snd ?es))) = concat (map (image_tuples k \<circ> snd) (filter (\<lambda>e. fst e = r) log))"
        by (rule column_by_range) (use es(2) r(2) in auto)
      then show ?thesis using rg r(1) z(2) zt by (simp add: carried_def)
    qed
    ultimately show ?thesis unfolding column_of_def by blast
  qed
  moreover have "node_sends prelude ns seqs exchange_id junk junks fuel s = Some (sl_out st')" using st by (simp add: node_sends_def)
  ultimately show ?thesis using SL1_whole [OF st] by blast
qed

text \<open>The tag of the sending thread changes neither the end marks nor the tuples.\<close>

lemma tagged_column:
  assumes "list_all2 but_tag js f" "\<forall>i \<in> set f. image_count i * k \<le> BLOCK_SIZE - 8 \<and> length i = BLOCK_SIZE"
  shows "map (image_tuples k) js = map (image_tuples k) f" "\<forall>i \<in> set js. length i = BLOCK_SIZE"
proof -
  have nth: "but_tag (js ! j) (f ! j) \<and> f ! j \<in> set f" if "j < length js" for j
    using that list_all2_nthD [OF assms(1)] list_all2_lengthD [OF assms(1)] by simp
  have "image_tuples k (js ! j) = image_tuples k (f ! j)" if "j < length js" for j
    using nth [OF that] assms(2) but_tag_tuples by blast
  then show "map (image_tuples k) js = map (image_tuples k) f"
    using list_all2_lengthD [OF assms(1)] unfolding list_eq_iff_nth_eq by simp
  show "\<forall>i \<in> set js. length i = BLOCK_SIZE"
    using nth assms(2) by (metis but_tag_def in_set_conv_nth)
qed

lemma tagged_ended:
  assumes "list_all2 but_tag js f" "ended f"
  shows "ended js"
proof -
  have "zeros js = zeros f" using assms(1) by (induction rule: list_all2_induct) (auto dest: but_tag_count)
  moreover have len: "js \<noteq> []" "f \<noteq> []" "length js = length f" using assms(2) list_all2_lengthD [OF assms(1)] by (auto simp: ended_def)
  moreover have "but_tag (last js) (last f)"
    using list_all2_nthD [OF assms(1), of "length js - 1"] len by (simp add: last_conv_nth)
  ultimately show ?thesis using assms(2) but_tag_count by (simp add: ended_def)
qed

text \<open>
  C3. A repartitioning exchange from end to end. Some nodes scan tables of tuples whose size is a multiple of eight; each
  runs \<open>ShuffleLower1\<close>, and its sending thread has forwarded what was put. A receiving node \<open>c\<close> has taken its blocks in and
  handed them on until \<open>ShuffleUpper1::execute\<close> returned false, in any interleaving of its two threads and with no block lost.
  Then its parent got from every node tuples of the key ranges of \<open>c\<close> only, and of each of these ranges exactly
  the tuples the node's buffers carry, in the order of the table.
\<close>

theorem exchange_end_to_end:
  assumes "0 < k" "8 dvd k" "k < BLOCK_SIZE" "ns_totalsize ns = k" "length seqs \<in> {1, 2, 4}" "exchange_id \<noteq> 10"
    and "length junk = BLOCK_SIZE" "\<And>i. length (junks i) = BLOCK_SIZE" "nodes \<noteq> []" "\<forall>s \<in> set nodes. good_node k prelude fuel s"
    and "length senders = length nodes"
    and "\<forall>i < length nodes. \<exists>outs. node_sends prelude ns seqs exchange_id junk junks fuel (nodes ! i) = Some outs
       \<and> int (total_len outs) \<le> INT_MAX \<and> send_step\<^sup>*\<^sup>* (send_start junk k outs) (senders ! i) \<and> sd_done (senders ! i)"
    and "c < length seqs" "good_junks gjunks" "ex_step\<^sup>*\<^sup>* (ex_start gjunks ns (map (\<lambda>s. sd_sent s ! c) senders)) x" "x_udone x" "x_lost x = []"
    and "i < length nodes" "got = concat (map (image_tuples k) (of_col i (x_got x)))"
  shows "(\<forall>t \<in> set got. \<exists>r. rng t = Some r \<and> r div (CPU_CORE div length seqs) = c)
    \<and> (\<forall>r < CPU_CORE. r div (CPU_CORE div length seqs) = c \<longrightarrow>
         filter (\<lambda>t. rng t = Some r) got = carried k (filter (\<lambda>t. rng t = Some r) (node_tuples k prelude (nodes ! i))))"
proof -
  let ?feeds = "map (\<lambda>s. sd_sent s ! c) senders" and ?mul = "CPU_CORE div length seqs"
  have feed: "\<exists>f. column_of k ?mul c (node_tuples k prelude (nodes ! j)) f \<and> list_all2 but_tag (?feeds ! j) f \<and> (\<forall>i \<in> set f. length i = BLOCK_SIZE)"
    if j: "j < length nodes" for j
  proof -
    obtain outs where o: "node_sends prelude ns seqs exchange_id junk junks fuel (nodes ! j) = Some outs" "int (total_len outs) \<le> INT_MAX"
      "send_step\<^sup>*\<^sup>* (send_start junk k outs) (senders ! j)" "sd_done (senders ! j)" using assms(12) j by blast
    have good: "good_node k prelude fuel (nodes ! j)" using assms(10) j by simp
    obtain outs' where "node_sends prelude ns seqs exchange_id junk junks fuel (nodes ! j) = Some outs'" "whole_blocks (length seqs) outs'"
      "\<forall>c < length seqs. column_of k ?mul c (node_tuples k prelude (nodes ! j)) (outs' ! c)"
      using node_columns [where junks = junks, OF assms(1-8) good] by blast
    then have w: "whole_blocks (length seqs) outs" "\<forall>c < length seqs. column_of k ?mul c (node_tuples k prelude (nodes ! j)) (outs ! c)" using o(1) by simp_all
    have len: "length outs = length seqs" and sz: "\<forall>f \<in> set outs. \<forall>i \<in> set f. length i = BLOCK_SIZE" using w(1) by (simp_all add: whole_blocks_def)
    have en: "\<forall>f \<in> set outs. ended f" using w(2) unfolding all_set_conv_all_nth len column_of_def by blast
    have ne: "outs \<noteq> []" using assms(13) len by auto
    have inv: "send_inv outs (senders ! j)" using send_reach_inv [OF sz ne o(2) assms(7) o(3)] .
    have cl: "c < length outs" using assms(13) len by simp
    have "list_all2 but_tag (sd_sent (senders ! j) ! c) (outs ! c)"
      using send_prefix [OF inv cl] send_done_all [OF inv en o(4) cl] by auto
    moreover have "\<forall>i \<in> set (outs ! c). length i = BLOCK_SIZE" using sz nth_mem [OF cl] by blast
    ultimately show ?thesis using w(2) assms(11,13) j by (intro exI [of _ "outs ! c"]) simp
  qed
  have lf: "length ?feeds = length nodes" using assms(11) by simp
  have feeds: "ended f \<and> (\<forall>i \<in> set f. length i = BLOCK_SIZE)" if f: "f \<in> set ?feeds" for f
  proof -
    obtain j where j: "j < length nodes" "?feeds ! j = f"
      using in_set_conv_nth [THEN iffD1, OF f] unfolding lf by (elim exE conjE)
    obtain g where g: "column_of k ?mul c (node_tuples k prelude (nodes ! j)) g" "list_all2 but_tag f g" "\<forall>i \<in> set g. length i = BLOCK_SIZE"
      using feed [OF j(1)] unfolding j(2) by blast
    then show ?thesis using tagged_ended [OF g(2)] tagged_column(2) [OF g(2)] unfolding column_of_def by blast
  qed
  then have en: "\<forall>f \<in> set ?feeds. ended f" and sz: "\<forall>f \<in> set ?feeds. \<forall>i \<in> set f. length i = BLOCK_SIZE" by blast+
  have ne: "?feeds \<noteq> []" using lf assms(9) by auto
  have inv: "ex_inv ?feeds x" using ex_reach_inv [OF assms(14) sz ne assms(15)] .
  have "x_uzero x = length ?feeds" using inv assms(16) by (simp add: ex_inv_def)
  then have all: "of_col i (x_got x) = ?feeds ! i" using ex_done_all [OF inv en assms(17)] lf assms(18) by simp
  obtain f where f: "column_of k ?mul c (node_tuples k prelude (nodes ! i)) f" "list_all2 but_tag (?feeds ! i) f" "\<forall>i \<in> set f. length i = BLOCK_SIZE"
    using feed [OF assms(18)] by blast
  then have "map (image_tuples k) (?feeds ! i) = map (image_tuples k) f" using tagged_column(1) [OF f(2)] unfolding column_of_def by blast
  then have "got = concat (map (image_tuples k) f)" unfolding assms(19) all by simp
  then show ?thesis using f(1) unfolding column_of_def by blast
qed

text \<open>A column has at most as many blocks as tuples and end marks.\<close>

lemma column_length: "length f \<le> length (concat (map (image_tuples k) f)) + zeros f"
proof (induction f)
  case (Cons i f)
  then show ?case using length_image_tuples [of k i] by (cases "image_count i") auto
qed simp

text \<open>
  One node with the three tuples of \<open>scan3\<close>, all of the first key range, and two destinations: the first gets one of them. The
  second filled the buffer but lies under its count, and the third found the buffer full.
\<close>

lemma scan3_node: "good_node 32768 Some 4 scan3" "node_tuples 32768 Some scan3 = replicate 3 half"
proof -
  show t: "node_tuples 32768 Some scan3 = replicate 3 half" by (simp add: node_tuples_def scan3_facts(2) zimg_facts(3) numeral_3_eq_3)
  show "good_node 32768 Some 4 scan3" unfolding good_node_def t using scan3_facts zimg_facts by (simp add: half_range BLOCK_SIZE_def)
qed

lemma carried_half: "carried 32768 (filter (\<lambda>t. rng t = Some r) (replicate 3 half)) = (if r = 0 then [half] else [])"
proof (cases "r = 0")
  case True
  have "flushed (BLOCK_SIZE div 32768) (filter (\<lambda>t. rng t = Some 0) (replicate 3 half)) = [[half, half]]"
    by (simp add: half_range numeral_3_eq_3 flushed.simps BLOCK_SIZE_def)
  moreover have "(BLOCK_SIZE - 4) div 32768 = 1" by (simp add: BLOCK_SIZE_def)
  ultimately show ?thesis using True by (simp add: carried_def)
next
  case False
  then have "filter (\<lambda>t. rng t = Some r) (replicate 3 half) = []" by (simp add: half_range filter_empty_conv)
  then show ?thesis using False by (simp add: carried_def)
qed

lemma scan3_columns:
  "\<exists>outs. node_sends Some wide_ns [''a'', ''b''] 0 blank (\<lambda>_. blank) 4 scan3 = Some outs \<and> whole_blocks 2 outs
    \<and> (\<forall>f \<in> set outs. ended f) \<and> int (total_len outs) \<le> INT_MAX"
proof -
  have n: "length [''a'', ''b''] = 2" "CPU_CORE div 2 = 2" "length [''a'', ''b''] \<in> {1, 2, 4}" by (simp_all add: CPU_CORE_def)
  have ns: "ns_totalsize wide_ns = 32768" by (simp add: wide_ns_def)
  obtain outs where o: "node_sends Some wide_ns [''a'', ''b''] 0 blank (\<lambda>_. blank) 4 scan3 = Some outs" "whole_blocks 2 outs"
    "\<forall>c < 2. column_of 32768 2 c (replicate 3 half) (outs ! c)"
    using node_columns [where junks = "\<lambda>_. blank" and k = 32768 and exchange_id = 0, OF _ _ _ ns n(3) _ blank_length blank_length scan3_node(1)]
    unfolding n(1,2) scan3_node(2) by (auto simp: BLOCK_SIZE_def)
  have short: "length (outs ! c) \<le> 2 \<and> ended (outs ! c)" if c: "c < 2" for c
  proof -
    let ?L = "concat (map (image_tuples 32768) (outs ! c))"
    have col: "ended (outs ! c)" "\<forall>t \<in> set ?L. \<exists>r. rng t = Some r \<and> r div 2 = c"
      "\<And>r. r < CPU_CORE \<Longrightarrow> r div 2 = c \<Longrightarrow> filter (\<lambda>t. rng t = Some r) ?L = (if r = 0 then [half] else [])"
      using o(3) c unfolding column_of_def carried_half by blast+
    have r: "rng t = Some 0 \<and> c = 0" if t: "t \<in> set ?L" for t
    proof -
      obtain r where r: "rng t = Some r" "r div 2 = c" using col(2) t by blast
      then have "r < CPU_CORE" using c by (simp add: CPU_CORE_def)
      from col(3) [OF this r(2)] have "r = 0" using t r(1) by (cases "r = 0") (auto simp: filter_empty_conv simp del: set_concat)
      then show ?thesis using r by simp
    qed
    have "filter (\<lambda>t. rng t = Some 0) ?L = ?L" using r by (intro filter_True) blast
    moreover have "?L = []" if "c \<noteq> 0" using r that by (metis ex_in_conv set_empty)
    ultimately have "length ?L \<le> 1" using col(3) [of 0] by (cases "c = 0") (auto simp: CPU_CORE_def simp del: filter_concat concat_eq_Nil_conv)
    then show ?thesis using column_length [of "outs ! c" 32768] col(1) by (simp add: ended_def)
  qed
  have len: "length outs = 2" using o(2) by (simp add: whole_blocks_def)
  then have "outs = [outs ! 0, outs ! 1]" by (intro nth_equalityI) (auto simp: less_2_cases_iff)
  then have "total_len outs = length (outs ! 0) + length (outs ! 1)" by (metis (no_types) add.right_neutral list.simps(8,9) sum_list.Cons sum_list.Nil total_len_def)
  then have "int (total_len outs) \<le> INT_MAX" using short [of 0] short [of 1] by (simp add: INT_MAX_def)
  then show ?thesis using o(1,2) short len by (auto simp: all_set_conv_all_nth)
qed

theorem exchange_end_to_end_witness:
  "\<exists>outs sd x. node_sends Some wide_ns [''a'', ''b''] 0 blank (\<lambda>_. blank) 4 scan3 = Some outs
    \<and> send_step\<^sup>*\<^sup>* (send_start blank 32768 outs) sd \<and> sd_done sd \<and> ex_step\<^sup>*\<^sup>* (ex_start junk20 wide_ns [sd_sent sd ! 0]) x \<and> x_udone x
    \<and> filter (\<lambda>t. rng t = Some 0) (concat (map (image_tuples 32768) (of_col 0 (x_got x)))) = [half]"
proof -
  obtain outs where o: "node_sends Some wide_ns [''a'', ''b''] 0 blank (\<lambda>_. blank) 4 scan3 = Some outs" "whole_blocks 2 outs"
    "\<forall>f \<in> set outs. ended f" "int (total_len outs) \<le> INT_MAX" using scan3_columns by blast
  have sz: "\<forall>f \<in> set outs. \<forall>i \<in> set f. length i = BLOCK_SIZE" and len: "length outs = 2" using o(2) by (simp_all add: whole_blocks_def)
  then have ne: "outs \<noteq> []" by auto
  obtain sd where sd: "send_step\<^sup>*\<^sup>* (send_start blank 32768 outs) sd" "sd_done sd"
    using send_completes [OF send_reach_inv [OF sz ne o(4) blank_length rtranclp.rtrancl_refl] o(3) sz o(4)] by blast
  have inv: "send_inv outs sd" using send_reach_inv [OF sz ne o(4) blank_length sd(1)] .
  have c: "0 < length outs" using len by simp
  have tag: "list_all2 but_tag (sd_sent sd ! 0) (outs ! 0)" using send_prefix [OF inv c] send_done_all [OF inv o(3) sd(2) c] by auto
  have en: "ended (sd_sent sd ! 0)" using tagged_ended [OF tag] o(3) nth_mem [OF c] by blast
  have whole: "\<forall>i \<in> set (sd_sent sd ! 0). length i = BLOCK_SIZE"
  proof
    fix i assume "i \<in> set (sd_sent sd ! 0)"
    then obtain j where j: "j < length (sd_sent sd ! 0)" "i = sd_sent sd ! 0 ! j" by (metis in_set_conv_nth)
    then have "but_tag i (outs ! 0 ! j)" "j < length (outs ! 0)" using list_all2_nthD [OF tag] list_all2_lengthD [OF tag] by auto
    then show "length i = BLOCK_SIZE" using sz nth_mem [OF c] nth_mem [of j "outs ! 0"] unfolding but_tag_def by metis
  qed
  obtain x where x: "ex_step\<^sup>*\<^sup>* (ex_start junk20 wide_ns (map (\<lambda>s. sd_sent s ! 0) [sd])) x" "x_udone x" "x_lost x = []"
    using ex_start_completes [OF junk20_good, of "[sd_sent sd ! 0]" wide_ns] en whole by auto
  have n: "length [''a'', ''b''] \<in> {1, 2, 4}" "0 < length [''a'', ''b'']" by simp_all
  have hyp: "(0::nat) < 32768" "(8::nat) dvd 32768" "32768 < BLOCK_SIZE" "ns_totalsize wide_ns = 32768" "(0::int) \<noteq> 10"
    "[scan3] \<noteq> []" "\<forall>s \<in> set [scan3]. good_node 32768 Some 4 s" "length [sd] = length [scan3]" "0 < length [scan3]"
    using scan3_node(1) by (simp_all add: BLOCK_SIZE_def wide_ns_def)
  have run: "\<forall>i < length [scan3]. \<exists>outs. node_sends Some wide_ns [''a'', ''b''] 0 blank (\<lambda>_. blank) 4 ([scan3] ! i) = Some outs
      \<and> int (total_len outs) \<le> INT_MAX \<and> send_step\<^sup>*\<^sup>* (send_start blank 32768 outs) ([sd] ! i) \<and> sd_done ([sd] ! i)" using o(1,4) sd by simp
  note e2e = exchange_end_to_end [where junks = "\<lambda>_. blank" and c = 0 and i = 0, OF hyp(1-4) n(1) hyp(5) blank_length blank_length hyp(6-8) run n(2)
      junk20_good x hyp(9) refl]
  have "(0::nat) < CPU_CORE" "0 div (CPU_CORE div length [''a'', ''b'']) = 0" by (simp_all add: CPU_CORE_def)
  with conjunct2 [OF e2e] have "filter (\<lambda>t. rng t = Some 0) (concat (map (image_tuples 32768) (of_col 0 (x_got x))))
    = carried 32768 (filter (\<lambda>t. rng t = Some 0) (node_tuples 32768 Some ([scan3] ! 0)))" by blast
  also have "\<dots> = [half]" using carried_half [of 0] unfolding scan3_node(2) nth_Cons_0 by simp
  finally have "filter (\<lambda>t. rng t = Some 0) (concat (map (image_tuples 32768) (of_col 0 (x_got x)))) = [half]" .
  moreover have "ex_step\<^sup>*\<^sup>* (ex_start junk20 wide_ns [sd_sent sd ! 0]) x" using x(1) by simp
  ultimately show ?thesis using o(1) sd x(2) by blast
qed

end
